(* ===== verification/Qtalk_Prelude.thy ===== *)
theory Qtalk_Prelude
  imports Main "HOL-Library.Word"
begin

unbundle bit_operations_syntax

text \<open>
  Shared vocabulary of the qtalk-go development: machine integers and byte strings, Go error
  values and their texts, decimal formatting (the \<open>%d\<close> verb), the parts of \<^verbatim>\<open>io\<close> and
  \<^verbatim>\<open>encoding/binary\<close> the sources call (\<^verbatim>\<open>io.Reader\<close> with \<^verbatim>\<open>io.ReadFull\<close>, \<^verbatim>\<open>io.Writer\<close>,
  big-endian \<^verbatim>\<open>uint32\<close>), the fact collections of the library, and the interface
  \<open>byte_framing\<close> of a self-delimiting byte encoding, which the qmux frames and the RPC
  frames both provide.
\<close>

section \<open>Fact collections\<close>

named_theorems go_simps \<open>unfolding equations of the Go standard library fragment\<close>
named_theorems wire_simps \<open>equations of the wire encodings\<close>

section \<open>Integers and bytes\<close>

type_synonym u8 = "8 word"
type_synonym u32 = "32 word"
type_synonym bytes = "u8 list"

text \<open>\<^verbatim>\<open>binary.BigEndian.PutUint32\<close> and \<^verbatim>\<open>binary.BigEndian.Uint32\<close>.\<close>

definition put_u32 :: "u32 \<Rightarrow> bytes" where
  "put_u32 v = [ucast (drop_bit 24 v), ucast (drop_bit 16 v), ucast (drop_bit 8 v), ucast v]"

definition get_u32 :: "u8 \<Rightarrow> u8 \<Rightarrow> u8 \<Rightarrow> u8 \<Rightarrow> u32" where
  "get_u32 b0 b1 b2 b3 =
     ucast b3 OR push_bit 8 (ucast b2) OR push_bit 16 (ucast b1) OR push_bit 24 (ucast b0)"

text \<open>The fields of a struct of \<^verbatim>\<open>uint32\<close>s, as \<^verbatim>\<open>binary.Read\<close> and \<^verbatim>\<open>binary.Write\<close> lay them out.\<close>

fun split_u32s :: "bytes \<Rightarrow> u32 list" where
  "split_u32s (b0 # b1 # b2 # b3 # bs) = get_u32 b0 b1 b2 b3 # split_u32s bs"
| "split_u32s _ = []"

section \<open>Decimal formatting\<close>

definition digit_char :: "nat \<Rightarrow> char" where
  "digit_char d = char_of (48 + d)"

fun show_nat :: "nat \<Rightarrow> string" where
  "show_nat n = (if n < 10 then [digit_char n]
                 else show_nat (n div 10) @ [digit_char (n mod 10)])"

declare show_nat.simps [simp del]

abbreviation show_word :: "'a::len word \<Rightarrow> string" where
  "show_word w \<equiv> show_nat (unat w)"

definition show_int :: "int \<Rightarrow> string" where
  "show_int n = (if n < 0 then ''-'' @ show_nat (nat (- n)) else show_nat (nat n))"

text \<open>The value of decimal digits, after the value of those already read.\<close>

fun digits_value :: "nat \<Rightarrow> string \<Rightarrow> nat option" where
  "digits_value acc [] = Some acc"
| "digits_value acc (c # s) =
     (let d = of_char c :: nat in if 48 \<le> d \<and> d \<le> 57 then digits_value (10 * acc + (d - 48)) s else None)"

lemma of_char_digit: "d < 10 \<Longrightarrow> (of_char (digit_char d) :: nat) = 48 + d"
  by (simp add: digit_char_def)

lemma digits_value_append:
  "d < 10 \<Longrightarrow> digits_value acc (s @ [digit_char d]) = map_option (\<lambda>n. 10 * n + d) (digits_value acc s)"
  by (induction acc s rule: digits_value.induct) (auto simp: of_char_digit Let_def)

lemma digits_value_show: "digits_value 0 (show_nat n) = Some n"
proof (induction n rule: show_nat.induct)
  case (1 n)
  then show ?case
    using digits_value_append [of "n mod 10" 0 "show_nat (n div 10)"]
    by (subst show_nat.simps) (auto simp: of_char_digit)
qed

lemma show_nat_hd: "show_nat n \<noteq> [] \<and> hd (show_nat n) \<noteq> CHR ''-'' \<and> hd (show_nat n) \<noteq> CHR ''+''"
proof (induction n rule: show_nat.induct)
  case (1 n)
  have "digit_char n \<noteq> CHR ''-'' \<and> digit_char n \<noteq> CHR ''+''" if "n < 10"
    using of_char_digit [OF that] by auto
  with 1 show ?case by (subst (1 2 3) show_nat.simps) auto
qed

section \<open>Strings\<close>

text \<open>\<^verbatim>\<open>strings.Join\<close>.\<close>

fun join :: "string \<Rightarrow> string list \<Rightarrow> string" where
  "join sep [] = []"
| "join sep [x] = x"
| "join sep (x # xs) = x @ sep @ join sep xs"

section \<open>Errors\<close>

datatype errno = ECONNRESET | EPIPE | ETIMEDOUT

datatype go_error =
    EOF                        \<comment> \<open>io.EOF\<close>
  | ErrUnexpectedEOF           \<comment> \<open>io.ErrUnexpectedEOF\<close>
  | ErrClosedPipe              \<comment> \<open>io.ErrClosedPipe\<close>
  | ErrClosed                  \<comment> \<open>net.ErrClosed\<close>
  | Canceled                   \<comment> \<open>context.Canceled\<close>
  | DeadlineExceeded           \<comment> \<open>context.DeadlineExceeded\<close>
  | SyscallError string errno  \<comment> \<open>*os.SyscallError\<close>
  | Wrapped string go_error    \<comment> \<open>an error with an Unwrap method, e.g. *net.OpError\<close>
  | ErrorString string         \<comment> \<open>errors.New, fmt.Errorf\<close>

primrec errno_text :: "errno \<Rightarrow> string" where
  "errno_text ECONNRESET = ''connection reset by peer''"
| "errno_text EPIPE = ''broken pipe''"
| "errno_text ETIMEDOUT = ''connection timed out''"

text \<open>The method \<^verbatim>\<open>Error() string\<close>.\<close>

primrec error_text :: "go_error \<Rightarrow> string" where
  "error_text EOF = ''EOF''"
| "error_text ErrUnexpectedEOF = ''unexpected EOF''"
| "error_text ErrClosedPipe = ''io: read/write on closed pipe''"
| "error_text ErrClosed = ''use of closed network connection''"
| "error_text Canceled = ''context canceled''"
| "error_text DeadlineExceeded = ''context deadline exceeded''"
| "error_text (SyscallError call e) = call @ '': '' @ errno_text e"
| "error_text (Wrapped ctx e) = ctx @ '': '' @ error_text e"
| "error_text (ErrorString s) = s"

text \<open>\<^verbatim>\<open>errors.As(err, &syscallErr)\<close>: the first \<^verbatim>\<open>*os.SyscallError\<close> of the chain.\<close>

fun as_syscall :: "go_error \<Rightarrow> errno option" where
  "as_syscall (SyscallError _ e) = Some e"
| "as_syscall (Wrapped _ e) = as_syscall e"
| "as_syscall _ = None"

section \<open>Readers and writers\<close>

text \<open>
  A reader is the bytes that have arrived and are not yet consumed, and, once the stream has
  ended, the error that a read past them returns. A read that needs more bytes than have arrived
  on a stream that has not ended blocks (\<open>RdBlock\<close>): the reader is then unchanged and the call
  is tried again when more bytes arrive.
\<close>

record reader =
  rd_buf :: bytes
  rd_end :: "go_error option"

datatype 'a rd_result = RdOk 'a reader | RdErr go_error reader | RdBlock

definition ReadFull :: "nat \<Rightarrow> reader \<Rightarrow> bytes rd_result" where
  "ReadFull n r =
     (if n \<le> length (rd_buf r) then RdOk (take n (rd_buf r)) (r\<lparr>rd_buf := drop n (rd_buf r)\<rparr>)
      else (case rd_end r of
              None \<Rightarrow> RdBlock
            | Some e \<Rightarrow> RdErr (if rd_buf r \<noteq> [] \<and> e = EOF then ErrUnexpectedEOF else e)
                             (r\<lparr>rd_buf := []\<rparr>)))"

definition rd_bind :: "'a rd_result \<Rightarrow> ('a \<Rightarrow> reader \<Rightarrow> 'b rd_result) \<Rightarrow> 'b rd_result" where
  "rd_bind x f = (case x of RdOk a r \<Rightarrow> f a r | RdErr e r \<Rightarrow> RdErr e r | RdBlock \<Rightarrow> RdBlock)"

text \<open>
  \<^verbatim>\<open>binary.Read(r, binary.BigEndian, p)\<close> for a pointer to a struct of \<open>k\<close> fields of type
  \<^verbatim>\<open>uint32\<close>: it reads the struct's size with \<^verbatim>\<open>io.ReadFull\<close> and returns its error as it is.
\<close>

definition binary_Read :: "nat \<Rightarrow> reader \<Rightarrow> u32 list rd_result" where
  "binary_Read k r = rd_bind (ReadFull (4 * k) r) (\<lambda>bs r'. RdOk (split_u32s bs) r')"

text \<open>Decoding one value after another from the same reader.\<close>

primrec read_many :: "(reader \<Rightarrow> 'a rd_result) \<Rightarrow> nat \<Rightarrow> reader \<Rightarrow> 'a list rd_result" where
  "read_many dec 0 r = RdOk [] r"
| "read_many dec (Suc n) r =
     rd_bind (dec r) (\<lambda>x r'. rd_bind (read_many dec n r') (\<lambda>xs r''. RdOk (x # xs) r''))"

text \<open>
  A writer is the bytes written so far and, when it is going to fail, how many more bytes it
  takes and the error it then returns: \<^verbatim>\<open>io.Writer\<close> must return an error when it takes fewer
  bytes than it is given.
\<close>

record writer =
  wr_buf :: bytes
  wr_fail :: "(nat \<times> go_error) option"

definition Write :: "bytes \<Rightarrow> writer \<Rightarrow> go_error option \<times> writer" where
  "Write p w =
     (case wr_fail w of
        None \<Rightarrow> (None, w\<lparr>wr_buf := wr_buf w @ p\<rparr>)
      | Some (k, e) \<Rightarrow>
          if length p \<le> k then (None, w\<lparr>wr_buf := wr_buf w @ p, wr_fail := Some (k - length p, e)\<rparr>)
          else (Some e, w\<lparr>wr_buf := wr_buf w @ take k p, wr_fail := Some (0, e)\<rparr>))"

section \<open>Lemmas on integers and bytes\<close>

lemma length_put_u32 [simp, wire_simps]: "length (put_u32 v) = 4"
  by (simp add: put_u32_def)

lemma get_put_u32 [simp, wire_simps]:
  "get_u32 (ucast (drop_bit 24 v)) (ucast (drop_bit 16 v)) (ucast (drop_bit 8 v)) (ucast v) = v"
proof (rule bit_word_eqI)
  fix n assume n: "n < LENGTH(32)"
  then consider "n < 8" | "8 \<le> n" "n < 16" | "16 \<le> n" "n < 24" | "24 \<le> n" by linarith
  then show "bit (get_u32 (ucast (drop_bit 24 v)) (ucast (drop_bit 16 v))
                   (ucast (drop_bit 8 v)) (ucast v)) n \<longleftrightarrow> bit v n"
    by cases (use n in \<open>auto simp: get_u32_def bit_simps\<close>)
qed

lemma split_put_u32 [simp, wire_simps]: "split_u32s (put_u32 v @ bs) = v # split_u32s bs"
  by (simp add: put_u32_def)

lemma split_put_u32_single [simp, wire_simps]: "split_u32s (put_u32 v) = [v]"
  using split_put_u32 [of v "[]"] by simp

lemma put_u32_inject [simp]: "put_u32 v = put_u32 w \<longleftrightarrow> v = w"
  by (metis list.inject split_put_u32_single)

lemma not_bit_u8: "8 \<le> m \<Longrightarrow> \<not> bit (b :: u8) m"
  using bit_imp_le_length [of b m] by auto

lemma put_get_u32: "put_u32 (get_u32 b0 b1 b2 b3) = [b0, b1, b2, b3]"
proof -
  have "ucast (drop_bit k (get_u32 b0 b1 b2 b3)) = b"
    if "(k, b) \<in> {(24, b0), (16, b1), (8, b2), (0, b3)}" for k b
    using that by (auto intro!: bit_word_eqI simp: get_u32_def bit_simps not_bit_u8)
  from this [of 24 b0] this [of 16 b1] this [of 8 b2] this [of 0 b3]
  show ?thesis by (simp add: put_u32_def)
qed

lemma unat_of_nat_u32: "n < 2 ^ 32 \<Longrightarrow> unat (of_nat n :: u32) = n"
  by (simp add: unat_of_nat take_bit_nat_eq_self)

lemma unat_pos_iff [simp]: "0 < unat (w :: 'a::len word) \<longleftrightarrow> w \<noteq> 0"
  using unat_gt_0 [of w] .

lemma unat_lt_u32 [simp]: "unat (w :: u32) < 4294967296"
  using unsigned_less [of w] by simp

lemma u32_add_wraps: "a + n < n \<longleftrightarrow> 4294967296 \<le> unat a + unat n" for a n :: u32
proof -
  have "n \<le> n + a \<longleftrightarrow> unat n + unat a < 2 ^ LENGTH(32)" by (rule no_olen_add_nat)
  moreover have "(2 :: nat) ^ LENGTH(32) = 4294967296" by simp
  ultimately show ?thesis by (metis add.commute not_le)
qed

lemma unat_add_u32: "unat a + unat n < 4294967296 \<Longrightarrow> unat (a + n) = unat a + unat n" for a n :: u32
  by (simp add: unat_word_ariths)

section \<open>Lemmas on readers and writers\<close>

lemma ReadFull_append [go_simps, simp]:
  "ReadFull (length p) \<lparr>rd_buf = p @ q, rd_end = e\<rparr> = RdOk p \<lparr>rd_buf = q, rd_end = e\<rparr>"
  by (simp add: ReadFull_def)

lemma ReadFull_short [go_simps]:
  "length (rd_buf r) < n \<Longrightarrow> rd_end r = None \<Longrightarrow> ReadFull n r = RdBlock"
  by (simp add: ReadFull_def)

lemma rd_bind_simps [simp]:
  "rd_bind (RdOk a r) f = f a r"
  "rd_bind (RdErr e r) f = RdErr e r"
  "rd_bind RdBlock f = RdBlock"
  by (simp_all add: rd_bind_def)

lemma Write_ok [go_simps]: "wr_fail w = None \<Longrightarrow> Write p w = (None, w\<lparr>wr_buf := wr_buf w @ p\<rparr>)"
  by (simp add: Write_def)

lemma Write_prefix: "\<exists>q. wr_buf (snd (Write p w)) = wr_buf w @ q \<and> (\<exists>s. p = q @ s)"
  by (auto simp: Write_def split: option.splits prod.splits)
     (metis append_take_drop_id)+

section \<open>Self-delimiting encodings\<close>

text \<open>
  The contract between a sender that writes encoded values back to back on one stream and a
  receiver that decodes them one at a time: an encoded value in front of any bytes decodes to
  itself and leaves those bytes, and while an encoded value has arrived only in part the decoder
  waits. \<open>ok\<close> says which values the encoding can carry.
\<close>

locale byte_framing =
  fixes enc :: "'a \<Rightarrow> bytes"
    and dec :: "reader \<Rightarrow> 'a rd_result"
    and ok :: "'a \<Rightarrow> bool"
  assumes dec_enc: "ok x \<Longrightarrow> dec \<lparr>rd_buf = enc x @ rest, rd_end = e\<rparr>
                      = RdOk x \<lparr>rd_buf = rest, rd_end = e\<rparr>"
    and dec_partial: "ok x \<Longrightarrow> enc x = p @ q \<Longrightarrow> q \<noteq> []
                      \<Longrightarrow> dec \<lparr>rd_buf = p, rd_end = None\<rparr> = RdBlock"
begin

lemma prefix_free:
  assumes "ok x" and "ok y" and "enc x @ r = enc y @ s"
  shows "x = y \<and> r = s"
proof -
  have "RdOk x \<lparr>rd_buf = r, rd_end = None\<rparr> = dec \<lparr>rd_buf = enc x @ r, rd_end = None\<rparr>"
    by (rule dec_enc [OF assms(1), symmetric])
  also have "\<dots> = dec \<lparr>rd_buf = enc y @ s, rd_end = None\<rparr>"
    by (simp only: assms(3))
  also have "\<dots> = RdOk y \<lparr>rd_buf = s, rd_end = None\<rparr>"
    by (rule dec_enc [OF assms(2)])
  finally show ?thesis by simp
qed

lemma read_many_enc:
  assumes "list_all ok xs"
  shows "read_many dec (length xs) \<lparr>rd_buf = concat (map enc xs) @ rest, rd_end = e\<rparr>
       = RdOk xs \<lparr>rd_buf = rest, rd_end = e\<rparr>"
  using assms by (induction xs) (simp_all add: dec_enc)

lemma stream_injective:
  assumes "list_all ok xs" and "list_all ok ys" and "length xs = length ys"
    and "concat (map enc xs) = concat (map enc ys)"
  shows "xs = ys"
  using read_many_enc [OF assms(1), of "[]" None] read_many_enc [OF assms(2), of "[]" None] assms(3,4)
  by simp

end

end
