(* ===== verification/Mux_Frame.thy ===== *)
theory Mux_Frame
  imports Qtalk_Prelude
begin

text \<open>
  The qmux wire format (\<^verbatim>\<open>src/mux/frame\<close>): the seven message structs, their methods
  \<^verbatim>\<open>Channel\<close>, \<^verbatim>\<open>String\<close> and \<^verbatim>\<open>Bytes\<close>, the encoder and the decoder. The struct types that implement
  the interface \<^verbatim>\<open>Message\<close> are the constructors of one datatype, with the fields in the order
  of the source; a method of the interface dispatches on the constructor. The two mutexes make
  \<^verbatim>\<open>Encode\<close> and \<^verbatim>\<open>Decode\<close> atomic, as functions are. The tracing to \<^verbatim>\<open>Debug\<close> (nil unless a
  program sets it) is left out.

  The lemmas show that \<^verbatim>\<open>Decode\<close> inverts \<^verbatim>\<open>Bytes\<close> in both directions, that a stream of frames is
  read back message by message, and which error a truncated frame gives.
\<close>

section \<open>Messages\<close>

definition msgChannelOpen :: u8 where "msgChannelOpen = 100"
definition msgChannelOpenConfirm :: u8 where "msgChannelOpenConfirm = 101"
definition msgChannelOpenFailure :: u8 where "msgChannelOpenFailure = 102"
definition msgChannelWindowAdjust :: u8 where "msgChannelWindowAdjust = 103"
definition msgChannelData :: u8 where "msgChannelData = 104"
definition msgChannelEOF :: u8 where "msgChannelEOF = 105"
definition msgChannelClose :: u8 where "msgChannelClose = 106"

datatype Message =
    OpenMessage u32 u32 u32             \<comment> \<open>SenderID, WindowSize, MaxPacketSize\<close>
  | OpenConfirmMessage u32 u32 u32 u32  \<comment> \<open>ChannelID, SenderID, WindowSize, MaxPacketSize\<close>
  | OpenFailureMessage u32              \<comment> \<open>ChannelID\<close>
  | WindowAdjustMessage u32 u32         \<comment> \<open>ChannelID, AdditionalBytes\<close>
  | DataMessage u32 u32 bytes           \<comment> \<open>ChannelID, Length, Data\<close>
  | EOFMessage u32                      \<comment> \<open>ChannelID\<close>
  | CloseMessage u32                    \<comment> \<open>ChannelID\<close>

text \<open>\<^verbatim>\<open>binary.Write(buf, binary.BigEndian, msg)\<close> for a struct of \<^verbatim>\<open>uint32\<close> fields.\<close>

definition binary_Write :: "u32 list \<Rightarrow> bytes" where
  "binary_Write vs = concat (map put_u32 vs)"

definition OpenMessage_Bytes :: "u32 \<Rightarrow> u32 \<Rightarrow> u32 \<Rightarrow> bytes" where
  "OpenMessage_Bytes sid win maxp = msgChannelOpen # binary_Write [sid, win, maxp]"

definition OpenConfirmMessage_Bytes :: "u32 \<Rightarrow> u32 \<Rightarrow> u32 \<Rightarrow> u32 \<Rightarrow> bytes" where
  "OpenConfirmMessage_Bytes cid sid win maxp =
     msgChannelOpenConfirm # binary_Write [cid, sid, win, maxp]"

definition OpenFailureMessage_Bytes :: "u32 \<Rightarrow> bytes" where
  "OpenFailureMessage_Bytes cid = msgChannelOpenFailure # binary_Write [cid]"

definition WindowAdjustMessage_Bytes :: "u32 \<Rightarrow> u32 \<Rightarrow> bytes" where
  "WindowAdjustMessage_Bytes cid n = msgChannelWindowAdjust # binary_Write [cid, n]"

definition DataMessage_Bytes :: "u32 \<Rightarrow> u32 \<Rightarrow> bytes \<Rightarrow> bytes" where
  "DataMessage_Bytes cid len d = (msgChannelData # put_u32 cid @ put_u32 len) @ d"

definition EOFMessage_Bytes :: "u32 \<Rightarrow> bytes" where
  "EOFMessage_Bytes cid = msgChannelEOF # binary_Write [cid]"

definition CloseMessage_Bytes :: "u32 \<Rightarrow> bytes" where
  "CloseMessage_Bytes cid = msgChannelClose # binary_Write [cid]"

fun Bytes :: "Message \<Rightarrow> bytes" where
  "Bytes (OpenMessage sid win maxp) = OpenMessage_Bytes sid win maxp"
| "Bytes (OpenConfirmMessage cid sid win maxp) = OpenConfirmMessage_Bytes cid sid win maxp"
| "Bytes (OpenFailureMessage cid) = OpenFailureMessage_Bytes cid"
| "Bytes (WindowAdjustMessage cid n) = WindowAdjustMessage_Bytes cid n"
| "Bytes (DataMessage cid len d) = DataMessage_Bytes cid len d"
| "Bytes (EOFMessage cid) = EOFMessage_Bytes cid"
| "Bytes (CloseMessage cid) = CloseMessage_Bytes cid"

text \<open>The method \<^verbatim>\<open>Channel() (uint32, bool)\<close>.\<close>

fun Channel :: "Message \<Rightarrow> u32 \<times> bool" where
  "Channel (OpenMessage sid win maxp) = (0, False)"
| "Channel (OpenConfirmMessage cid sid win maxp) = (cid, True)"
| "Channel (OpenFailureMessage cid) = (cid, True)"
| "Channel (WindowAdjustMessage cid n) = (cid, True)"
| "Channel (DataMessage cid len d) = (cid, True)"
| "Channel (EOFMessage cid) = (cid, True)"
| "Channel (CloseMessage cid) = (cid, True)"

definition OpenMessage_String :: "u32 \<Rightarrow> u32 \<Rightarrow> u32 \<Rightarrow> string" where
  "OpenMessage_String sid win maxp = ''{OpenMessage SenderID:'' @ show_word sid
     @ '' WindowSize:'' @ show_word win @ '' MaxPacketSize:'' @ show_word maxp @ ''}''"

definition OpenConfirmMessage_String :: "u32 \<Rightarrow> u32 \<Rightarrow> u32 \<Rightarrow> u32 \<Rightarrow> string" where
  "OpenConfirmMessage_String cid sid win maxp =
     ''{OpenConfirmMessage ChannelID:'' @ show_word cid @ '' SenderID:'' @ show_word sid
     @ '' WindowSize:'' @ show_word win @ '' MaxPacketSize:'' @ show_word maxp @ ''}''"

definition OpenFailureMessage_String :: "u32 \<Rightarrow> string" where
  "OpenFailureMessage_String cid = ''{OpenFailureMessage ChannelID:'' @ show_word cid @ ''}''"

definition WindowAdjustMessage_String :: "u32 \<Rightarrow> u32 \<Rightarrow> string" where
  "WindowAdjustMessage_String cid n = ''{WindowAdjustMessage ChannelID:'' @ show_word cid
     @ '' AdditionalBytes:'' @ show_word n @ ''}''"

definition DataMessage_String :: "u32 \<Rightarrow> u32 \<Rightarrow> bytes \<Rightarrow> string" where
  "DataMessage_String cid len d = ''{DataMessage ChannelID:'' @ show_word cid
     @ '' Length:'' @ show_word len @ '' Data: ... }''"

definition EOFMessage_String :: "u32 \<Rightarrow> string" where
  "EOFMessage_String cid = ''{EOFMessage ChannelID:'' @ show_word cid @ ''}''"

definition CloseMessage_String :: "u32 \<Rightarrow> string" where
  "CloseMessage_String cid = ''{CloseMessage ChannelID:'' @ show_word cid @ ''}''"

fun String :: "Message \<Rightarrow> string" where
  "String (OpenMessage sid win maxp) = OpenMessage_String sid win maxp"
| "String (OpenConfirmMessage cid sid win maxp) = OpenConfirmMessage_String cid sid win maxp"
| "String (OpenFailureMessage cid) = OpenFailureMessage_String cid"
| "String (WindowAdjustMessage cid n) = WindowAdjustMessage_String cid n"
| "String (DataMessage cid len d) = DataMessage_String cid len d"
| "String (EOFMessage cid) = EOFMessage_String cid"
| "String (CloseMessage cid) = CloseMessage_String cid"

section \<open>Encoder and decoder\<close>

definition Encode :: "Message \<Rightarrow> writer \<Rightarrow> go_error option \<times> writer" where
  "Encode msg w = Write (Bytes msg) w"

text \<open>Several messages, one after the other.\<close>

primrec Encode_all :: "Message list \<Rightarrow> writer \<Rightarrow> writer" where
  "Encode_all [] w = w"
| "Encode_all (m # ms) w = Encode_all ms (snd (Encode m w))"

text \<open>\<^verbatim>\<open>messageFrom\<close> allocates a message of the type the number names, all fields zero.\<close>

definition messageFrom :: "u8 \<Rightarrow> go_error + Message" where
  "messageFrom num =
     (if num = msgChannelOpen then Inr (OpenMessage 0 0 0)
      else if num = msgChannelData then Inr (DataMessage 0 0 [])
      else if num = msgChannelOpenConfirm then Inr (OpenConfirmMessage 0 0 0 0)
      else if num = msgChannelOpenFailure then Inr (OpenFailureMessage 0)
      else if num = msgChannelWindowAdjust then Inr (WindowAdjustMessage 0 0)
      else if num = msgChannelEOF then Inr (EOFMessage 0)
      else if num = msgChannelClose then Inr (CloseMessage 0)
      else Inl (ErrorString (''qtalk: unexpected message type '' @ show_word num)))"

text \<open>
  The fields that \<^verbatim>\<open>binary.Read\<close> finds by reflection in the allocated struct: how many there are,
  and the struct with them set. A data message is read by hand (its \<^verbatim>\<open>Data\<close> is not of fixed size).
\<close>

fun field_count :: "Message \<Rightarrow> nat" where
  "field_count (OpenMessage _ _ _) = 3"
| "field_count (OpenConfirmMessage _ _ _ _) = 4"
| "field_count (OpenFailureMessage _) = 1"
| "field_count (WindowAdjustMessage _ _) = 2"
| "field_count (DataMessage _ _ _) = 2"
| "field_count (EOFMessage _) = 1"
| "field_count (CloseMessage _) = 1"

fun set_fields :: "Message \<Rightarrow> u32 list \<Rightarrow> Message" where
  "set_fields (OpenMessage _ _ _) [a, b, c] = OpenMessage a b c"
| "set_fields (OpenConfirmMessage _ _ _ _) [a, b, c, d] = OpenConfirmMessage a b c d"
| "set_fields (OpenFailureMessage _) [a] = OpenFailureMessage a"
| "set_fields (WindowAdjustMessage _ _) [a, b] = WindowAdjustMessage a b"
| "set_fields (DataMessage _ _ d) [a, b] = DataMessage a b d"
| "set_fields (EOFMessage _) [a] = EOFMessage a"
| "set_fields (CloseMessage _) [a] = CloseMessage a"
| "set_fields m _ = m"

definition Decode :: "reader \<Rightarrow> Message rd_result" where
  "Decode r =
     (case ReadFull 1 r of
        RdBlock \<Rightarrow> RdBlock
      | RdErr e r1 \<Rightarrow> RdErr (if as_syscall e = Some ECONNRESET then EOF else e) r1
      | RdOk num r1 \<Rightarrow>
          (case messageFrom (hd num) of
             Inl e \<Rightarrow> RdErr e r1
           | Inr msg \<Rightarrow>
               if hd num = msgChannelData then
                 rd_bind (binary_Read 2 r1) (\<lambda>fs r2.
                   rd_bind (ReadFull (unat (fs ! 1)) r2) (\<lambda>d r3.
                     RdOk (DataMessage (fs ! 0) (fs ! 1) d) r3))
               else
                 rd_bind (binary_Read (field_count msg) r1) (\<lambda>fs r2.
                   RdOk (set_fields msg fs) r2)))"

text \<open>Which messages the format can carry: a data message states the length of its data.\<close>

definition frame_ok :: "Message \<Rightarrow> bool" where
  "frame_ok m = (case m of DataMessage _ len d \<Rightarrow> length d = unat len | _ \<Rightarrow> True)"

text \<open>
  The lengths of a proper prefix of a frame after which a stream that ends in \<^verbatim>\<open>io.EOF\<close> looks
  like a clean end: nothing read of the part that \<^verbatim>\<open>io.ReadFull\<close> is about to read.
\<close>

definition clean_cut :: "Message \<Rightarrow> nat \<Rightarrow> bool" where
  "clean_cut m n = (n = 0 \<or> n = 1 \<or> n = 9 \<and> (case m of DataMessage _ _ _ \<Rightarrow> True | _ \<Rightarrow> False))"

lemmas msg_num_defs = msgChannelOpen_def msgChannelOpenConfirm_def msgChannelOpenFailure_def
  msgChannelWindowAdjust_def msgChannelData_def msgChannelEOF_def msgChannelClose_def

lemmas bytes_defs = OpenMessage_Bytes_def OpenConfirmMessage_Bytes_def OpenFailureMessage_Bytes_def
  WindowAdjustMessage_Bytes_def DataMessage_Bytes_def EOFMessage_Bytes_def CloseMessage_Bytes_def
  binary_Write_def

section \<open>Reading a whole frame\<close>

lemma binary_Read_append [wire_simps]:
  "length p = 4 * k \<Longrightarrow> binary_Read k \<lparr>rd_buf = p @ q, rd_end = e\<rparr>
     = RdOk (split_u32s p) \<lparr>rd_buf = q, rd_end = e\<rparr>"
  using ReadFull_append [of p q e] by (simp add: binary_Read_def)

lemma ReadFull_one [wire_simps]:
  "ReadFull (Suc 0) \<lparr>rd_buf = b # q, rd_end = e\<rparr> = RdOk [b] \<lparr>rd_buf = q, rd_end = e\<rparr>"
  by (simp add: ReadFull_def)

lemma Decode_Bytes:
  assumes "frame_ok m"
  shows "Decode \<lparr>rd_buf = Bytes m @ rest, rd_end = e\<rparr> = RdOk m \<lparr>rd_buf = rest, rd_end = e\<rparr>"
proof (cases m)
  case (DataMessage cid len d)
  with assms have "length d = unat len" by (simp add: frame_ok_def)
  then show ?thesis
    using DataMessage ReadFull_append [of d rest e]
      binary_Read_append [of "put_u32 cid @ put_u32 len" 2 "d @ rest" e]
    by (simp add: Decode_def bytes_defs msg_num_defs messageFrom_def wire_simps)
qed (simp_all add: Decode_def bytes_defs msg_num_defs messageFrom_def wire_simps
       binary_Read_append [of "a @ b" for a b, simplified]
       binary_Read_append [of "a @ b @ c" for a b c, simplified]
       binary_Read_append [of "a @ b @ c @ d" for a b c d, simplified])

section \<open>Only frames are accepted\<close>

lemma ReadFull_RdOkD:
  "ReadFull n r = RdOk bs r' \<Longrightarrow> rd_buf r = bs @ rd_buf r' \<and> length bs = n \<and> rd_end r' = rd_end r"
  by (auto simp: ReadFull_def split: if_splits option.splits)

lemma split_u32s_inverse:
  "length bs = 4 * k \<Longrightarrow> concat (map put_u32 (split_u32s bs)) = bs \<and> length (split_u32s bs) = k"
proof (induction bs arbitrary: k rule: split_u32s.induct)
  case (1 b0 b1 b2 b3 bs)
  then obtain k' where "k = Suc k'" by (cases k) auto
  with 1 show ?case by (auto simp: put_get_u32)
qed (auto, presburger+)

lemma binary_Read_RdOkD:
  assumes "binary_Read k r = RdOk vs r'"
  shows "rd_buf r = binary_Write vs @ rd_buf r' \<and> length vs = k \<and> rd_end r' = rd_end r"
proof -
  from assms obtain bs where "ReadFull (4 * k) r = RdOk bs r'" and "vs = split_u32s bs"
    by (auto simp: binary_Read_def rd_bind_def split: rd_result.splits)
  then show ?thesis
    using ReadFull_RdOkD [of "4 * k" r bs r'] split_u32s_inverse [of bs k] by (simp add: binary_Write_def)
qed

lemma rd_bind_RdOkD: "rd_bind x f = RdOk b r \<Longrightarrow> \<exists>a r'. x = RdOk a r' \<and> f a r' = RdOk b r"
  by (auto simp: rd_bind_def split: rd_result.splits)

lemma messageFrom_InrD:
  assumes "messageFrom num = Inr msg" and "num \<noteq> msgChannelData"
    and "length vs = field_count msg"
  shows "Bytes (set_fields msg vs) = num # binary_Write vs \<and> frame_ok (set_fields msg vs)"
  using assms
  by (auto simp: messageFrom_def frame_ok_def bytes_defs length_Suc_conv eval_nat_numeral
        split: if_splits)

lemma Decode_RdOkD:
  assumes "Decode r = RdOk m r'"
  shows "rd_buf r = Bytes m @ rd_buf r' \<and> rd_end r' = rd_end r \<and> frame_ok m"
proof -
  from assms obtain num r1 where num: "ReadFull 1 r = RdOk num r1"
    by (auto simp: Decode_def split: rd_result.splits)
  then have n: "num = [hd num]" and r1: "rd_buf r = hd num # rd_buf r1" "rd_end r1 = rd_end r"
    using ReadFull_RdOkD [OF num] by (auto simp: length_Suc_conv)
  from assms num obtain msg where msg: "messageFrom (hd num) = Inr msg"
    by (auto simp: Decode_def split: sum.splits)
  show ?thesis
  proof (cases "hd num = msgChannelData")
    case True
    with assms num msg obtain fs r2 d where
      fs: "binary_Read 2 r1 = RdOk fs r2" and d: "ReadFull (unat (fs ! 1)) r2 = RdOk d r'"
      and m: "m = DataMessage (fs ! 0) (fs ! 1) d"
      by (auto simp: Decode_def dest!: rd_bind_RdOkD)
    from binary_Read_RdOkD [OF fs] obtain a b where "fs = [a, b]"
      by (auto simp: length_Suc_conv eval_nat_numeral)
    with True binary_Read_RdOkD [OF fs] ReadFull_RdOkD [OF d] m r1 show ?thesis
      by (simp add: bytes_defs frame_ok_def)
  next
    case False
    with assms num msg obtain vs where
      vs: "binary_Read (field_count msg) r1 = RdOk vs r'" and m: "m = set_fields msg vs"
      by (auto simp: Decode_def dest!: rd_bind_RdOkD)
    from binary_Read_RdOkD [OF vs] messageFrom_InrD [OF msg False] r1 m show ?thesis
      by simp
  qed
qed

section \<open>Frames cut short\<close>

lemma Bytes_hd: "\<exists>msg. messageFrom (hd (Bytes m)) = Inr msg" and Bytes_not_Nil: "Bytes m \<noteq> []"
  by (cases m; simp add: bytes_defs messageFrom_def msg_num_defs)+

lemma ReadFull_no_err: "rd_end r = None \<Longrightarrow> ReadFull n r \<noteq> RdErr e r'"
  by (simp add: ReadFull_def)

lemma binary_Read_no_err: "rd_end r = None \<Longrightarrow> binary_Read n r \<noteq> RdErr e r'"
  by (auto simp: binary_Read_def rd_bind_def ReadFull_no_err split: rd_result.splits)

lemma ReadFull_oneD:
  "ReadFull (Suc 0) r = RdOk num r1 \<Longrightarrow> rd_buf r = hd num # rd_buf r1 \<and> rd_end r1 = rd_end r"
  by (auto dest!: ReadFull_RdOkD simp: length_Suc_conv)

lemma Decode_open_RdErrD:
  assumes "Decode r = RdErr e r'" and "rd_end r = None"
  shows "rd_buf r \<noteq> [] \<and> messageFrom (hd (rd_buf r)) = Inl e"
  using assms
  by (auto simp: Decode_def rd_bind_def ReadFull_no_err binary_Read_no_err
        dest!: ReadFull_oneD binary_Read_RdOkD
        split: rd_result.splits sum.splits if_splits)

lemma Decode_partial:
  assumes ok: "frame_ok m" and pq: "Bytes m = p @ q" and q: "q \<noteq> []"
  shows "Decode \<lparr>rd_buf = p, rd_end = None\<rparr> = RdBlock"
proof (cases "Decode \<lparr>rd_buf = p, rd_end = None\<rparr>")
  case (RdOk m' r')
  then have p: "p = Bytes m' @ rd_buf r'" and ok': "frame_ok m'" by (auto dest: Decode_RdOkD)
  have "RdOk m \<lparr>rd_buf = [], rd_end = None\<rparr> = Decode \<lparr>rd_buf = Bytes m @ [], rd_end = None\<rparr>"
    by (rule Decode_Bytes [OF ok, symmetric])
  also have "\<dots> = Decode \<lparr>rd_buf = Bytes m' @ (rd_buf r' @ q), rd_end = None\<rparr>"
    using pq p by simp
  also have "\<dots> = RdOk m' \<lparr>rd_buf = rd_buf r' @ q, rd_end = None\<rparr>"
    by (rule Decode_Bytes [OF ok'])
  finally show ?thesis using q by simp
next
  case (RdErr e r')
  then have "p \<noteq> []" and "messageFrom (hd p) = Inl e" by (auto dest: Decode_open_RdErrD)
  moreover from this pq have "hd p = hd (Bytes m)" by simp
  ultimately show ?thesis using Bytes_hd [of m] by auto
qed

interpretation qmux: byte_framing Bytes Decode frame_ok
  by unfold_locales (auto intro: Decode_Bytes Decode_partial)

lemma ReadFull_eof:
  "length p < n \<Longrightarrow> ReadFull n \<lparr>rd_buf = p, rd_end = Some EOF\<rparr>
     = RdErr (if p = [] then EOF else ErrUnexpectedEOF) \<lparr>rd_buf = [], rd_end = Some EOF\<rparr>"
  by (simp add: ReadFull_def)

lemma binary_Read_eof:
  "length p < 4 * k \<Longrightarrow> binary_Read k \<lparr>rd_buf = p, rd_end = Some EOF\<rparr>
     = RdErr (if p = [] then EOF else ErrUnexpectedEOF) \<lparr>rd_buf = [], rd_end = Some EOF\<rparr>"
  by (simp add: binary_Read_def ReadFull_eof)

lemma Decode_cut_fixed:
  assumes "messageFrom num = Inr msg" and "length p < 4 * field_count msg"
  shows "Decode \<lparr>rd_buf = num # p, rd_end = Some EOF\<rparr>
       = RdErr (if p = [] then EOF else ErrUnexpectedEOF) \<lparr>rd_buf = [], rd_end = Some EOF\<rparr>"
proof -
  have "field_count msg = 2" if "num = msgChannelData"
    using assms(1) that by (auto simp: messageFrom_def msg_num_defs)
  with assms show ?thesis by (auto simp: Decode_def ReadFull_one binary_Read_eof)
qed

lemma Decode_cut_data:
  assumes "length d < unat len"
  shows "Decode \<lparr>rd_buf = msgChannelData # put_u32 cid @ put_u32 len @ d, rd_end = Some EOF\<rparr>
       = RdErr (if d = [] then EOF else ErrUnexpectedEOF) \<lparr>rd_buf = [], rd_end = Some EOF\<rparr>"
  using assms binary_Read_append [of "put_u32 cid @ put_u32 len" 2 d "Some EOF"]
  by (simp add: Decode_def ReadFull_one messageFrom_def msg_num_defs ReadFull_eof wire_simps)

lemma Bytes_fixed_length:
  assumes "\<nexists>cid len d. m = DataMessage cid len d"
  shows "\<exists>msg. messageFrom (hd (Bytes m)) = Inr msg \<and> length (Bytes m) = Suc (4 * field_count msg)"
  using assms by (cases m) (simp_all add: bytes_defs messageFrom_def msg_num_defs)

lemma Decode_truncated_aux:
  assumes ok: "frame_ok m" and pq: "Bytes m = (num # p) @ q" and q: "q \<noteq> []"
  shows "Decode \<lparr>rd_buf = num # p, rd_end = Some EOF\<rparr>
       = RdErr (if clean_cut m (Suc (length p)) then EOF else ErrUnexpectedEOF)
               \<lparr>rd_buf = [], rd_end = Some EOF\<rparr>"
proof (cases "\<exists>cid len d. m = DataMessage cid len d")
  case True
  then obtain cid len d where m: "m = DataMessage cid len d" by blast
  with ok have len: "length d = unat len" by (simp add: frame_ok_def)
  from m pq have num: "num = msgChannelData" and pq': "put_u32 cid @ put_u32 len @ d = p @ q"
    by (auto simp: bytes_defs)
  show ?thesis
  proof (cases "length p < 8")
    case True
    moreover have "messageFrom num = Inr (DataMessage 0 0 [])"
      by (simp add: num messageFrom_def msg_num_defs)
    ultimately show ?thesis
      using Decode_cut_fixed [of num "DataMessage 0 0 []" p] m by (auto simp: clean_cut_def)
  next
    case False
    have "p = take (length p) (put_u32 cid @ put_u32 len @ d)" by (simp only: pq' append_eq_conv_conj) simp
    also have "\<dots> = put_u32 cid @ put_u32 len @ take (length p - 8) d" using False by simp
    finally have p: "p = put_u32 cid @ put_u32 len @ take (length p - 8) d" .
    have short: "length p - 8 < unat len"
      using arg_cong [OF pq', of length] q False by (cases q) (simp_all add: len [symmetric])
    then have "take (length p - 8) d = [] \<longleftrightarrow> length p = 8" using False len by auto
    moreover have "num # p = msgChannelData # put_u32 cid @ put_u32 len @ take (length p - 8) d"
      using p num by simp
    ultimately show ?thesis
      using Decode_cut_data [of "take (length p - 8) d" len cid] m len short False
      by (simp only:) (auto simp: clean_cut_def)
  qed
next
  case False
  from Bytes_fixed_length [OF False] pq obtain msg where "messageFrom num = Inr msg"
    and "length (Bytes m) = Suc (4 * field_count msg)"
    by auto
  with pq q show ?thesis
    using Decode_cut_fixed [of num msg p] False
    by (cases q) (auto simp: clean_cut_def split: Message.splits)
qed

lemma Encode_all_buf:
  "wr_fail w = None \<Longrightarrow> wr_buf (Encode_all ms w) = wr_buf w @ concat (map Bytes ms)"
  by (induction ms arbitrary: w) (simp_all add: Encode_def go_simps)

section \<open>Properties\<close>

text \<open>
  C20: \<^verbatim>\<open>Decode\<close> accepts nothing but frames: if it returns a message then the bytes it consumed are
  exactly the message's \<^verbatim>\<open>Bytes()\<close>, the message states the length of its data, and the rest of the
  stream is untouched.
\<close>

theorem Decode_accepts_only_frames:
  assumes "Decode r = RdOk m r'"
  shows "rd_buf r = Bytes m @ rd_buf r' \<and> rd_end r' = rd_end r \<and> frame_ok m"
  by (rule Decode_RdOkD [OF assms])

theorem Decode_accepts_only_frames_witness:
  "Decode \<lparr>rd_buf = [105, 0, 0, 1, 2, 77], rd_end = None\<rparr>
     = RdOk (EOFMessage 258) \<lparr>rd_buf = [77], rd_end = None\<rparr>
   \<and> [105, 0, 0, 1, 2, 77] = Bytes (EOFMessage 258) @ [77]"
proof -
  have d: "Decode \<lparr>rd_buf = [105, 0, 0, 1, 2, 77], rd_end = None\<rparr>
     = RdOk (EOFMessage 258) \<lparr>rd_buf = [77], rd_end = None\<rparr>"
    by code_simp
  from Decode_accepts_only_frames [OF d] d show ?thesis by simp
qed

text \<open>
  C18: the frames of any sequence of messages, encoded one after the other through \<^verbatim>\<open>Encode\<close> onto a
  transport that does not fail, are decoded as the same sequence of messages, whatever follows.
\<close>

theorem message_stream_roundtrip:
  assumes "list_all frame_ok ms" and "w = \<lparr>wr_buf = [], wr_fail = None\<rparr>"
  shows "read_many Decode (length ms) \<lparr>rd_buf = wr_buf (Encode_all ms w) @ rest, rd_end = e\<rparr>
       = RdOk ms \<lparr>rd_buf = rest, rd_end = e\<rparr>"
  using qmux.read_many_enc [OF assms(1)] assms(2) by (simp add: Encode_all_buf)

theorem message_stream_roundtrip_witness:
  "read_many Decode 2 \<lparr>rd_buf = wr_buf (Encode_all [OpenMessage 1 2 3, DataMessage 4 1 [5]]
       \<lparr>wr_buf = [], wr_fail = None\<rparr>) @ [6], rd_end = None\<rparr>
   = RdOk [OpenMessage 1 2 3, DataMessage 4 1 [5]] \<lparr>rd_buf = [6], rd_end = None\<rparr>"
  using message_stream_roundtrip [of "[OpenMessage 1 2 3, DataMessage 4 1 [5]]" _ "[6]" None]
  by (simp add: frame_ok_def eval_nat_numeral)

text \<open>
  A frame cut short never decodes to a message. While the stream is open the decoder waits;
  when it has ended, the error is \<^verbatim>\<open>io.ErrUnexpectedEOF\<close>, except that a cut right after the type
  byte, or right after the nine header bytes of a data message, is reported as \<^verbatim>\<open>io.EOF\<close>, just
  as a clean end of the session is.
\<close>

theorem Decode_truncated:
  assumes "frame_ok m" and "Bytes m = p @ q" and "q \<noteq> []"
  shows "Decode \<lparr>rd_buf = p, rd_end = None\<rparr> = RdBlock
    \<and> Decode \<lparr>rd_buf = p, rd_end = Some EOF\<rparr>
      = RdErr (if clean_cut m (length p) then EOF else ErrUnexpectedEOF)
              \<lparr>rd_buf = [], rd_end = Some EOF\<rparr>"
proof (cases p)
  case Nil
  with qmux.dec_partial [OF assms] show ?thesis by (simp add: Decode_def ReadFull_eof clean_cut_def)
next
  case (Cons num p')
  with qmux.dec_partial [OF assms] Decode_truncated_aux [OF assms(1), of num p' q] assms(2,3)
  show ?thesis by simp
qed

theorem Decode_truncated_witness:
  "Decode \<lparr>rd_buf = [msgChannelEOF], rd_end = Some EOF\<rparr>
     = RdErr EOF \<lparr>rd_buf = [], rd_end = Some EOF\<rparr>"
  using Decode_truncated [of "EOFMessage 5" "[msgChannelEOF]" "put_u32 5"]
  by (simp add: frame_ok_def bytes_defs put_u32_def clean_cut_def)

text \<open>
  A stream whose next byte is none of the seven message numbers makes \<^verbatim>\<open>Decode\<close> return the error
  naming that number, with only the byte consumed; and a connection reset seen before a frame starts
  is turned into \<^verbatim>\<open>io.EOF\<close>, also when the transport wraps the system call error.
\<close>

theorem Decode_errors:
  assumes "num \<notin> {100..106}"
  shows "Decode \<lparr>rd_buf = num # rest, rd_end = e\<rparr>
      = RdErr (ErrorString (''qtalk: unexpected message type '' @ show_word num))
              \<lparr>rd_buf = rest, rd_end = e\<rparr>
    \<and> Decode \<lparr>rd_buf = [], rd_end = Some (Wrapped ''read tcp'' (SyscallError ''read'' ECONNRESET))\<rparr>
      = RdErr EOF \<lparr>rd_buf = [], rd_end = Some (Wrapped ''read tcp'' (SyscallError ''read'' ECONNRESET))\<rparr>"
proof -
  have "num \<noteq> msgChannelOpen" "num \<noteq> msgChannelData" "num \<noteq> msgChannelOpenConfirm"
    "num \<noteq> msgChannelOpenFailure" "num \<noteq> msgChannelWindowAdjust" "num \<noteq> msgChannelEOF"
    "num \<noteq> msgChannelClose"
    using assms by (auto simp: msg_num_defs)
  then show ?thesis by (simp add: Decode_def ReadFull_one messageFrom_def) (simp add: ReadFull_def)
qed

theorem Decode_errors_witness:
  "Decode \<lparr>rd_buf = [7, 1], rd_end = None\<rparr>
     = RdErr (ErrorString ''qtalk: unexpected message type 7'') \<lparr>rd_buf = [1], rd_end = None\<rparr>"
proof -
  have "show_word (7 :: u8) = ''7''" by code_simp
  with Decode_errors [of 7 "[1]" None] show ?thesis by simp
qed

end
