(* ===== verification/Mux_Buffer.thy ===== *)
theory Mux_Buffer
  imports Qtalk_Prelude
begin

text \<open>
  The receive buffer of a channel (\<^verbatim>\<open>src/mux/util_buffer.go\<close>; \<^verbatim>\<open>src/x/cbor/mux/buffer.go\<close> is the
  same code). The linked list is modelled as it is, elements in a store with \<^verbatim>\<open>next\<close> pointers and
  \<^verbatim>\<open>head\<close> and \<^verbatim>\<open>tail\<close> as addresses; an address is the number of the allocation. \<open>contents\<close> maps a
  buffer to the bytes that are still to be read, and the lemmas show that every operation is the
  operation on that byte queue, and that the loop of \<^verbatim>\<open>Read\<close> stops.

  \<^verbatim>\<open>Read\<close> may wait on the condition variable: the loop then stops with \<open>RWait\<close> and the buffer as
  it is at that moment (elements read to their end are already skipped), and goes on from there
  when it is woken. The second half models goroutines that read while others write: which of them
  are parked in \<^verbatim>\<open>Cond.Wait\<close>, and that \<^verbatim>\<open>Cond.Signal\<close> wakes at most one of them.
\<close>

section \<open>The linked list\<close>

record element =
  buf :: bytes
  nxt :: "nat option"

record buffer =
  store :: "nat \<Rightarrow> element option"
  alloc :: nat       \<comment> \<open>the address of the next element allocated\<close>
  head :: nat
  tail :: nat
  closed :: bool

definition newBuffer :: buffer where
  "newBuffer = \<lparr>store = (\<lambda>_. None)(0 := Some \<lparr>buf = [], nxt = None\<rparr>),
                alloc = 1, head = 0, tail = 0, closed = False\<rparr>"

definition set_next :: "nat \<Rightarrow> nat \<Rightarrow> (nat \<Rightarrow> element option) \<Rightarrow> (nat \<Rightarrow> element option)" where
  "set_next a e s = (case s a of None \<Rightarrow> s | Some el \<Rightarrow> s(a := Some (el\<lparr>nxt := Some e\<rparr>)))"

definition buffer_write :: "bytes \<Rightarrow> buffer \<Rightarrow> buffer" where
  "buffer_write d b =
     (let e = alloc b in
      b\<lparr>store := set_next (tail b) e ((store b)(e := Some \<lparr>buf = d, nxt = None\<rparr>)),
        alloc := Suc e, tail := e\<rparr>)"

definition buffer_eof :: "buffer \<Rightarrow> buffer" where
  "buffer_eof b = b\<lparr>closed := True\<rparr>"

text \<open>
  The result of running \<^verbatim>\<open>Read\<close> up to its return, to a wait, or to a nil dereference. \<open>RDone\<close>
  carries the bytes copied into the caller's slice (\<open>n\<close> is their number) and the error.
\<close>

datatype 'b read_result = RDone bytes "go_error option" 'b | RWait 'b | RPanic

partial_function (option) read_loop :: "nat \<Rightarrow> bytes \<Rightarrow> buffer \<Rightarrow> buffer read_result option" where
  "read_loop k acc b =
     (if k = 0 then Some (RDone acc None b)
      else (case store b (head b) of
        None \<Rightarrow> Some RPanic
      | Some e \<Rightarrow>
          if buf e \<noteq> [] then
            (let r = min k (length (buf e)) in
             read_loop (k - r) (acc @ take r (buf e))
               (b\<lparr>store := (store b)(head b := Some (e\<lparr>buf := drop r (buf e)\<rparr>))\<rparr>))
          else if head b \<noteq> tail b then
            (case nxt e of
               None \<Rightarrow> Some RPanic
             | Some a \<Rightarrow> read_loop k acc (b\<lparr>head := a\<rparr>))
          else if acc \<noteq> [] then Some (RDone acc None b)
          else if closed b then Some (RDone acc (Some EOF) b)
          else Some (RWait b)))"

definition buffer_Read :: "nat \<Rightarrow> buffer \<Rightarrow> buffer read_result option" where
  "buffer_Read k b = read_loop k [] b"

section \<open>The byte queue it implements\<close>

definition elem_buf :: "buffer \<Rightarrow> nat \<Rightarrow> bytes" where
  "elem_buf b a = (case store b a of None \<Rightarrow> [] | Some e \<Rightarrow> buf e)"

definition contents :: "buffer \<Rightarrow> bytes" where
  "contents b = concat (map (elem_buf b) [head b..<Suc (tail b)])"

text \<open>
  The representation invariant: the elements from head to tail are consecutive allocations, each
  linked to the one after it, and the tail is the last allocation and links nowhere.
\<close>

definition buffer_inv :: "buffer \<Rightarrow> bool" where
  "buffer_inv b \<longleftrightarrow>
     head b \<le> tail b \<and> alloc b = Suc (tail b) \<and>
     (\<forall>a \<in> {head b..<tail b}. \<exists>d. store b a = Some \<lparr>buf = d, nxt = Some (Suc a)\<rparr>) \<and>
     (\<exists>d. store b (tail b) = Some \<lparr>buf = d, nxt = None\<rparr>)"

text \<open>What \<^verbatim>\<open>Read\<close> does on the queue.\<close>

datatype queue_read = QDone bytes "go_error option" bytes | QWait

definition queue_Read :: "nat \<Rightarrow> bytes \<Rightarrow> bool \<Rightarrow> queue_read" where
  "queue_Read k q cl =
     (if k = 0 then QDone [] None q
      else if q \<noteq> [] then QDone (take k q) None (drop k q)
      else if cl then QDone [] (Some EOF) [] else QWait)"

text \<open>
  Sequences of operations on a buffer: the bytes that the reads return, in order, and the buffer
  after them. A read that waits returns nothing.
\<close>

datatype qop = QWrite bytes | QEof | QRead nat

primrec drive :: "(bytes \<Rightarrow> 'b \<Rightarrow> 'b) \<Rightarrow> ('b \<Rightarrow> 'b) \<Rightarrow> (nat \<Rightarrow> 'b \<Rightarrow> 'b read_result option)
    \<Rightarrow> qop list \<Rightarrow> 'b \<Rightarrow> (bytes \<times> 'b) option" where
  "drive wr ef rd [] b = Some ([], b)"
| "drive wr ef rd (x # xs) b =
     (case x of
        QWrite d \<Rightarrow> drive wr ef rd xs (wr d b)
      | QEof \<Rightarrow> drive wr ef rd xs (ef b)
      | QRead k \<Rightarrow>
          (case rd k b of
             Some (RDone d e b') \<Rightarrow> map_option (\<lambda>(out, b''). (d @ out, b'')) (drive wr ef rd xs b')
           | Some (RWait b') \<Rightarrow> drive wr ef rd xs b'
           | _ \<Rightarrow> None))"

primrec written :: "qop list \<Rightarrow> bytes" where
  "written [] = []"
| "written (x # xs) = (case x of QWrite d \<Rightarrow> d | _ \<Rightarrow> []) @ written xs"

section \<open>Goroutines waiting on the condition variable\<close>

text \<open>
  The state of each goroutine that calls \<^verbatim>\<open>Read\<close> with a slice of length \<open>k\<close>: not reading, parked in
  \<^verbatim>\<open>Cond.Wait\<close>, or woken and about to run the loop again once it gets the lock. \<^verbatim>\<open>Cond.Signal\<close>
  wakes one parked goroutine, if there is one. \<open>log\<close> records the reads that returned.
\<close>

datatype rstate = Idle | Parked nat | Woken nat

record rsys =
  rbuf :: buffer
  thr :: "nat \<Rightarrow> rstate"
  log :: "(nat \<times> bytes \<times> go_error option) list"

definition rsys_init :: rsys where
  "rsys_init = \<lparr>rbuf = newBuffer, thr = (\<lambda>_. Idle), log = []\<rparr>"

definition parked :: "rsys \<Rightarrow> nat \<Rightarrow> bool" where
  "parked s t = (case thr s t of Parked _ \<Rightarrow> True | _ \<Rightarrow> False)"

inductive signal :: "rsys \<Rightarrow> rsys \<Rightarrow> bool" where
  wake: "thr s t = Parked k \<Longrightarrow> signal s (s\<lparr>thr := (thr s)(t := Woken k)\<rparr>)"
| nobody: "(\<And>t. \<not> parked s t) \<Longrightarrow> signal s s"

inductive rstep :: "nat set \<Rightarrow> rsys \<Rightarrow> rsys \<Rightarrow> bool" for R where
  read_done: "t \<in> R \<Longrightarrow> thr s t \<in> {Idle, Woken k} \<Longrightarrow> buffer_Read k (rbuf s) = Some (RDone d e b)
    \<Longrightarrow> rstep R s (s\<lparr>rbuf := b, thr := (thr s)(t := Idle), log := log s @ [(t, d, e)]\<rparr>)"
| read_wait: "t \<in> R \<Longrightarrow> thr s t \<in> {Idle, Woken k} \<Longrightarrow> buffer_Read k (rbuf s) = Some (RWait b)
    \<Longrightarrow> rstep R s (s\<lparr>rbuf := b, thr := (thr s)(t := Parked k)\<rparr>)"
| buf_write: "signal (s\<lparr>rbuf := buffer_write d (rbuf s)\<rparr>) s' \<Longrightarrow> rstep R s s'"
| buf_eof: "signal (s\<lparr>rbuf := buffer_eof (rbuf s)\<rparr>) s' \<Longrightarrow> rstep R s s'"

inductive rreach :: "nat set \<Rightarrow> rsys \<Rightarrow> bool" for R where
  rinit: "rreach R rsys_init"
| rnext: "rreach R s \<Longrightarrow> rstep R s s' \<Longrightarrow> rreach R s'"

section \<open>Correctness of the operations\<close>

lemma buffer_inv_new [simp]: "buffer_inv newBuffer"
  by (simp add: buffer_inv_def newBuffer_def)

lemma contents_new [simp]: "contents newBuffer = []"
  by (simp add: contents_def newBuffer_def elem_buf_def)

lemma closed_new [simp]: "\<not> closed newBuffer"
  by (simp add: newBuffer_def)

lemma contents_cong:
  assumes "head b' = head b" and "tail b' = tail b"
    and "\<And>a. a \<in> {head b..tail b} \<Longrightarrow> elem_buf b' a = elem_buf b a"
  shows "contents b' = contents b"
  unfolding contents_def assms(1,2) using assms(3) by (intro arg_cong [of _ _ concat] map_cong) auto

lemma buffer_eof_simps [simp]:
  "buffer_inv (buffer_eof b) = buffer_inv b" "contents (buffer_eof b) = contents b"
  "closed (buffer_eof b)"
  by (auto simp: buffer_eof_def buffer_inv_def elem_buf_def intro!: contents_cong)

lemma closed_write [simp]: "closed (buffer_write d b) = closed b"
  by (simp add: buffer_write_def Let_def)

lemma buffer_inv_write:
  assumes "buffer_inv b"
  shows "buffer_inv (buffer_write d b)"
  using assms by (auto simp: buffer_inv_def buffer_write_def set_next_def Let_def)

lemma contents_write:
  assumes "buffer_inv b"
  shows "contents (buffer_write d b) = contents b @ d"
proof -
  let ?b = "buffer_write d b"
  from assms have t: "tail ?b = Suc (tail b)" "head ?b = head b" "head b \<le> tail b"
    by (auto simp: buffer_inv_def buffer_write_def Let_def)
  have "elem_buf ?b a = elem_buf b a" if "a \<in> set [head b..<Suc (tail b)]" for a
    using assms that
    by (auto simp: buffer_inv_def buffer_write_def set_next_def Let_def elem_buf_def)
  then have "map (elem_buf ?b) [head b..<Suc (tail b)] = map (elem_buf b) [head b..<Suc (tail b)]"
    by (rule map_cong [OF refl])
  then have "concat (map (elem_buf ?b) [head b..<Suc (tail b)]) = contents b"
    by (simp only: contents_def)
  moreover have "elem_buf ?b (Suc (tail b)) = d"
    using assms by (auto simp: buffer_inv_def buffer_write_def set_next_def Let_def elem_buf_def)
  ultimately show ?thesis
    using t by (simp only: contents_def [of ?b] upt_Suc_append map_append concat_append) simp
qed

lemma contents_head:
  assumes "buffer_inv b"
  shows "contents b = elem_buf b (head b) @ concat (map (elem_buf b) [Suc (head b)..<Suc (tail b)])"
proof -
  from assms have "[head b..<Suc (tail b)] = head b # [Suc (head b)..<Suc (tail b)]"
    by (simp add: buffer_inv_def upt_conv_Cons)
  then show ?thesis unfolding contents_def by simp
qed

lemma head_element:
  assumes "buffer_inv b"
  obtains d where "store b (head b)
    = Some \<lparr>buf = d, nxt = (if head b = tail b then None else Some (Suc (head b)))\<rparr>"
proof (cases "head b = tail b")
  case True
  with assms that show ?thesis by (auto simp: buffer_inv_def)
next
  case False
  with assms have "head b \<in> {head b..<tail b}" by (simp add: buffer_inv_def)
  with assms obtain d where "store b (head b) = Some \<lparr>buf = d, nxt = Some (Suc (head b))\<rparr>"
    unfolding buffer_inv_def by blast
  with that False show ?thesis by simp
qed

text \<open>The two kinds of iteration: taking bytes from the head, and moving the head on.\<close>

lemma take_head:
  assumes inv: "buffer_inv b" and e: "store b (head b) = Some e" and r: "r \<le> length (buf e)"
  defines "b' \<equiv> b\<lparr>store := (store b)(head b := Some (e\<lparr>buf := drop r (buf e)\<rparr>))\<rparr>"
  shows "buffer_inv b'" and "contents b' = drop r (contents b)"
    and "take r (buf e) = take r (contents b)"
proof -
  from inv e have "nxt e = (if head b = tail b then None else Some (Suc (head b)))"
    by (elim head_element) auto
  then show inv': "buffer_inv b'"
    using inv e unfolding b'_def buffer_inv_def by (cases e) auto
  have "map (elem_buf b') [Suc (head b)..<Suc (tail b)] = map (elem_buf b) [Suc (head b)..<Suc (tail b)]"
    by (rule map_cong) (auto simp: b'_def elem_buf_def)
  moreover have "elem_buf b' (head b) = drop r (buf e)" "head b' = head b" "tail b' = tail b"
    by (simp_all add: b'_def elem_buf_def)
  ultimately have "contents b' = drop r (buf e) @ concat (map (elem_buf b) [Suc (head b)..<Suc (tail b)])"
    using contents_head [OF inv'] by (simp only:)
  moreover have c: "contents b = buf e @ concat (map (elem_buf b) [Suc (head b)..<Suc (tail b)])"
    using contents_head [OF inv] e by (simp add: elem_buf_def)
  ultimately show "contents b' = drop r (contents b)" using r by simp
  show "take r (buf e) = take r (contents b)" using c r by simp
qed

lemma advance_head:
  assumes inv: "buffer_inv b" and e: "store b (head b) = Some e" and "buf e = []" "head b \<noteq> tail b"
  shows "nxt e = Some (Suc (head b))" and "buffer_inv (b\<lparr>head := Suc (head b)\<rparr>)"
    and "contents (b\<lparr>head := Suc (head b)\<rparr>) = contents b"
proof -
  from inv assms(4) have lt: "head b < tail b" by (simp add: buffer_inv_def)
  from inv e assms(4) show "nxt e = Some (Suc (head b))" by (elim head_element) auto
  from inv lt show "buffer_inv (b\<lparr>head := Suc (head b)\<rparr>)" by (simp add: buffer_inv_def)
  have "contents b = concat (map (elem_buf b) [Suc (head b)..<Suc (tail b)])"
    using contents_head [OF inv] e assms(3) by (simp add: elem_buf_def)
  also have "\<dots> = contents (b\<lparr>head := Suc (head b)\<rparr>)"
    unfolding contents_def by (intro arg_cong [of _ _ concat] map_cong) (auto simp: elem_buf_def)
  finally show "contents (b\<lparr>head := Suc (head b)\<rparr>) = contents b" by simp
qed

lemma empty_at_tail:
  assumes "buffer_inv b" and "store b (head b) = Some e" and "buf e = []" "head b = tail b"
  shows "contents b = []"
  using assms contents_head [of b] by (simp add: elem_buf_def)

lemma read_loop_returns:
  assumes "buffer_inv b"
  shows "\<exists>b'. buffer_inv b' \<and> closed b' = closed b \<and> contents b' = drop k (contents b)
    \<and> read_loop k acc b =
        Some (if k = 0 \<or> contents b \<noteq> [] \<or> acc \<noteq> [] then RDone (acc @ take k (contents b)) None b'
              else if closed b then RDone [] (Some EOF) b' else RWait b')"
  using assms
proof (induction "k + (tail b - head b)" arbitrary: k acc b rule: less_induct)
  case less
  from less.prems obtain e where e: "store b (head b) = Some e" by (elim head_element)
  consider "k = 0" | (take) "k > 0" "buf e \<noteq> []" | (adv) "k > 0" "buf e = []" "head b \<noteq> tail b"
    | (stop) "k > 0" "buf e = []" "head b = tail b" by auto
  then show ?case
  proof cases
    case 1
    with less.prems show ?thesis by (subst read_loop.simps) auto
  next
    case take
    define r where "r = min k (length (buf e))"
    define b1 where "b1 = b\<lparr>store := (store b)(head b := Some (e\<lparr>buf := drop r (buf e)\<rparr>))\<rparr>"
    have r: "r \<le> length (buf e)" "0 < r" "r \<le> k" using take by (auto simp: r_def)
    note th = take_head [OF less.prems e r(1), folded b1_def]
    have "k - r + (tail b1 - head b1) < k + (tail b - head b)" using r by (simp add: b1_def)
    from less.hyps [OF this th(1), of "acc @ take r (buf e)"] obtain b' where
      b': "buffer_inv b'" "closed b' = closed b1" "contents b' = drop (k - r) (contents b1)"
      and rd: "read_loop (k - r) (acc @ take r (buf e)) b1
        = Some (RDone ((acc @ take r (buf e)) @ take (k - r) (contents b1)) None b')"
      using r take by auto
    have "read_loop k acc b = read_loop (k - r) (acc @ take r (buf e)) b1"
      using take e by (subst read_loop.simps) (simp add: r_def b1_def Let_def)
    moreover have "take r (contents b) @ take (k - r) (drop r (contents b)) = take k (contents b)"
      using r take_add [of r "k - r" "contents b"] by simp
    moreover have "contents b \<noteq> []" using th(3) r take by (cases "contents b") auto
    ultimately show ?thesis
      using b' rd th r by (intro exI [of _ b']) (simp add: b1_def)
  next
    case adv
    note ah = advance_head [OF less.prems e adv(2,3)]
    have eq: "read_loop k acc b = read_loop k acc (b\<lparr>head := Suc (head b)\<rparr>)"
      using adv e ah(1) by (subst read_loop.simps) simp
    have lt: "k + (tail (b\<lparr>head := Suc (head b)\<rparr>) - head (b\<lparr>head := Suc (head b)\<rparr>))
      < k + (tail b - head b)"
      using less.prems adv(3) by (auto simp: buffer_inv_def)
    have cl: "closed (b\<lparr>head := Suc (head b)\<rparr>) = closed b" by simp
    from less.hyps [OF lt ah(2), of acc, unfolded ah(3) cl] show ?thesis unfolding eq .
  next
    case stop
    with less.prems e show ?thesis
      using empty_at_tail [OF less.prems e stop(2,3)] by (subst read_loop.simps) auto
  qed
qed

section \<open>The interface to the channels\<close>

text \<open>
  What a channel relies on: a queue of bytes between a producer and a consumer, with a closed
  flag. \<open>abs\<close> gives the bytes in it; \<open>inv\<close> is what every operation keeps.
\<close>

locale byte_queue =
  fixes new :: 'b
    and wr :: "bytes \<Rightarrow> 'b \<Rightarrow> 'b"
    and ef :: "'b \<Rightarrow> 'b"
    and rd :: "nat \<Rightarrow> 'b \<Rightarrow> 'b read_result option"
    and abs :: "'b \<Rightarrow> bytes"
    and cl :: "'b \<Rightarrow> bool"
    and inv :: "'b \<Rightarrow> bool"
  assumes new_queue: "inv new \<and> abs new = [] \<and> \<not> cl new"
    and wr_queue: "inv b \<Longrightarrow> inv (wr d b) \<and> abs (wr d b) = abs b @ d \<and> cl (wr d b) = cl b"
    and ef_queue: "inv b \<Longrightarrow> inv (ef b) \<and> abs (ef b) = abs b \<and> cl (ef b)"
    and rd_queue: "inv b \<Longrightarrow> \<exists>b'. inv b' \<and> cl b' = cl b \<and>
      (case queue_Read k (abs b) (cl b) of
         QDone d e q \<Rightarrow> rd k b = Some (RDone d e b') \<and> abs b' = q
       | QWait \<Rightarrow> rd k b = Some (RWait b') \<and> abs b' = [])"
begin

lemma rd_cases:
  assumes "inv b"
  obtains (zero) b' where "k = 0" "rd k b = Some (RDone [] None b')" "abs b' = abs b"
      "inv b'" "cl b' = cl b"
    | (data) b' where "k \<noteq> 0" "abs b \<noteq> []" "rd k b = Some (RDone (take k (abs b)) None b')"
      "abs b' = drop k (abs b)" "inv b'" "cl b' = cl b"
    | (eof) b' where "k \<noteq> 0" "abs b = []" "cl b" "rd k b = Some (RDone [] (Some EOF) b')"
      "abs b' = []" "inv b'" "cl b' = cl b"
    | (wait) b' where "k \<noteq> 0" "abs b = []" "\<not> cl b" "rd k b = Some (RWait b')"
      "abs b' = []" "inv b'" "cl b' = cl b"
proof -
  from rd_queue [OF assms, of k] obtain b' where b': "inv b'" "cl b' = cl b"
    "case queue_Read k (abs b) (cl b) of
       QDone d e q \<Rightarrow> rd k b = Some (RDone d e b') \<and> abs b' = q
     | QWait \<Rightarrow> rd k b = Some (RWait b') \<and> abs b' = []" by blast
  consider "k = 0" | "k \<noteq> 0" "abs b \<noteq> []" | "k \<noteq> 0" "abs b = []" "cl b"
    | "k \<noteq> 0" "abs b = []" "\<not> cl b" by blast
  then show ?thesis
    by cases (use b' in \<open>auto simp: queue_Read_def intro: zero data eof wait\<close>)
qed

lemma drive_fifo:
  assumes "inv b"
  shows "\<exists>out b'. drive wr ef rd xs b = Some (out, b') \<and> inv b' \<and> out @ abs b' = abs b @ written xs"
  using assms
proof (induction xs arbitrary: b)
  case (Cons x xs)
  show ?case
  proof (cases x)
    case (QWrite d)
    with Cons wr_queue [of b d] show ?thesis by fastforce
  next
    case QEof
    with Cons ef_queue [of b] show ?thesis by fastforce
  next
    case (QRead k)
    from \<open>inv b\<close> show ?thesis
    proof (cases rule: rd_cases [where k = k])
      case (data b')
      with Cons.IH [of b'] obtain out b'' where "drive wr ef rd xs b' = Some (out, b'')" "inv b''"
        "out @ abs b'' = drop k (abs b) @ written xs" by auto
      moreover from this have "(take k (abs b) @ out) @ abs b'' = abs b @ written xs"
        by (metis append.assoc append_take_drop_id)
      ultimately show ?thesis using data QRead by auto
    qed (use QRead Cons.IH in fastforce)+
  qed
qed simp

end

lemma buffer_Read_queue:
  assumes "buffer_inv b"
  shows "\<exists>b'. buffer_inv b' \<and> closed b' = closed b \<and>
      (case queue_Read k (contents b) (closed b) of
         QDone d e q \<Rightarrow> buffer_Read k b = Some (RDone d e b') \<and> contents b' = q
       | QWait \<Rightarrow> buffer_Read k b = Some (RWait b') \<and> contents b' = [])"
  using read_loop_returns [OF assms, of k "[]"] by (auto simp: buffer_Read_def queue_Read_def)

interpretation bq: byte_queue newBuffer buffer_write buffer_eof buffer_Read contents closed buffer_inv
  by unfold_locales (simp_all add: buffer_inv_write contents_write buffer_Read_queue)

section \<open>Waiting readers\<close>

definition one_reader_inv :: "nat \<Rightarrow> rsys \<Rightarrow> bool" where
  "one_reader_inv r s \<longleftrightarrow> buffer_inv (rbuf s) \<and> (\<forall>t. t \<noteq> r \<longrightarrow> thr s t = Idle) \<and>
     (parked s r \<longrightarrow> contents (rbuf s) = [] \<and> \<not> closed (rbuf s))"

lemma signal_one_reader:
  assumes "signal s s'" and "\<And>t. t \<noteq> r \<Longrightarrow> thr s t = Idle"
  shows "rbuf s' = rbuf s \<and> \<not> parked s' r \<and> (\<forall>t. t \<noteq> r \<longrightarrow> thr s' t = Idle)"
  using assms(1)
proof (cases rule: signal.cases)
  case (wake t k)
  with assms(2) have "t = r" by (cases "t = r") auto
  with wake assms(2) show ?thesis by (simp add: parked_def)
qed (use assms(2) in simp)

lemma one_reader_step:
  assumes "rstep {r} s s'" and "one_reader_inv r s"
  shows "one_reader_inv r s'"
  using assms
proof (cases rule: rstep.cases)
  case (read_done t k d e b)
  from assms(2) have "buffer_inv (rbuf s)" by (simp add: one_reader_inv_def)
  then show ?thesis
    by (cases rule: bq.rd_cases [where k = k])
       (use read_done assms(2) in \<open>auto simp: one_reader_inv_def parked_def\<close>)
next
  case (read_wait t k b)
  with assms(2) have "buffer_inv (rbuf s)" by (simp add: one_reader_inv_def)
  then show ?thesis
    by (cases rule: bq.rd_cases [where k = k])
       (use read_wait assms(2) in \<open>auto simp: one_reader_inv_def\<close>)
next
  case (buf_write d)
  with assms(2) show ?thesis
    using signal_one_reader [OF buf_write, of r] bq.wr_queue [of "rbuf s" d]
    by (simp add: one_reader_inv_def)
next
  case buf_eof
  with assms(2) show ?thesis
    using signal_one_reader [OF buf_eof, of r] by (simp add: one_reader_inv_def)
qed

lemma one_reader_reach: "rreach {r} s \<Longrightarrow> one_reader_inv r s"
proof (induction rule: rreach.induct)
  case rinit
  show ?case by (simp add: one_reader_inv_def rsys_init_def parked_def)
qed (rule one_reader_step)

section \<open>Properties\<close>

text \<open>
  C21: the linked-list buffer refines a queue of bytes. On every buffer that satisfies the
  representation invariant, the loop of \<^verbatim>\<open>Read\<close> returns: it takes the first \<open>k\<close> bytes if there are
  any, gives \<^verbatim>\<open>io.EOF\<close> only on a closed buffer with nothing left, waits only on an open buffer with
  nothing left, and never dereferences nil; the invariant is kept.
\<close>

theorem buffer_Read_refines_queue:
  assumes "buffer_inv b"
  shows "\<exists>b'. buffer_inv b' \<and> closed b' = closed b \<and>
      (case queue_Read k (contents b) (closed b) of
         QDone d e q \<Rightarrow> buffer_Read k b = Some (RDone d e b') \<and> contents b' = q
       | QWait \<Rightarrow> buffer_Read k b = Some (RWait b') \<and> contents b' = [])"
  by (rule bq.rd_queue [OF assms])

theorem buffer_Read_refines_queue_witness:
  "\<exists>b'. buffer_Read 2 (buffer_write [7, 8, 9] newBuffer) = Some (RDone [7, 8] None b')
     \<and> contents b' = [9]"
proof -
  have "buffer_inv (buffer_write [7, 8, 9] newBuffer)" by (simp add: bq.wr_queue)
  from buffer_Read_refines_queue [OF this, of 2] show ?thesis
    by (auto simp: bq.wr_queue queue_Read_def)
qed

text \<open>
  First in, first out, nothing lost and nothing made up: after any sequence of writes, reads and
  eofs on a new buffer, the bytes returned by the reads followed by the bytes still in the
  buffer are the bytes written, in order.
\<close>

theorem buffer_fifo:
  "\<exists>out b'. drive buffer_write buffer_eof buffer_Read ops newBuffer = Some (out, b')
     \<and> buffer_inv b' \<and> out @ contents b' = written ops"
  using bq.drive_fifo [of newBuffer ops] by simp

text \<open>
  No wake-up is lost with one reader: in every state that one reading goroutine and any writers
  can reach, the reader is parked only while the buffer is empty and open, so data and \<^verbatim>\<open>eof\<close> always
  reach it.
\<close>

theorem single_reader_not_stuck:
  assumes "rreach {r} s" and "parked s r"
  shows "contents (rbuf s) = [] \<and> \<not> closed (rbuf s)"
  using one_reader_reach [OF assms(1)] assms(2) by (simp add: one_reader_inv_def)

theorem single_reader_not_stuck_witness:
  "\<exists>s. rreach {0} s \<and> parked s 0 \<and> contents (rbuf s) = []"
proof -
  obtain b where b: "buffer_Read 4 newBuffer = Some (RWait b)"
    by (rule bq.rd_cases [of newBuffer 4]) auto
  let ?s = "rsys_init\<lparr>rbuf := b, thr := (thr rsys_init)(0 := Parked 4)\<rparr>"
  have "rstep {0} rsys_init ?s"
    by (rule rstep.read_wait) (simp_all add: rsys_init_def b)
  then have "rreach {0} ?s" by (rule rreach.rnext [OF rreach.rinit])
  moreover have "parked ?s 0" by (simp add: parked_def)
  ultimately show ?thesis using single_reader_not_stuck by blast
qed

text \<open>
  \<^verbatim>\<open>eof\<close> wakes one waiting reader only. With two goroutines blocked in \<^verbatim>\<open>Read\<close>, a state is
  reachable in which the buffer is closed, one of them has returned \<^verbatim>\<open>io.EOF\<close>, and the other is
  still parked with no goroutine left to wake it.
\<close>

theorem two_readers_eof_leaves_one_parked:
  "\<exists>s. rreach {0, 1} s \<and> closed (rbuf s) \<and> parked s 1 \<and> thr s 0 = Idle
     \<and> (\<forall>t k. thr s t \<noteq> Woken k) \<and> log s = [(0, [], Some EOF)]"
proof -
  obtain b1 where b1: "buffer_Read 1 newBuffer = Some (RWait b1)" "buffer_inv b1" "contents b1 = []"
    "\<not> closed b1"
    by (rule bq.rd_cases [of newBuffer 1]) auto
  obtain b2 where b2: "buffer_Read 1 b1 = Some (RWait b2)" "buffer_inv b2" "contents b2 = []"
    "\<not> closed b2"
    by (rule bq.rd_cases [OF b1(2), of 1]) (use b1 in auto)
  obtain b3 where b3: "buffer_Read 1 (buffer_eof b2) = Some (RDone [] (Some EOF) b3)" "closed b3"
    by (rule bq.rd_cases [of "buffer_eof b2" 1]) (use b2 in auto)
  define s1 where "s1 = rsys_init\<lparr>rbuf := b1, thr := (thr rsys_init)(0 := Parked 1)\<rparr>"
  define s2 where "s2 = s1\<lparr>rbuf := b2, thr := (thr s1)(1 := Parked 1)\<rparr>"
  define s3 where "s3 = s2\<lparr>rbuf := buffer_eof b2, thr := (thr s2)(0 := Woken 1)\<rparr>"
  define s4 where "s4 = s3\<lparr>rbuf := b3, thr := (thr s3)(0 := Idle), log := log s3 @ [(0, [], Some EOF)]\<rparr>"
  note ss = s1_def s2_def s3_def s4_def rsys_init_def
  have "rstep {0, 1} rsys_init s1"
    unfolding s1_def by (rule rstep.read_wait) (use b1 in \<open>simp_all add: rsys_init_def\<close>)
  moreover have "rstep {0, 1} s1 s2"
    unfolding s2_def by (rule rstep.read_wait) (use b2 in \<open>simp_all add: s1_def rsys_init_def\<close>)
  moreover have "signal (s2\<lparr>rbuf := buffer_eof (rbuf s2)\<rparr>) s3"
    using signal.wake [of "s2\<lparr>rbuf := buffer_eof (rbuf s2)\<rparr>" 0 1] by (simp add: ss)
  then have "rstep {0, 1} s2 s3" by (rule rstep.buf_eof)
  moreover have "rstep {0, 1} s3 s4"
    unfolding s4_def
    by (rule rstep.read_done [where k = 1]) (use b3 in \<open>simp_all add: s3_def\<close>)
  ultimately have "rreach {0, 1} s4" by (meson rreach.intros)
  with b3 show ?thesis by (intro exI [of _ s4]) (auto simp: ss parked_def split: if_splits)
qed

end
