(* ===== verification/Mux_Window.thy ===== *)
theory Mux_Window
  imports Qtalk_Prelude
begin

text \<open>
  The send window of a channel (\<^verbatim>\<open>src/mux/util_window.go\<close>): how many bytes the peer has allowed us to
  send. The counter is a 32-bit word, so the overflow test of \<^verbatim>\<open>add\<close> is the wrapped comparison of
  the source. \<^verbatim>\<open>reserve\<close> is cut where it waits: \<open>reserve_enter\<close> is the code up to the loop, and
  \<open>reserve_wake\<close> the code that runs each time the loop condition is evaluated, \<open>None\<close> while it
  has to go on waiting.

  The second half runs any number of writers, each in \<^verbatim>\<open>reserve\<close>, against \<^verbatim>\<open>add\<close> and \<^verbatim>\<open>close\<close>:
  what was added is exactly what was handed out plus what is left, and \<^verbatim>\<open>writeWaiters\<close> counts the
  writers inside \<^verbatim>\<open>reserve\<close>.
\<close>

section \<open>The window\<close>

record window =
  win :: u32
  writeWaiters :: int
  w_closed :: bool

definition window_new :: window where
  "window_new = \<lparr>win = 0, writeWaiters = 0, w_closed = False\<rparr>"

definition window_add :: "u32 \<Rightarrow> window \<Rightarrow> bool \<times> window" where
  "window_add n w =
     (if n = 0 then (True, w)
      else if win w + n < n then (False, w)
      else (True, w\<lparr>win := win w + n\<rparr>))"

definition window_close :: "window \<Rightarrow> window" where
  "window_close w = w\<lparr>w_closed := True\<rparr>"

definition reserve_enter :: "window \<Rightarrow> window" where
  "reserve_enter w = w\<lparr>writeWaiters := writeWaiters w + 1\<rparr>"

definition reserve_wake :: "u32 \<Rightarrow> window \<Rightarrow> (u32 \<times> go_error option \<times> window) option" where
  "reserve_wake n w =
     (if win w = 0 \<and> \<not> w_closed w then None
      else
        (let w1 = w\<lparr>writeWaiters := writeWaiters w - 1\<rparr>;
             n1 = (if win w1 < n then win w1 else n);
             w2 = w1\<lparr>win := win w1 - n1\<rparr>
         in Some (n1, if w_closed w2 then Some EOF else None, w2)))"

text \<open>A call of \<^verbatim>\<open>reserve\<close> that finds the condition false at once; \<open>None\<close> when it waits.\<close>

definition reserve :: "u32 \<Rightarrow> window \<Rightarrow> (u32 \<times> go_error option \<times> window) option" where
  "reserve n w = reserve_wake n (reserve_enter w)"

text \<open>\<^verbatim>\<open>waitWriterBlocked\<close>: \<open>None\<close> while it waits.\<close>

definition waitWriterBlocked :: "window \<Rightarrow> window option" where
  "waitWriterBlocked w = (if writeWaiters w = 0 then None else Some w)"

section \<open>Concurrent writers\<close>

text \<open>
  \<open>waiting\<close> holds the requests of the goroutines inside \<^verbatim>\<open>reserve\<close>; \<open>added\<close> and \<open>granted\<close> are the
  totals that \<^verbatim>\<open>add\<close> accepted and \<^verbatim>\<open>reserve\<close> returned. Every change of the window is followed by
  \<^verbatim>\<open>Broadcast\<close>, so each waiting goroutine may evaluate the loop condition at any later time.
\<close>

record wsys =
  ws :: window
  waiting :: "nat \<Rightarrow> u32 option"
  added :: nat
  granted :: nat

definition wsys_init :: wsys where
  "wsys_init = \<lparr>ws = window_new, waiting = (\<lambda>_. None), added = 0, granted = 0\<rparr>"

inductive wstep :: "wsys \<Rightarrow> wsys \<Rightarrow> bool" where
  add_ok: "window_add n (ws s) = (True, w) \<Longrightarrow> wstep s (s\<lparr>ws := w, added := added s + unat n\<rparr>)"
| add_overflow: "window_add n (ws s) = (False, w) \<Longrightarrow> wstep s (s\<lparr>ws := w\<rparr>)"
| close: "wstep s (s\<lparr>ws := window_close (ws s)\<rparr>)"
| enter: "waiting s t = None \<Longrightarrow>
    wstep s (s\<lparr>ws := reserve_enter (ws s), waiting := (waiting s)(t := Some n)\<rparr>)"
| leave: "waiting s t = Some n \<Longrightarrow> reserve_wake n (ws s) = Some (m, e, w) \<Longrightarrow>
    wstep s (s\<lparr>ws := w, waiting := (waiting s)(t := None), granted := granted s + unat m\<rparr>)"

inductive wreach :: "wsys \<Rightarrow> bool" where
  winit: "wreach wsys_init"
| wnext: "wreach s \<Longrightarrow> wstep s s' \<Longrightarrow> wreach s'"

section \<open>The interface to the channels\<close>

text \<open>
  What a channel relies on: a credit of bytes, bounded by what a 32-bit counter holds. \<open>add\<close> adds
  the whole amount or refuses, \<open>tk\<close> hands out at most what is asked for and at most what there is,
  and waits only when there is nothing and the window is open.
\<close>

locale send_credit =
  fixes level :: "'w \<Rightarrow> nat"
    and cl :: "'w \<Rightarrow> bool"
    and add :: "u32 \<Rightarrow> 'w \<Rightarrow> bool \<times> 'w"
    and tk :: "u32 \<Rightarrow> 'w \<Rightarrow> (u32 \<times> go_error option \<times> 'w) option"
    and shut :: "'w \<Rightarrow> 'w"
  assumes add_spec: "add n w = (b, w') \<Longrightarrow> cl w' = cl w \<and>
      (if level w + unat n < 2 ^ 32 then b \<and> level w' = level w + unat n
       else \<not> b \<and> level w' = level w)"
    and tk_Some: "tk n w = Some (m, e, w') \<Longrightarrow> unat m = min (unat n) (level w)
      \<and> level w' = level w - unat m \<and> cl w' = cl w \<and> e = (if cl w then Some EOF else None)"
    and tk_None: "tk n w = None \<longleftrightarrow> level w = 0 \<and> \<not> cl w"
    and shut_spec: "level (shut w) = level w \<and> cl (shut w)"
begin

lemma tk_conserves: "tk n w = Some (m, e, w') \<Longrightarrow> level w' + unat m = level w"
  using tk_Some [of n w m e w'] by simp

lemma tk_progress: "tk n w = Some (m, None, w') \<Longrightarrow> n \<noteq> 0 \<Longrightarrow> 0 < unat m"
  using tk_Some [of n w m None w'] tk_None [of n w]
  by (cases "level w = 0") (auto simp: unat_eq_zero split: if_splits)

lemma tk_shut: "\<exists>m w'. tk n (shut w) = Some (m, Some EOF, w')"
  using tk_None [of n "shut w"] tk_Some [of n "shut w"] shut_spec [of w]
  by (cases "tk n (shut w)") auto

lemma add_accepts: "level w + unat n < 2 ^ 32 \<Longrightarrow> \<exists>w'. add n w = (True, w') \<and> level w' = level w + unat n"
  using add_spec [of n w] by (cases "add n w") (auto split: if_splits)

end

lemma window_add_exact:
  assumes "window_add n w = (b, w')"
  shows "w_closed w' = w_closed w \<and> writeWaiters w' = writeWaiters w \<and>
    (if unat (win w) + unat n < 2 ^ 32 then b \<and> unat (win w') = unat (win w) + unat n
     else \<not> b \<and> w' = w)"
  using assms
  by (auto simp: window_add_def u32_add_wraps unat_add_u32 not_le split: if_splits)

lemma reserve_wake_Some:
  assumes "reserve_wake n w = Some (m, e, w')"
  shows "unat m = min (unat n) (unat (win w)) \<and> unat (win w') = unat (win w) - unat m
    \<and> w_closed w' = w_closed w \<and> writeWaiters w' = writeWaiters w - 1
    \<and> e = (if w_closed w then Some EOF else None)"
  using assms
  by (auto simp: reserve_wake_def Let_def word_less_nat_alt unat_sub word_le_nat_alt min_def
        split: if_splits)

lemma reserve_wake_None: "reserve_wake n w = None \<longleftrightarrow> unat (win w) = 0 \<and> \<not> w_closed w"
  by (simp add: reserve_wake_def Let_def unat_eq_zero)

lemma reserve_enter_simps [simp]:
  "win (reserve_enter w) = win w" "w_closed (reserve_enter w) = w_closed w"
  "writeWaiters (reserve_enter w) = writeWaiters w + 1"
  by (simp_all add: reserve_enter_def)

lemma reserve_Some:
  assumes "reserve n w = Some (m, e, w')"
  shows "writeWaiters w' = writeWaiters w"
  using reserve_wake_Some [OF assms [unfolded reserve_def]] by simp

interpretation sw: send_credit "\<lambda>w. unat (win w)" w_closed window_add reserve window_close
proof unfold_locales
  fix n m e w w' and b :: bool
  show "w_closed w' = w_closed w \<and>
      (if unat (win w) + unat n < 2 ^ 32 then b \<and> unat (win w') = unat (win w) + unat n
       else \<not> b \<and> unat (win w') = unat (win w))" if "window_add n w = (b, w')"
    using window_add_exact [OF that] by (auto split: if_splits)
  show "unat m = min (unat n) (unat (win w)) \<and> unat (win w') = unat (win w) - unat m
      \<and> w_closed w' = w_closed w \<and> e = (if w_closed w then Some EOF else None)"
    if "reserve n w = Some (m, e, w')"
    using reserve_wake_Some [OF that [unfolded reserve_def]] by simp
  show "reserve n w = None \<longleftrightarrow> unat (win w) = 0 \<and> \<not> w_closed w"
    by (simp add: reserve_def reserve_wake_None)
  show "unat (win (window_close w)) = unat (win w) \<and> w_closed (window_close w)"
    by (simp add: window_close_def)
qed

section \<open>The invariant of the concurrent system\<close>

definition wsys_inv :: "wsys \<Rightarrow> bool" where
  "wsys_inv s \<longleftrightarrow> granted s + unat (win (ws s)) = added s
     \<and> finite (dom (waiting s))
     \<and> writeWaiters (ws s) = int (card (dom (waiting s)))"

lemma wstep_inv:
  assumes "wstep s s'" and "wsys_inv s"
  shows "wsys_inv s'"
  using assms
proof (cases rule: wstep.cases)
  case (add_ok n w)
  with window_add_exact [OF add_ok(2)] assms(2) show ?thesis
    by (auto simp: wsys_inv_def split: if_splits)
next
  case (add_overflow n w)
  with window_add_exact [OF add_overflow(2)] assms(2) show ?thesis
    by (auto simp: wsys_inv_def split: if_splits)
next
  case close
  with assms(2) show ?thesis by (simp add: wsys_inv_def window_close_def)
next
  case (enter t n)
  then have "t \<notin> dom (waiting s)" by auto
  with enter assms(2) show ?thesis by (simp add: wsys_inv_def)
next
  case (leave t n m e w)
  from leave(2) have "t \<in> dom (waiting s)" by auto
  with assms(2) have "int (card (dom (waiting s) - {t})) = writeWaiters (ws s) - 1"
    using card.remove [of "dom (waiting s)" t] by (simp add: wsys_inv_def)
  with leave reserve_wake_Some [OF leave(3)] assms(2) show ?thesis
    by (simp add: wsys_inv_def)
qed

lemma wreach_inv: "wreach s \<Longrightarrow> wsys_inv s"
proof (induction rule: wreach.induct)
  case winit
  show ?case by (simp add: wsys_inv_def wsys_init_def window_new_def)
qed (rule wstep_inv)

text \<open>\<^verbatim>\<open>waitWriterBlocked\<close> waits as long as no goroutine is inside \<^verbatim>\<open>reserve\<close>, and returns when there is one.\<close>

lemma waitWriterBlocked_waits:
  assumes "wreach s"
  shows "waitWriterBlocked (ws s) = (if \<exists>t. waiting s t \<noteq> None then Some (ws s) else None)"
  using wreach_inv [OF assms] by (auto simp: waitWriterBlocked_def wsys_inv_def)

section \<open>Properties\<close>

text \<open>
  The credit is conserved under concurrency. In every state that any number of goroutines can
  reach by \<^verbatim>\<open>add\<close>, \<^verbatim>\<open>close\<close> and interleaved calls of \<^verbatim>\<open>reserve\<close>, the bytes granted plus the
  window are exactly the bytes added, so no byte of window is handed out twice or lost, and
  \<^verbatim>\<open>writeWaiters\<close> is the number of goroutines inside \<^verbatim>\<open>reserve\<close>.
\<close>

theorem window_credit_conserved:
  assumes "wreach s"
  shows "granted s + unat (win (ws s)) = added s
    \<and> writeWaiters (ws s) = int (card (dom (waiting s)))"
  using wreach_inv [OF assms] by (simp add: wsys_inv_def)

theorem window_credit_conserved_witness:
  "\<exists>s. wreach s \<and> granted s = 3 \<and> unat (win (ws s)) = 2 \<and> granted s + unat (win (ws s)) = added s"
proof -
  define s1 where "s1 = wsys_init\<lparr>ws := window_new\<lparr>win := 5\<rparr>, added := 5\<rparr>"
  define s2 where "s2 = s1\<lparr>ws := reserve_enter (ws s1), waiting := (waiting s1)(0 := Some 3)\<rparr>"
  define s3 where "s3 = s2\<lparr>ws := window_new\<lparr>win := 2\<rparr>, waiting := (waiting s2)(0 := None), granted := 3\<rparr>"
  have "wstep wsys_init s1"
    using wstep.add_ok [of 5 wsys_init "window_new\<lparr>win := 5\<rparr>"]
    by (simp add: s1_def wsys_init_def window_add_def window_new_def)
  moreover have "wstep s1 s2"
    unfolding s2_def by (rule wstep.enter) (simp add: s1_def wsys_init_def)
  moreover have "wstep s2 s3"
    using wstep.leave [of s2 0 3 3 None "window_new\<lparr>win := 2\<rparr>"]
    by (simp add: s3_def s2_def s1_def wsys_init_def window_new_def reserve_wake_def reserve_enter_def)
  ultimately have "wreach s3" by (meson wreach.intros)
  with window_credit_conserved [OF this] show ?thesis
    by (intro exI [of _ s3]) (simp add: s3_def s2_def s1_def window_new_def)
qed

end
