(* ===== verification/Mux_ChanList.thy ===== *)
theory Mux_ChanList
  imports Qtalk_Prelude
begin

text \<open>
  The channel table of a session (\<^verbatim>\<open>src/mux/util_chanlist.go\<close>): a slice indexed by local channel
  id, with nil in the free slots. The elements are pointers to channels; the model is the same for
  any type of element. Lengths are converted to 32 bits where the source converts them.
  The lemmas show that the slice is a map from ids to channels, that \<^verbatim>\<open>add\<close> gives the least free
  id, and that the table never mixes up two channels.
\<close>

section \<open>The table\<close>

type_synonym 'a chanList = "'a option list"

text \<open>The loop of \<^verbatim>\<open>add\<close>: the index of the first nil slot.\<close>

fun first_nil :: "'a chanList \<Rightarrow> nat option" where
  "first_nil [] = None"
| "first_nil (None # cs) = Some 0"
| "first_nil (Some c # cs) = map_option Suc (first_nil cs)"

definition chanList_add :: "'a \<Rightarrow> 'a chanList \<Rightarrow> u32 \<times> 'a chanList" where
  "chanList_add ch cs =
     (case first_nil cs of
        Some i \<Rightarrow> (of_nat i, cs[i := Some ch])
      | None \<Rightarrow> (let cs' = cs @ [Some ch] in (of_nat (length cs' - 1), cs')))"

definition chanList_getChan :: "u32 \<Rightarrow> 'a chanList \<Rightarrow> 'a option" where
  "chanList_getChan cid cs = (if cid < of_nat (length cs) then cs ! unat cid else None)"

definition chanList_remove :: "u32 \<Rightarrow> 'a chanList \<Rightarrow> 'a chanList" where
  "chanList_remove cid cs = (if cid < of_nat (length cs) then cs[unat cid := None] else cs)"

fun chanList_all :: "'a chanList \<Rightarrow> 'a list" where
  "chanList_all [] = []"
| "chanList_all (None # cs) = chanList_all cs"
| "chanList_all (Some c # cs) = c # chanList_all cs"

definition chanList_dropAll :: "'a chanList \<Rightarrow> 'a list \<times> 'a chanList" where
  "chanList_dropAll cs = (chanList_all cs, [])"

text \<open>The table has not reached the number of channels a 32-bit id can name.\<close>

definition has_room :: "'a chanList \<Rightarrow> bool" where
  "has_room cs \<longleftrightarrow> length cs < 4294967295"

section \<open>The interface to the session\<close>

text \<open>A finite map from ids to channels, with ids chosen by the table.\<close>

locale chan_table =
  fixes get :: "u32 \<Rightarrow> 't \<Rightarrow> 'a option"
    and add :: "'a \<Rightarrow> 't \<Rightarrow> u32 \<times> 't"
    and rem :: "u32 \<Rightarrow> 't \<Rightarrow> 't"
    and dropall :: "'t \<Rightarrow> 'a list \<times> 't"
    and room :: "'t \<Rightarrow> bool"
  assumes get_add: "room t \<Longrightarrow> add x t = (i, t') \<Longrightarrow>
      get i t = None \<and> (\<forall>j. get j t' = (if j = i then Some x else get j t))"
    and get_rem: "room t \<Longrightarrow> get j (rem i t) = (if j = i then None else get j t)"
    and room_rem: "room t \<Longrightarrow> room (rem i t)"
    and get_drop: "get j (snd (dropall t)) = None"
    and room_drop: "room (snd (dropall t))"
    and set_drop: "room t \<Longrightarrow> set (fst (dropall t)) = {x. \<exists>i. get i t = Some x}"
    and distinct_drop: "room t \<Longrightarrow> (\<And>i j x. get i t = Some x \<Longrightarrow> get j t = Some x \<Longrightarrow> i = j)
      \<Longrightarrow> distinct (fst (dropall t))"
begin

lemma add_then_get:
  assumes "room t" and "add x t = (i, t')"
  shows "get i t' = Some x"
  using get_add [OF assms] by simp

lemma add_keeps_others:
  assumes "room t" and "add x t = (i, t')" and "get j t = Some y"
  shows "get j t' = Some y \<and> j \<noteq> i"
  using get_add [OF assms(1,2)] assms(3) by auto

lemma rem_add:
  assumes "room t" and "add x t = (i, t')" and "room t'"
  shows "get j (rem i t') = get j t"
  using get_add [OF assms(1,2)] by (simp add: get_rem [OF assms(3)])

end

text \<open>A table that hands out the least free id.\<close>

locale least_table = chan_table +
  assumes add_least: "room t \<Longrightarrow> add x t = (i, t') \<Longrightarrow> j < i \<Longrightarrow> get j t \<noteq> None"

text \<open>
  What a session makes of such a table: it holds references to channel objects, and a channel
  knows its id (\<open>idof\<close>) and whether it has been torn down (\<open>torn\<close>). The table is consistent
  with the objects when every id in it names an object that has this id and is not torn down.
\<close>

locale registry = chan_table get add rem dropall room
  for get :: "u32 \<Rightarrow> 't \<Rightarrow> nat option" and add rem dropall room +
  fixes idof :: "'c \<Rightarrow> u32"
    and torn :: "'c \<Rightarrow> bool"
begin

definition consistent :: "'t \<Rightarrow> (nat \<Rightarrow> 'c option) \<Rightarrow> nat \<Rightarrow> bool" where
  "consistent t hp nx \<longleftrightarrow> room t \<and> (\<forall>r. hp r = None \<longleftrightarrow> nx \<le> r)
     \<and> (\<forall>i r. get i t = Some r \<longrightarrow> (\<exists>c. hp r = Some c \<and> idof c = i \<and> \<not> torn c))"

lemma consistentD:
  assumes "consistent t hp nx"
  shows "room t" and "hp r = None \<longleftrightarrow> nx \<le> r"
    and "get i t = Some r \<Longrightarrow> \<exists>c. hp r = Some c \<and> idof c = i \<and> \<not> torn c"
  using assms by (simp_all add: consistent_def)

lemma consistent_inj:
  assumes "consistent t hp nx" and "get i t = Some r" and "get j t = Some r"
  shows "i = j"
  using consistentD(3) [OF assms(1,2)] consistentD(3) [OF assms(1,3)] by auto

lemma consistent_put:
  assumes "consistent t hp nx" and "hp r = Some c" and "idof c' = idof c" and "torn c' = torn c"
  shows "consistent t (hp(r \<mapsto> c')) nx"
proof -
  note D = consistentD [OF assms(1)]
  have "(hp(r \<mapsto> c')) r' = None \<longleftrightarrow> nx \<le> r'" for r' using D(2) [of r'] assms(2) by auto
  moreover have "\<exists>d. (hp(r \<mapsto> c')) r' = Some d \<and> idof d = i \<and> \<not> torn d" if "get i t = Some r'" for i r'
    using D(3) [OF that] assms(2-4) by auto
  ultimately show ?thesis using D(1) unfolding consistent_def by blast
qed

lemma consistent_rem:
  assumes "consistent t hp nx" and "hp r = Some c" and "idof c' = idof c"
  shows "consistent (rem (idof c) t) (hp(r \<mapsto> c')) nx"
proof -
  note D = consistentD [OF assms(1)]
  have "(hp(r \<mapsto> c')) r' = None \<longleftrightarrow> nx \<le> r'" for r' using D(2) [of r'] assms(2) by auto
  moreover have "\<exists>d. (hp(r \<mapsto> c')) r' = Some d \<and> idof d = i \<and> \<not> torn d" if "get i (rem (idof c) t) = Some r'" for i r'
    using D(3) [of i r'] that assms(2) get_rem [OF D(1)] by (auto split: if_splits)
  ultimately show ?thesis using room_rem [OF D(1)] unfolding consistent_def by blast
qed

lemma consistent_untabled:
  assumes "consistent t hp nx" and "hp r = Some c" and "\<And>i. get i t \<noteq> Some r"
  shows "consistent t (hp(r \<mapsto> c')) nx"
proof -
  note D = consistentD [OF assms(1)]
  have "(hp(r \<mapsto> c')) r' = None \<longleftrightarrow> nx \<le> r'" for r' using D(2) [of r'] assms(2) by auto
  moreover have "\<exists>d. (hp(r \<mapsto> c')) r' = Some d \<and> idof d = i \<and> \<not> torn d" if "get i t = Some r'" for i r'
    using D(3) [OF that] that assms(3) by auto
  ultimately show ?thesis using D(1) unfolding consistent_def by blast
qed

lemma consistent_new:
  assumes "consistent t hp nx" and "add nx t = (i, t')" and "room t'" and "idof c = i" and "\<not> torn c"
  shows "consistent t' (hp(nx \<mapsto> c)) (Suc nx)"
proof -
  note D = consistentD [OF assms(1)]
  have "(hp(nx \<mapsto> c)) r = None \<longleftrightarrow> Suc nx \<le> r" for r using D(2) [of r] by auto
  moreover have "\<exists>d. (hp(nx \<mapsto> c)) r = Some d \<and> idof d = j \<and> \<not> torn d" if "get j t' = Some r" for j r
    using get_add [OF D(1) assms(2)] D(2) [of nx] D(3) [of j r] that assms(4,5) by (auto split: if_splits)
  ultimately show ?thesis using assms(3) unfolding consistent_def by blast
qed

lemma consistent_drop:
  assumes "consistent t hp nx"
  shows "consistent (snd (dropall t)) hp nx \<and> distinct (fst (dropall t))
    \<and> (\<forall>r \<in> set (fst (dropall t)). \<exists>c. hp r = Some c \<and> \<not> torn c)"
proof -
  note D = consistentD [OF assms]
  have "consistent (snd (dropall t)) hp nx" using D(2) by (simp add: consistent_def room_drop get_drop)
  moreover have "distinct (fst (dropall t))"
    by (rule distinct_drop [OF D(1)]) (rule consistent_inj [OF assms])
  moreover have "\<exists>c. hp r = Some c \<and> \<not> torn c" if "r \<in> set (fst (dropall t))" for r
    using that set_drop [OF D(1)] D(3) [of _ r] by auto
  ultimately show ?thesis by blast
qed

end

section \<open>The slice implements it\<close>

lemma first_nil_Some:
  "first_nil cs = Some i \<Longrightarrow> i < length cs \<and> cs ! i = None \<and> (\<forall>j < i. cs ! j \<noteq> None)"
proof (induction cs arbitrary: i rule: first_nil.induct)
  case (3 c cs)
  then obtain i' where i': "first_nil cs = Some i'" "i = Suc i'" by auto
  from 3(1) [OF i'(1)] i'(2) show ?case by (auto simp: nth_Cons split: nat.splits)
qed auto

lemma first_nil_None: "first_nil cs = None \<Longrightarrow> j < length cs \<Longrightarrow> cs ! j \<noteq> None"
  by (induction cs arbitrary: j rule: first_nil.induct) (auto simp: nth_Cons split: nat.splits)

lemma id_less_length:
  "length cs < 4294967296 \<Longrightarrow> cid < of_nat (length cs) \<longleftrightarrow> unat cid < length cs" for cid :: u32
  by (simp add: word_less_nat_alt unat_of_nat_u32)

lemma getChan_nth:
  assumes "length cs < 4294967296"
  shows "chanList_getChan cid cs = (if unat cid < length cs then cs ! unat cid else None)"
  using assms by (simp add: chanList_getChan_def id_less_length)

lemma getChan_of_nat:
  "length cs < 4294967296 \<Longrightarrow> i < length cs \<Longrightarrow> chanList_getChan (of_nat i) cs = cs ! i"
  by (simp add: getChan_nth unat_of_nat_u32)

lemma chanList_add_cases:
  assumes "has_room cs" and "chanList_add x cs = (i, cs')"
  obtains (reuse) "unat i < length cs" "cs ! unat i = None" "\<forall>j < unat i. cs ! j \<noteq> None"
      "cs' = cs[unat i := Some x]"
    | (grow) "unat i = length cs" "\<forall>j < length cs. cs ! j \<noteq> None" "cs' = cs @ [Some x]"
proof (cases "first_nil cs")
  case None
  have "unat i = length cs" "cs' = cs @ [Some x]"
    using assms None by (auto simp: chanList_add_def has_room_def unat_of_nat_u32)
  with None grow show ?thesis using first_nil_None by blast
next
  case (Some k)
  have "unat i = k" "cs' = cs[unat i := Some x]"
    using assms Some first_nil_Some [OF Some]
    by (auto simp: chanList_add_def has_room_def unat_of_nat_u32)
  with first_nil_Some [OF Some] reuse show ?thesis by simp
qed

lemma set_chanList_all: "set (chanList_all cs) = {x. Some x \<in> set cs}"
  by (induction cs rule: chanList_all.induct) auto

lemma distinct_chanList_all:
  "(\<And>i j x. i < length cs \<Longrightarrow> j < length cs \<Longrightarrow> cs ! i = Some x \<Longrightarrow> cs ! j = Some x \<Longrightarrow> i = j)
     \<Longrightarrow> distinct (chanList_all cs)"
proof (induction cs rule: chanList_all.induct)
  case (2 cs)
  from 2(2) [of "Suc i" "Suc j" for i j] show ?case by (auto intro: 2(1))
next
  case (3 c cs)
  from 3(2) [of "Suc i" "Suc j" for i j] have "distinct (chanList_all cs)" by (auto intro: 3(1))
  moreover from 3(2) [of 0 "Suc j" c for j] have "Some c \<notin> set cs" by (auto simp: in_set_conv_nth)
  ultimately show ?case by (simp add: set_chanList_all)
qed simp

lemma dropAll_distinct:
  assumes "has_room cs"
    and "\<And>i j x. chanList_getChan i cs = Some x \<Longrightarrow> chanList_getChan j cs = Some x \<Longrightarrow> i = j"
  shows "distinct (fst (chanList_dropAll cs))"
proof -
  have len: "length cs < 4294967296" using assms(1) by (simp add: has_room_def)
  have "i = j" if "i < length cs" "j < length cs" "cs ! i = Some x" "cs ! j = Some x" for i j x
  proof -
    have "(of_nat i :: u32) = of_nat j"
      using that getChan_of_nat [OF len, of i] getChan_of_nat [OF len, of j] by (intro assms(2)) simp_all
    then have "unat (of_nat i :: u32) = unat (of_nat j :: u32)" by simp
    then show ?thesis using that(1,2) len by (simp add: unat_of_nat_u32)
  qed
  then show ?thesis by (simp add: chanList_dropAll_def distinct_chanList_all)
qed

interpretation ct: least_table chanList_getChan chanList_add chanList_remove chanList_dropAll has_room
proof unfold_locales
  fix cs cs' :: "'a chanList" and x i j
  assume room: "has_room cs" and add: "chanList_add x cs = (i, cs')"
  from room have len: "length cs < 4294967296" by (simp add: has_room_def)
  from room add show "chanList_getChan i cs = None \<and>
    (\<forall>j. chanList_getChan j cs' = (if j = i then Some x else chanList_getChan j cs))"
  proof (cases rule: chanList_add_cases)
    case reuse
    with len show ?thesis by (auto simp: getChan_nth nth_list_update dest: unsigned_word_eqI)
  next
    case grow
    then have "unat j = length cs \<longleftrightarrow> j = i" for j by (metis unsigned_word_eqI)
    moreover from grow have "\<not> unat i < length cs" by simp
    ultimately show ?thesis
      using room grow(3) by (simp add: getChan_nth has_room_def nth_append less_Suc_eq)
  qed
  show "chanList_getChan j cs \<noteq> None" if "j < i"
    using room add
    by (cases rule: chanList_add_cases)
       (use that len in \<open>auto simp: getChan_nth word_less_nat_alt\<close>)
next
  fix cs :: "'a chanList" and i j
  show "chanList_getChan j (chanList_remove i cs)
      = (if j = i then None else chanList_getChan j cs)" if "has_room cs"
    using that by (auto simp: has_room_def getChan_nth chanList_remove_def id_less_length nth_list_update
          dest: unsigned_word_eqI)
  show "has_room (chanList_remove i cs)" if "has_room cs"
    using that by (simp add: has_room_def chanList_remove_def)
  show "has_room (snd (chanList_dropAll cs))"
    by (simp add: has_room_def chanList_dropAll_def)
  show "chanList_getChan j (snd (chanList_dropAll cs)) = None"
    by (simp add: chanList_dropAll_def chanList_getChan_def)
  show "set (fst (chanList_dropAll cs)) = {x. \<exists>i. chanList_getChan i cs = Some x}" if "has_room cs"
  proof -
    from that have len: "length cs < 4294967296" by (simp add: has_room_def)
    have "Some x \<in> set cs \<longleftrightarrow> (\<exists>i. chanList_getChan i cs = Some x)" for x
    proof
      assume "Some x \<in> set cs"
      then obtain k where "k < length cs" "cs ! k = Some x" by (auto simp: in_set_conv_nth)
      with getChan_of_nat [OF len, of k] show "\<exists>i. chanList_getChan i cs = Some x" by metis
    qed (use len nth_mem [of _ cs] in \<open>fastforce simp: getChan_nth split: if_splits\<close>)
    then show ?thesis by (simp add: chanList_dropAll_def set_chanList_all)
  qed
qed (rule dropAll_distinct)

section \<open>Properties\<close>

text \<open>
  \<^verbatim>\<open>add\<close> assigns the least id that is free, stores the channel under it, and changes no other
  entry.
\<close>

theorem chanList_add_spec:
  assumes "has_room cs" and "chanList_add ch cs = (i, cs')"
  shows "chanList_getChan i cs = None \<and> (\<forall>j < i. chanList_getChan j cs \<noteq> None)
    \<and> (\<forall>j. chanList_getChan j cs' = (if j = i then Some ch else chanList_getChan j cs))"
  using ct.get_add [OF assms] ct.add_least [OF assms] by blast

theorem chanList_add_spec_witness:
  "chanList_add (5 :: nat) [Some 3, None, Some 4] = (1, [Some 3, Some 5, Some 4])
   \<and> chanList_getChan 2 [Some 3, Some 5, Some (4 :: nat)] = Some 4"
proof -
  have a: "chanList_add (5 :: nat) [Some 3, None, Some 4] = (1, [Some 3, Some 5, Some 4])"
    by (simp add: chanList_add_def)
  have "has_room [Some (3 :: nat), None, Some 4]" by (simp add: has_room_def)
  from chanList_add_spec [OF this a] have "\<forall>j. chanList_getChan j [Some 3, Some 5, Some (4 :: nat)]
    = (if j = 1 then Some 5 else chanList_getChan j [Some 3, None, Some 4])" by simp
  then have "chanList_getChan 2 [Some 3, Some 5, Some (4 :: nat)]
    = chanList_getChan 2 [Some 3, None, Some 4]" by simp
  with a show ?thesis by (simp add: chanList_getChan_def)
qed

end
