(* ===== verification/Mux_Channel.thy ===== *)
theory Mux_Channel
  imports Mux_Frame Mux_Buffer Mux_Window Mux_ChanList
begin

text \<open>
  A qmux channel (\<^verbatim>\<open>src/mux/channel.go\<close>, with the constants of \<^verbatim>\<open>src/mux/session.go\<close>). A channel is
  a record with the fields of the struct; the part of its session that the methods use is passed
  beside it: the encoder's writer, and for \<^verbatim>\<open>handle\<close> the channel table. Each mutex protects the
  fields one function updates, so the bodies between lock and unlock are atomic.

  The buffered Go channel \<^verbatim>\<open>msg\<close> is the list of queued messages and whether it is closed; sending on
  it when it is full blocks, and sending on or closing it once closed panics. \<^verbatim>\<open>Write\<close> stops with
  \<open>WWait\<close> when \<^verbatim>\<open>reserve\<close> has to wait for window and \<open>write_resume\<close> goes on from there.
\<close>

section \<open>State\<close>

definition minPacketLength :: u32 where "minPacketLength = 9"
definition maxPacketLength :: u32 where "maxPacketLength = 2147483648"
definition channelMaxPacket :: u32 where "channelMaxPacket = 16777216"
definition channelWindowSize :: u32 where "channelWindowSize = 64 * channelMaxPacket"
definition chanSize :: nat where "chanSize = 16"

datatype channelDirection = channelInbound | channelOutbound

record channel =
  localId :: u32
  remoteId :: u32
  maxIncomingPayload :: u32
  maxRemotePayload :: u32
  direction :: channelDirection
  msg :: "Message list"       \<comment> \<open>the queue of the Go channel msg\<close>
  msg_closed :: bool
  sentEOF :: bool
  remoteWin :: window
  pending :: buffer
  myWindow :: u32
  sentClose :: bool

definition chan_min :: "u32 \<Rightarrow> nat \<Rightarrow> u32" where
  "chan_min a b = (if a < of_nat b then a else of_nat b)"

section \<open>Sending\<close>

text \<open>The frame that carries a chunk of data.\<close>

definition data_frame :: "u32 \<Rightarrow> bytes \<Rightarrow> Message" where
  "data_frame rid c = DataMessage rid (of_nat (length c)) c"

definition send :: "Message \<Rightarrow> channel \<Rightarrow> writer \<Rightarrow> go_error option \<times> channel \<times> writer" where
  "send m ch w =
     (if sentClose ch then (Some EOF, ch, w)
      else
        (let ch1 = (case m of CloseMessage _ \<Rightarrow> ch\<lparr>sentClose := True\<rparr> | _ \<Rightarrow> ch);
             (err, w1) = Encode m w
         in (err, ch1, w1)))"

definition CloseWrite :: "channel \<Rightarrow> writer \<Rightarrow> go_error option \<times> channel \<times> writer" where
  "CloseWrite ch w = send (EOFMessage (remoteId ch)) (ch\<lparr>sentEOF := True\<rparr>) w"

definition Close :: "channel \<Rightarrow> writer \<Rightarrow> go_error option \<times> channel \<times> writer" where
  "Close ch w = send (CloseMessage (remoteId ch)) ch w"

text \<open>
  One turn of the loop of \<^verbatim>\<open>Write\<close>, from the result of \<^verbatim>\<open>reserve\<close> on: stop with an error, or go
  on with the rest of the data.
\<close>

datatype chunk_result = Stop nat go_error channel writer | More bytes nat channel writer

definition write_chunk ::
    "u32 \<times> go_error option \<times> window \<Rightarrow> bytes \<Rightarrow> nat \<Rightarrow> channel \<Rightarrow> writer \<Rightarrow> chunk_result" where
  "write_chunk r data n ch w =
     (case r of (space, err, rw) \<Rightarrow>
        let ch1 = ch\<lparr>remoteWin := rw\<rparr> in
        (case err of
           Some e \<Rightarrow> Stop n e ch1 w
         | None \<Rightarrow>
             let toSend = take (unat space) data in
             (case Encode (data_frame (remoteId ch) toSend) w of
                (Some e, w1) \<Rightarrow> Stop n e ch1 w1
              | (None, w1) \<Rightarrow> More (drop (length toSend) data) (n + length toSend) ch1 w1)))"

datatype write_result = WDone nat "go_error option" channel writer
  | WWait u32 bytes nat channel writer  \<comment> \<open>waiting in reserve for that many bytes\<close>

partial_function (option) write_loop ::
    "bytes \<Rightarrow> nat \<Rightarrow> channel \<Rightarrow> writer \<Rightarrow> write_result option" where
  "write_loop data n ch w =
     (if data = [] then Some (WDone n None ch w)
      else
        (let space = chan_min (maxRemotePayload ch) (length data) in
         case reserve space (remoteWin ch) of
           None \<Rightarrow> Some (WWait space data n (ch\<lparr>remoteWin := reserve_enter (remoteWin ch)\<rparr>) w)
         | Some r \<Rightarrow>
             (case write_chunk r data n ch w of
                Stop n1 e ch1 w1 \<Rightarrow> Some (WDone n1 (Some e) ch1 w1)
              | More d1 n1 ch1 w1 \<Rightarrow> write_loop d1 n1 ch1 w1)))"

definition chan_Write :: "bytes \<Rightarrow> channel \<Rightarrow> writer \<Rightarrow> write_result option" where
  "chan_Write data ch w =
     (if sentEOF ch then Some (WDone 0 (Some EOF) ch w) else write_loop data 0 ch w)"

definition write_resume :: "u32 \<Rightarrow> bytes \<Rightarrow> nat \<Rightarrow> channel \<Rightarrow> writer \<Rightarrow> write_result option" where
  "write_resume space data n ch w =
     (case reserve_wake space (remoteWin ch) of
        None \<Rightarrow> Some (WWait space data n ch w)
      | Some r \<Rightarrow>
          (case write_chunk r data n ch w of
             Stop n1 e ch1 w1 \<Rightarrow> Some (WDone n1 (Some e) ch1 w1)
           | More d1 n1 ch1 w1 \<Rightarrow> write_loop d1 n1 ch1 w1))"

section \<open>Receiving\<close>

definition adjustWindow :: "u32 \<Rightarrow> channel \<Rightarrow> writer \<Rightarrow> go_error option \<times> channel \<times> writer" where
  "adjustWindow n ch w =
     send (WindowAdjustMessage (remoteId ch) n) (ch\<lparr>myWindow := myWindow ch + n\<rparr>) w"

datatype chan_read = CDone bytes "go_error option" channel writer | CWait channel | CPanic

definition chan_Read :: "nat \<Rightarrow> channel \<Rightarrow> writer \<Rightarrow> chan_read option" where
  "chan_Read k ch w =
     map_option (\<lambda>r.
       case r of
         RPanic \<Rightarrow> CPanic
       | RWait b \<Rightarrow> CWait (ch\<lparr>pending := b\<rparr>)
       | RDone d e b \<Rightarrow>
           let ch1 = ch\<lparr>pending := b\<rparr> in
           if length d > 0 then
             (case adjustWindow (of_nat (length d)) ch1 w of
                (err, ch2, w2) \<Rightarrow> CDone d (if length d > 0 \<and> err = Some EOF then None else err) ch2 w2)
           else CDone d e ch1 w)
       (buffer_Read k (pending ch))"

text \<open>Closing the Go channel \<^verbatim>\<open>msg\<close> a second time panics: \<open>None\<close>.\<close>

definition chan_close :: "channel \<Rightarrow> channel option" where
  "chan_close ch =
     (let ch1 = ch\<lparr>pending := buffer_eof (pending ch)\<rparr> in
      if msg_closed ch1 then None
      else Some (ch1\<lparr>msg_closed := True, sentClose := True, remoteWin := window_close (remoteWin ch1)\<rparr>))"

definition responseMessageReceived :: "channel \<Rightarrow> go_error option" where
  "responseMessageReceived ch =
     (if direction ch = channelInbound
      then Some (ErrorString ''qmux: channel response message received on inbound channel'') else None)"

text \<open>\<^verbatim>\<open>handleData\<close>, given the fields of the message.\<close>

definition handleData :: "u32 \<Rightarrow> bytes \<Rightarrow> channel \<Rightarrow> go_error option \<times> channel" where
  "handleData len d ch =
     (if len > maxIncomingPayload ch
      then (Some (ErrorString ''qmux: incoming packet exceeds maximum payload size''), ch)
      else if len \<noteq> of_nat (length d) then (Some (ErrorString ''qmux: wrong packet length''), ch)
      else if myWindow ch < len then (Some (ErrorString ''qmux: remote side wrote too much''), ch)
      else (None, ch\<lparr>myWindow := myWindow ch - len, pending := buffer_write d (pending ch)\<rparr>))"

text \<open>
  The outcomes of \<^verbatim>\<open>handle\<close>: it returns, it blocks sending \<open>m\<close> on the full Go channel \<^verbatim>\<open>msg\<close>, or it
  panics. With it go the channel, the table and the writer.
\<close>

datatype handle_result =
    HRet "go_error option" channel "nat chanList" writer
  | HBlock Message channel "nat chanList" writer
  | HPanic

definition msg_send :: "Message \<Rightarrow> channel \<Rightarrow> nat chanList \<Rightarrow> writer \<Rightarrow> handle_result" where
  "msg_send m ch cs w =
     (if msg_closed ch then HPanic
      else if length (msg ch) < chanSize then HRet None (ch\<lparr>msg := msg ch @ [m]\<rparr>) cs w
      else HBlock m ch cs w)"

definition handle :: "Message \<Rightarrow> channel \<Rightarrow> nat chanList \<Rightarrow> writer \<Rightarrow> handle_result" where
  "handle m ch cs w =
     (case m of
        DataMessage cid len d \<Rightarrow>
          (case handleData len d ch of (err, ch1) \<Rightarrow> HRet err ch1 cs w)
      | CloseMessage cid \<Rightarrow>
          (case send (CloseMessage (remoteId ch)) ch w of (err, ch1, w1) \<Rightarrow>
             (case chan_close ch1 of
                None \<Rightarrow> HPanic
              | Some ch2 \<Rightarrow> HRet None ch2 (chanList_remove (localId ch) cs) w1))
      | EOFMessage cid \<Rightarrow> HRet None (ch\<lparr>pending := buffer_eof (pending ch)\<rparr>) cs w
      | WindowAdjustMessage cid n \<Rightarrow>
          (case window_add n (remoteWin ch) of
             (ok, rw) \<Rightarrow>
               if \<not> ok
               then HRet (Some (ErrorString (''qmux: invalid window update for '' @ show_word n @ '' bytes'')))
                      (ch\<lparr>remoteWin := rw\<rparr>) cs w
               else HRet None (ch\<lparr>remoteWin := rw\<rparr>) cs w)
      | OpenConfirmMessage cid sid wsize maxp \<Rightarrow>
          (case responseMessageReceived ch of
             Some e \<Rightarrow> HRet (Some e) ch cs w
           | None \<Rightarrow>
               if maxp < minPacketLength \<or> maxp > maxPacketLength
               then HRet (Some (ErrorString (''qmux: invalid MaxPacketSize '' @ show_word maxp @ '' from peer'')))
                      ch cs w
               else
                 msg_send m (ch\<lparr>remoteId := sid, maxRemotePayload := maxp,
                               remoteWin := snd (window_add wsize (remoteWin ch))\<rparr>) cs w)
      | OpenFailureMessage cid \<Rightarrow>
          (case responseMessageReceived ch of
             Some e \<Rightarrow> HRet (Some e) ch cs w
           | None \<Rightarrow> msg_send m ch (chanList_remove cid cs) w)
      | OpenMessage sid wsize maxp \<Rightarrow>
          HRet (Some (ErrorString (''qmux: invalid channel message '' @ String m))) ch cs w)"

section \<open>The invariant\<close>

text \<open>
  The receive window and the unread bytes always make up the window the channel started with. So
  the addition in \<^verbatim>\<open>adjustWindow\<close>, which the source leaves unchecked, cannot overflow.
\<close>

definition chan_inv :: "channel \<Rightarrow> bool" where
  "chan_inv ch \<longleftrightarrow> buffer_inv (pending ch)
     \<and> unat (myWindow ch) + length (contents (pending ch)) = unat channelWindowSize
     \<and> length (msg ch) \<le> chanSize
     \<and> (msg_closed ch \<longrightarrow> sentClose ch \<and> closed (pending ch) \<and> w_closed (remoteWin ch))"

lemma window_size [simp]: "unat channelWindowSize = 1073741824"
  by (simp add: channelWindowSize_def channelMaxPacket_def)

lemma send_channel:
  assumes "send m ch w = (e, ch', w')"
  obtains b where "ch' = ch\<lparr>sentClose := b\<rparr>" and "sentClose ch \<longrightarrow> b"
  using assms
  by (cases ch) (auto simp: send_def Let_def split: if_splits Message.splits prod.splits)

lemma send_open:
  assumes "\<not> sentClose ch" and "wr_fail w = None"
  shows "send m ch w = (None, ch\<lparr>sentClose := (case m of CloseMessage _ \<Rightarrow> True | _ \<Rightarrow> False)\<rparr>,
           w\<lparr>wr_buf := wr_buf w @ Bytes m\<rparr>)"
  using assms by (cases ch) (auto simp: send_def Encode_def go_simps split: Message.splits)

lemma chan_inv_sentClose: "chan_inv ch \<Longrightarrow> sentClose ch \<longrightarrow> b \<Longrightarrow> chan_inv (ch\<lparr>sentClose := b\<rparr>)"
  by (auto simp: chan_inv_def)

lemma send_inv: "chan_inv ch \<Longrightarrow> send m ch w = (e, ch', w') \<Longrightarrow> chan_inv ch'"
  by (elim send_channel) (simp add: chan_inv_sentClose)

lemma handleData_inv:
  assumes "chan_inv ch" and "handleData len d ch = (err, ch')" and "length d = unat len"
  shows "chan_inv ch'"
  using assms bq.wr_queue [of "pending ch" d]
  by (auto simp: handleData_def chan_inv_def unat_sub word_le_nat_alt word_less_nat_alt
        split: if_splits)

lemma chan_close_inv: "chan_inv ch \<Longrightarrow> chan_close ch = Some ch' \<Longrightarrow> chan_inv ch'"
  by (auto simp: chan_close_def Let_def chan_inv_def window_close_def split: if_splits)

lemma window_add_closed: "w_closed (snd (window_add n w)) = w_closed w"
  using window_add_exact [of n w] by (cases "window_add n w") auto

lemma msg_send_inv:
  "chan_inv ch \<Longrightarrow> (case msg_send m ch cs w of HRet e ch' cs' w' \<Rightarrow> chan_inv ch'
     | HBlock m' ch' cs' w' \<Rightarrow> chan_inv ch' | HPanic \<Rightarrow> msg_closed ch)"
  by (auto simp: msg_send_def chan_inv_def)

lemma handle_inv:
  assumes inv: "chan_inv ch" and ok: "frame_ok m" and "\<not> msg_closed ch"
  shows "case handle m ch cs w of HRet e ch' cs' w' \<Rightarrow> chan_inv ch'
     | HBlock m' ch' cs' w' \<Rightarrow> chan_inv ch' | HPanic \<Rightarrow> False"
proof (cases m)
  case (OpenConfirmMessage cid sid wsize maxp)
  let ?ch = "ch\<lparr>remoteId := sid, maxRemotePayload := maxp,
               remoteWin := snd (window_add wsize (remoteWin ch))\<rparr>"
  have "chan_inv ?ch" using inv by (simp add: chan_inv_def window_add_closed)
  from msg_send_inv [OF this, of m cs w] OpenConfirmMessage inv assms(3) show ?thesis
    by (auto simp: handle_def split: option.splits handle_result.splits)
next
  case (OpenFailureMessage cid)
  with msg_send_inv [OF inv, of m "chanList_remove cid cs" w] inv assms(3) show ?thesis
    by (auto simp: handle_def split: option.splits handle_result.splits)
next
  case (DataMessage cid len d)
  with ok have "length d = unat len" by (simp add: frame_ok_def)
  with DataMessage handleData_inv [OF inv, of len d] show ?thesis
    by (auto simp: handle_def split: prod.splits)
next
  case (CloseMessage cid)
  obtain e ch1 w1 where s: "send (CloseMessage (remoteId ch)) ch w = (e, ch1, w1)"
    by (cases "send (CloseMessage (remoteId ch)) ch w")
  obtain b where "ch1 = ch\<lparr>sentClose := b\<rparr>" by (rule send_channel [OF s])
  with send_inv [OF inv s] assms(3) have "chan_inv ch1" "\<not> msg_closed ch1" by auto
  then show ?thesis
    using CloseMessage s chan_close_inv [of ch1] by (auto simp: handle_def chan_close_def split: option.splits)
next
  case (WindowAdjustMessage cid n)
  with inv window_add_closed [of n "remoteWin ch"] show ?thesis
    by (auto simp: handle_def chan_inv_def split: prod.splits)
next
  case (EOFMessage cid)
  with inv show ?thesis by (simp add: handle_def chan_inv_def)
qed (use inv in \<open>simp add: handle_def\<close>)

section \<open>Reading\<close>

lemma adjustWindow_inv:
  assumes "adjustWindow n (ch\<lparr>pending := b\<rparr>) w = (e, ch', w')" and "chan_inv ch" and "buffer_inv b"
    and "closed b = closed (pending ch)"
    and "length (contents b) + unat n = length (contents (pending ch))"
  shows "chan_inv ch'"
proof (rule send_inv [OF _ assms(1) [unfolded adjustWindow_def]])
  have "unat (myWindow ch) + unat n < 4294967296"
    using assms(2,5) by (simp add: chan_inv_def)
  then have "unat (myWindow ch + n) = unat (myWindow ch) + unat n" by (rule unat_add_u32)
  with assms show "chan_inv (ch\<lparr>pending := b\<rparr>\<lparr>myWindow := myWindow (ch\<lparr>pending := b\<rparr>) + n\<rparr>)"
    by (auto simp: chan_inv_def)
qed

lemma chan_Read_inv:
  assumes "chan_inv ch"
  shows "\<exists>r. chan_Read k ch w = Some r \<and> (case r of CDone d e ch' w' \<Rightarrow> chan_inv ch'
    | CWait ch' \<Rightarrow> chan_inv ch' | CPanic \<Rightarrow> False)"
proof -
  from assms have b: "buffer_inv (pending ch)" by (simp add: chan_inv_def)
  then show ?thesis
  proof (cases rule: bq.rd_cases [where k = k])
    case (data b')
    let ?d = "take k (contents (pending ch))"
    have "length ?d < 2 ^ 32" using assms by (auto simp: chan_inv_def min_def)
    then have n: "unat (of_nat (length ?d) :: u32) = length ?d" by (rule unat_of_nat_u32)
    obtain e ch' w' where a: "adjustWindow (of_nat (length ?d)) (ch\<lparr>pending := b'\<rparr>) w = (e, ch', w')"
      by (cases "adjustWindow (of_nat (length ?d)) (ch\<lparr>pending := b'\<rparr>) w")
    have "chan_inv ch'"
      by (rule adjustWindow_inv [OF a assms data(5,6)]) (simp only: n, use data in auto)
    with data a show ?thesis by (simp add: chan_Read_def)
  qed (use assms in \<open>simp_all add: chan_Read_def chan_inv_def\<close>)
qed

lemma chan_Read_data:
  assumes "chan_inv ch" and "k \<noteq> 0" and "contents (pending ch) \<noteq> []" and "wr_fail w = None"
  defines "d \<equiv> take k (contents (pending ch))"
  shows "\<exists>b. buffer_inv b \<and> contents b = drop k (contents (pending ch)) \<and> closed b = closed (pending ch)
    \<and> chan_Read k ch w = Some (CDone d None
        (ch\<lparr>pending := b, myWindow := myWindow ch + of_nat (length d)\<rparr>)
        (if sentClose ch then w
         else w\<lparr>wr_buf := wr_buf w @ Bytes (WindowAdjustMessage (remoteId ch) (of_nat (length d)))\<rparr>))"
proof -
  from assms(1) have b: "buffer_inv (pending ch)" by (simp add: chan_inv_def)
  from assms(2,3) have d: "d \<noteq> []" by (simp add: d_def)
  from b show ?thesis
  proof (cases rule: bq.rd_cases [where k = k])
    case (data b')
    show ?thesis
    proof (cases "sentClose ch")
      case True
      with data d show ?thesis
        by (intro exI [of _ b']) (simp add: chan_Read_def adjustWindow_def send_def d_def)
    next
      case False
      then have "send (WindowAdjustMessage (remoteId ch) (of_nat (length d)))
        (ch\<lparr>pending := b', myWindow := myWindow ch + of_nat (length d)\<rparr>) w
        = (None, ch\<lparr>pending := b', myWindow := myWindow ch + of_nat (length d)\<rparr>,
           w\<lparr>wr_buf := wr_buf w @ Bytes (WindowAdjustMessage (remoteId ch) (of_nat (length d)))\<rparr>)"
        using assms(4) by (simp add: send_def Encode_def go_simps)
      with data d False show ?thesis
        by (intro exI [of _ b']) (simp add: chan_Read_def adjustWindow_def d_def [symmetric])
    qed
  qed (use assms(2,3) in auto)
qed

section \<open>Writing\<close>

lemma chan_min_nat: "b < 2 ^ 32 \<Longrightarrow> unat (chan_min a b) = min (unat a) b"
  by (simp add: chan_min_def word_less_nat_alt unat_of_nat_u32 min_def)

lemma data_frame_ok: "length c < 2 ^ 32 \<Longrightarrow> frame_ok (data_frame rid c)"
  by (simp add: frame_ok_def data_frame_def unat_of_nat_u32)

text \<open>One turn of the loop on an open window and a working transport.\<close>

lemma write_loop_turn:
  assumes "wr_fail w = None" and "\<not> w_closed (remoteWin ch)" and "maxRemotePayload ch \<noteq> 0"
    and "length data < 2 ^ 32" and "data \<noteq> []" and "win (remoteWin ch) \<noteq> 0"
  shows "\<exists>m rw. 0 < m \<and> m = min (min (unat (maxRemotePayload ch)) (length data)) (unat (win (remoteWin ch)))
    \<and> unat (win rw) = unat (win (remoteWin ch)) - m \<and> \<not> w_closed rw
    \<and> writeWaiters rw = writeWaiters (remoteWin ch)
    \<and> write_loop data n ch w = write_loop (drop m data) (n + m) (ch\<lparr>remoteWin := rw\<rparr>)
        (w\<lparr>wr_buf := wr_buf w @ Bytes (data_frame (remoteId ch) (take m data))\<rparr>)"
proof -
  let ?space = "chan_min (maxRemotePayload ch) (length data)"
  have space: "unat ?space = min (unat (maxRemotePayload ch)) (length data)"
    by (rule chan_min_nat [OF assms(4)])
  have "reserve ?space (remoteWin ch) \<noteq> None"
    using sw.tk_None [of ?space "remoteWin ch"] assms(6) by (simp add: unat_eq_zero)
  then obtain m e rw where r: "reserve ?space (remoteWin ch) = Some (m, e, rw)" by auto
  note t = sw.tk_Some [OF r] reserve_Some [OF r]
  have e: "e = None" using t assms(2) by simp
  have len: "length (take (unat m) data) = unat m" using t space by simp
  have "write_loop data n ch w = write_loop (drop (unat m) data) (n + unat m) (ch\<lparr>remoteWin := rw\<rparr>)
    (w\<lparr>wr_buf := wr_buf w @ Bytes (data_frame (remoteId ch) (take (unat m) data))\<rparr>)"
    using assms(1,5) r e len
    by (subst write_loop.simps) (simp add: write_chunk_def Encode_def go_simps Let_def)
  moreover have "0 < unat m" using t space assms(3,5,6) by simp
  ultimately show ?thesis using t space assms(2) by (intro exI [of _ "unat m"] exI [of _ rw]) simp
qed

text \<open>
  What a call of \<^verbatim>\<open>Write\<close> leaves behind: \<open>chunks\<close> were sent in frames and \<open>rest\<close> was not; the window
  shrank by what was sent. If there is a rest, the writer is waiting in \<^verbatim>\<open>reserve\<close> on an empty window.
\<close>

definition write_outcome :: "bytes list \<Rightarrow> bytes \<Rightarrow> nat \<Rightarrow> channel \<Rightarrow> window \<Rightarrow> writer \<Rightarrow> write_result" where
  "write_outcome chunks rest n ch rw w =
     (let n' = n + length (concat chunks);
          w' = w\<lparr>wr_buf := wr_buf w @ concat (map (Bytes \<circ> data_frame (remoteId ch)) chunks)\<rparr>
      in if rest = [] then WDone n' None (ch\<lparr>remoteWin := rw\<rparr>) w'
         else WWait (chan_min (maxRemotePayload ch) (length rest)) rest n' (ch\<lparr>remoteWin := rw\<rparr>) w')"

text \<open>One more frame in front: its chunk is as long as the payload bound, the data and the window allow.\<close>

lemma chunks_Cons:
  fixes data :: bytes
  assumes "0 < m" and "m = min (min p (length data)) win0" and "drop m data = concat chunks @ rest"
    and "\<forall>c \<in> set chunks. c \<noteq> [] \<and> length c \<le> p"
    and "length (concat chunks) = min (length data - m) (win0 - m)" and "win1 + length (concat chunks) = win0 - m"
  shows "data = concat (take m data # chunks) @ rest"
    and "\<forall>c \<in> set (take m data # chunks). c \<noteq> [] \<and> length c \<le> p"
    and "length (concat (take m data # chunks)) = min (length data) win0"
    and "win1 + length (concat (take m data # chunks)) = win0"
proof -
  have m: "m \<le> p" "m \<le> length data" "m \<le> win0" unfolding assms(2) by simp_all
  then have "length (take m data) = m" by simp
  with m assms(5,6) show "length (concat (take m data # chunks)) = min (length data) win0"
    and "win1 + length (concat (take m data # chunks)) = win0" by (simp_all only: concat.simps length_append) arith+
  show "data = concat (take m data # chunks) @ rest" using assms(3) by (metis append.assoc append_take_drop_id concat.simps(2))
  show "\<forall>c \<in> set (take m data # chunks). c \<noteq> [] \<and> length c \<le> p" using assms(1,4) m by auto
qed

lemma write_loop_total:
  assumes "wr_fail w = None" and "\<not> w_closed (remoteWin ch)" and "maxRemotePayload ch \<noteq> 0"
    and "length data < 2 ^ 32"
  shows "\<exists>chunks rest rw. data = concat chunks @ rest
    \<and> (\<forall>c \<in> set chunks. c \<noteq> [] \<and> length c \<le> unat (maxRemotePayload ch))
    \<and> length (concat chunks) = min (length data) (unat (win (remoteWin ch)))
    \<and> unat (win rw) + length (concat chunks) = unat (win (remoteWin ch)) \<and> \<not> w_closed rw
    \<and> write_loop data n ch w = Some (write_outcome chunks rest n ch rw w)"
  using assms
proof (induction "length data" arbitrary: data n ch w rule: less_induct)
  case less
  consider "data = []" | (wait) "data \<noteq> []" "win (remoteWin ch) = 0"
    | (more) "data \<noteq> []" "win (remoteWin ch) \<noteq> 0" by blast
  then show ?case
  proof cases
    case 1
    with less.prems(2) show ?thesis
      by (intro exI [of _ "[]"] exI [of _ "[]"] exI [of _ "remoteWin ch"], subst write_loop.simps)
         (cases ch, cases w, simp add: write_outcome_def)
  next
    case wait
    then have "reserve (chan_min (maxRemotePayload ch) (length data)) (remoteWin ch) = None"
      using sw.tk_None less.prems(2) by simp
    with wait less.prems(2) show ?thesis
      by (intro exI [of _ "[]"] exI [of _ data] exI [of _ "reserve_enter (remoteWin ch)"],
          subst write_loop.simps)
         (cases w, simp add: write_outcome_def Let_def)
  next
    case more
    from write_loop_turn [OF less.prems more, of n] obtain m rw where
      m: "0 < m" "m = min (min (unat (maxRemotePayload ch)) (length data)) (unat (win (remoteWin ch)))"
      and rw: "unat (win rw) = unat (win (remoteWin ch)) - m" "\<not> w_closed rw"
      and step: "write_loop data n ch w = write_loop (drop m data) (n + m) (ch\<lparr>remoteWin := rw\<rparr>)
        (w\<lparr>wr_buf := wr_buf w @ Bytes (data_frame (remoteId ch) (take m data))\<rparr>)"
      by blast
    let ?w = "w\<lparr>wr_buf := wr_buf w @ Bytes (data_frame (remoteId ch) (take m data))\<rparr>"
    let ?ch = "ch\<lparr>remoteWin := rw\<rparr>"
    have lt: "length (drop m data) < length data" using m(1) more(1) by simp
    have prems: "wr_fail ?w = None" "\<not> w_closed (remoteWin ?ch)" "maxRemotePayload ?ch \<noteq> 0"
      "length (drop m data) < 2 ^ 32"
      using less.prems rw lt by simp_all
    from less.hyps [OF lt prems, of "n + m"] obtain chunks rest rw' where
      IH: "drop m data = concat chunks @ rest"
        "\<forall>c \<in> set chunks. c \<noteq> [] \<and> length c \<le> unat (maxRemotePayload ?ch)"
        "length (concat chunks) = min (length (drop m data)) (unat (win (remoteWin ?ch)))"
        "unat (win rw') + length (concat chunks) = unat (win (remoteWin ?ch))" "\<not> w_closed rw'"
      and res: "write_loop (drop m data) (n + m) ?ch ?w = Some (write_outcome chunks rest (n + m) ?ch rw' ?w)"
      by blast
    have chunks: "\<forall>c \<in> set chunks. c \<noteq> [] \<and> length c \<le> unat (maxRemotePayload ch)"
      "length (concat chunks) = min (length data - m) (unat (win (remoteWin ch)) - m)"
      "unat (win rw') + length (concat chunks) = unat (win (remoteWin ch)) - m"
      using IH(2) IH(3) [unfolded length_drop] IH(4) rw(1) by simp_all
    have "length (take m data) = m" unfolding m(2) by simp
    then have "write_loop data n ch w = Some (write_outcome (take m data # chunks) rest n ch rw' w)"
      using step res by (simp add: write_outcome_def Let_def add.assoc)
    with chunks_Cons [OF m IH(1) chunks] IH(5) show ?thesis by blast
  qed
qed

text \<open>Data whose length is a multiple of 2^32 asks \<^verbatim>\<open>reserve\<close> for nothing, and the loop makes no progress.\<close>

lemma write_loop_diverges_aux:
  assumes "write_loop data n ch w = Some r"
  shows "\<not> (data \<noteq> [] \<and> of_nat (length data) = (0 :: u32) \<and> wr_fail w = None
           \<and> win (remoteWin ch) \<noteq> 0 \<and> \<not> w_closed (remoteWin ch))"
proof (rule write_loop.raw_induct [where P = "\<lambda>data n ch w r. \<not> (data \<noteq> [] \<and>
    of_nat (length data) = (0 :: u32) \<and> wr_fail w = None \<and> win (remoteWin ch) \<noteq> 0
    \<and> \<not> w_closed (remoteWin ch))", OF _ assms], rule notI)
  fix f data n ch w r
  assume IH: "\<And>data n ch w r. f data n ch w = Some r \<Longrightarrow>
      \<not> (data \<noteq> [] \<and> of_nat (length data) = (0 :: u32) \<and> wr_fail w = None
         \<and> win (remoteWin ch) \<noteq> 0 \<and> \<not> w_closed (remoteWin ch))"
    and body: "(if data = [] then Some (WDone n None ch w)
      else let space = chan_min (maxRemotePayload ch) (length data) in
         case reserve space (remoteWin ch) of
           None \<Rightarrow> Some (WWait space data n (ch\<lparr>remoteWin := reserve_enter (remoteWin ch)\<rparr>) w)
         | Some r \<Rightarrow>
             (case write_chunk r data n ch w of
                Stop n1 e ch1 w1 \<Rightarrow> Some (WDone n1 (Some e) ch1 w1)
              | More d1 n1 ch1 w1 \<Rightarrow> f d1 n1 ch1 w1)) = Some r"
    and bad: "data \<noteq> [] \<and> of_nat (length data) = (0 :: u32) \<and> wr_fail w = None
         \<and> win (remoteWin ch) \<noteq> 0 \<and> \<not> w_closed (remoteWin ch)"
  have space: "chan_min (maxRemotePayload ch) (length data) = 0"
    using bad by (simp add: chan_min_def)
  have "reserve 0 (remoteWin ch) \<noteq> None"
    using sw.tk_None [of 0 "remoteWin ch"] bad by (simp add: unat_eq_zero)
  then obtain m e rw where rs: "reserve 0 (remoteWin ch) = Some (m, e, rw)" by auto
  from sw.tk_Some [OF rs] bad have m: "m = 0" and e: "e = None" and cl: "\<not> w_closed rw"
    and lv: "unat (win rw) = unat (win (remoteWin ch))"
    by (simp_all add: unat_eq_zero)
  from lv bad have "win rw \<noteq> 0" by (metis unat_eq_zero)
  moreover from body bad space rs m e
  have "f data n (ch\<lparr>remoteWin := rw\<rparr>) (w\<lparr>wr_buf := wr_buf w @ Bytes (data_frame (remoteId ch) [])\<rparr>) = Some r"
    by (simp add: write_chunk_def Encode_def go_simps)
  ultimately show False using IH cl bad by fastforce
qed

lemma Close_spec:
  assumes "Close ch w = (err, ch', w')" and "wr_fail w = None" and "\<not> sentClose ch"
  shows "err = None" and "ch' = ch\<lparr>sentClose := True\<rparr>"
    and "w' = w\<lparr>wr_buf := wr_buf w @ Bytes (CloseMessage (remoteId ch))\<rparr>"
  using assms by (simp_all add: Close_def send_open)

text \<open>\<^verbatim>\<open>Write\<close> of data that fits in one frame and in the window.\<close>

lemma chan_Write_one_frame:
  assumes "wr_fail w = None" and "\<not> sentEOF ch" and "\<not> w_closed (remoteWin ch)" and "maxRemotePayload ch \<noteq> 0"
    and "length data \<le> unat (maxRemotePayload ch)" and "data \<noteq> []" and "length data \<le> unat (win (remoteWin ch))"
  shows "\<exists>rw. chan_Write data ch w = Some (WDone (length data) None (ch\<lparr>remoteWin := rw\<rparr>)
          (w\<lparr>wr_buf := wr_buf w @ Bytes (data_frame (remoteId ch) data)\<rparr>))"
proof -
  have len: "length data < 2 ^ 32" using le_less_trans [OF assms(5) unat_lt_u32] by simp
  have "win (remoteWin ch) \<noteq> 0" using assms(6,7) by auto
  then obtain rw where "write_loop data 0 ch w = write_loop [] (length data) (ch\<lparr>remoteWin := rw\<rparr>)
      (w\<lparr>wr_buf := wr_buf w @ Bytes (data_frame (remoteId ch) data)\<rparr>)"
    using write_loop_turn [of w ch data 0] assms len by (auto simp: min_def)
  then show ?thesis using assms(2) by (auto simp: chan_Write_def write_loop.simps [of "[]"])
qed

lemma u32_modulus: "(4294967296 :: u32) = 0" by code_simp

text \<open>A concrete channel for the witnesses: opened, with a window of 5 bytes and packets of at most 2.\<close>

definition sample_channel :: channel where
  "sample_channel = \<lparr>localId = 0, remoteId = 7, maxIncomingPayload = channelMaxPacket,
     maxRemotePayload = 2, direction = channelOutbound, msg = [], msg_closed = False, sentEOF = False,
     remoteWin = \<lparr>win = 5, writeWaiters = 0, w_closed = False\<rparr>, pending = newBuffer,
     myWindow = channelWindowSize, sentClose = False\<rparr>"

lemma sample_channel_inv [simp]: "chan_inv sample_channel"
  by (simp add: sample_channel_def chan_inv_def chanSize_def)

section \<open>Properties\<close>

text \<open>
  C14: \<^verbatim>\<open>Write\<close> of fewer than 2^32 bytes on an open channel with a working transport always comes to
  an end or to a wait for window. It sends the data in order, cut into non-empty frames of at
  most the peer's maximum payload, never more bytes than the window holds, and the window shrinks
  by exactly what was sent; it returns the full length and no error if the window covers the data.
\<close>

theorem chan_Write_spec:
  assumes "wr_fail w = None" and "\<not> sentEOF ch" and "\<not> w_closed (remoteWin ch)"
    and "maxRemotePayload ch \<noteq> 0" and "length data < 2 ^ 32"
  shows "\<exists>chunks rest rw. data = concat chunks @ rest
    \<and> (\<forall>c \<in> set chunks. c \<noteq> [] \<and> length c \<le> unat (maxRemotePayload ch))
    \<and> length (concat chunks) = min (length data) (unat (win (remoteWin ch)))
    \<and> unat (win rw) + length (concat chunks) = unat (win (remoteWin ch))
    \<and> chan_Write data ch w = Some (write_outcome chunks rest 0 ch rw w)"
  using write_loop_total [OF assms(1,3,4,5), of 0] assms(2) unfolding chan_Write_def by auto

theorem chan_Write_spec_witness:
  "\<exists>chunks rw. [1, 2, 3] = concat chunks
     \<and> chan_Write [1, 2, 3] sample_channel \<lparr>wr_buf = [], wr_fail = None\<rparr>
       = Some (WDone 3 None (sample_channel\<lparr>remoteWin := rw\<rparr>)
           \<lparr>wr_buf = concat (map (Bytes \<circ> data_frame 7) chunks), wr_fail = None\<rparr>)"
proof -
  from chan_Write_spec [of "\<lparr>wr_buf = [], wr_fail = None\<rparr>" sample_channel "[1, 2, 3]"]
  obtain chunks rest rw where c: "[1, 2, 3] = concat chunks @ rest" "length (concat chunks) = 3"
    and wr: "chan_Write [1, 2, 3] sample_channel \<lparr>wr_buf = [], wr_fail = None\<rparr>
      = Some (write_outcome chunks rest 0 sample_channel rw \<lparr>wr_buf = [], wr_fail = None\<rparr>)"
    by (auto simp: sample_channel_def)
  from c have "rest = []" by (metis append_eq_append_conv length_append length_Cons list.size(3)
        add_diff_cancel_left' diff_self_eq_0 length_0_conv numeral_3_eq_3)
  with c wr show ?thesis
    by (intro exI [of _ chunks] exI [of _ rw]) (simp add: write_outcome_def sample_channel_def)
qed

text \<open>
  \<^verbatim>\<open>Write\<close> of a non-zero multiple of 2^32 bytes never returns: \<^verbatim>\<open>min\<close> converts the length to 32
  bits, asks \<^verbatim>\<open>reserve\<close> for nothing, and the loop sends empty data frames for ever.
\<close>

theorem chan_Write_diverges:
  assumes "wr_fail w = None" and "\<not> sentEOF ch" and "\<not> w_closed (remoteWin ch)"
    and "win (remoteWin ch) \<noteq> 0" and "length data = 2 ^ 32 * j" and "j \<noteq> 0"
  shows "chan_Write data ch w = None"
proof -
  have "of_nat (length data) = (0 :: u32)"
    unfolding assms(5) of_nat_mult by (simp add: u32_modulus)
  moreover have "data \<noteq> []" using assms(5,6) by auto
  ultimately show ?thesis
    using write_loop_diverges_aux [of data 0 ch w] assms by (cases "write_loop data 0 ch w") (auto simp: chan_Write_def)
qed

theorem chan_Write_diverges_witness:
  "length (replicate (2 ^ 32) 0 :: bytes) = 2 ^ 32
   \<and> chan_Write (replicate (2 ^ 32) 0) sample_channel \<lparr>wr_buf = [], wr_fail = None\<rparr> = None"
proof (intro conjI length_replicate)
  show "chan_Write (replicate (2 ^ 32) 0) sample_channel \<lparr>wr_buf = [], wr_fail = None\<rparr> = None"
    by (rule chan_Write_diverges [of _ _ _ 1]) (simp_all only: length_replicate mult_1_right,
        simp_all add: sample_channel_def)
qed

text \<open>
  C22: \<^verbatim>\<open>Read\<close> on a channel with unread data returns the first \<open>k\<close> bytes and no error, gives exactly
  as many bytes of window back to the peer in one window-adjust frame (none once the channel has
  sent its close), and takes them out of the buffer.
\<close>

theorem chan_Read_spec:
  assumes "chan_inv ch" and "k \<noteq> 0" and "contents (pending ch) \<noteq> []" and "wr_fail w = None"
  shows "\<exists>b d ch'. d = take k (contents (pending ch)) \<and> contents b = drop k (contents (pending ch))
    \<and> ch' = ch\<lparr>pending := b, myWindow := myWindow ch + of_nat (length d)\<rparr> \<and> chan_inv ch'
    \<and> unat (myWindow ch') = unat (myWindow ch) + length d
    \<and> chan_Read k ch w = Some (CDone d None ch'
        (if sentClose ch then w
         else w\<lparr>wr_buf := wr_buf w @ Bytes (WindowAdjustMessage (remoteId ch) (of_nat (length d)))\<rparr>))"
proof -
  define d where "d = take k (contents (pending ch))"
  from chan_Read_data [OF assms] obtain b where b: "contents b = drop k (contents (pending ch))"
    and r: "chan_Read k ch w = Some (CDone d None
        (ch\<lparr>pending := b, myWindow := myWindow ch + of_nat (length d)\<rparr>)
        (if sentClose ch then w
         else w\<lparr>wr_buf := wr_buf w @ Bytes (WindowAdjustMessage (remoteId ch) (of_nat (length d)))\<rparr>))"
    unfolding d_def by blast
  let ?ch = "ch\<lparr>pending := b, myWindow := myWindow ch + of_nat (length d)\<rparr>"
  have inv: "chan_inv ?ch" using chan_Read_inv [OF assms(1), of k w] r by simp
  moreover have "length d + length (contents b) = length (contents (pending ch))"
    using b by (simp add: d_def)
  then have "unat (myWindow ?ch) = unat (myWindow ch) + length d"
    using inv assms(1) by (simp add: chan_inv_def)
  ultimately show ?thesis using b r d_def by blast
qed

theorem chan_Read_spec_witness:
  "\<exists>ch'. chan_Read 2 (sample_channel\<lparr>pending := buffer_write [1, 2, 3] newBuffer,
        myWindow := channelWindowSize - 3\<rparr>) \<lparr>wr_buf = [], wr_fail = None\<rparr>
     = Some (CDone [1, 2] None ch' \<lparr>wr_buf = Bytes (WindowAdjustMessage 7 2), wr_fail = None\<rparr>)"
proof -
  let ?ch = "sample_channel\<lparr>pending := buffer_write [1, 2, 3] newBuffer, myWindow := channelWindowSize - 3\<rparr>"
  have c: "contents (buffer_write [1, 2, 3] newBuffer) = [1, 2, 3]" by (simp add: bq.wr_queue)
  have "chan_inv ?ch"
    using bq.wr_queue [of newBuffer "[1, 2, 3]"]
    by (simp add: chan_inv_def sample_channel_def chanSize_def channelWindowSize_def channelMaxPacket_def)
  from chan_Read_spec [OF this, of 2 "\<lparr>wr_buf = [], wr_fail = None\<rparr>"] c show ?thesis
    by (auto simp: sample_channel_def)
qed

text \<open>
  \<^verbatim>\<open>handleData\<close> accepts a data message exactly when its length is that of its data and is within
  the maximum payload and the receive window. It then appends the data to the unread bytes and takes
  the length off the window, and the window invariant still holds; otherwise it returns an error and
  leaves the channel as it was.
\<close>

theorem handleData_spec:
  fixes len :: u32 and d :: bytes
  assumes "chan_inv ch"
  defines "ok \<equiv> unat len \<le> unat (maxIncomingPayload ch) \<and> len = of_nat (length d) \<and> unat len \<le> unat (myWindow ch)"
  shows "\<exists>err ch'. handleData len d ch = (err, ch') \<and> (err = None \<longleftrightarrow> ok) \<and> (\<not> ok \<longrightarrow> ch' = ch)
    \<and> (ok \<longrightarrow> contents (pending ch') = contents (pending ch) @ d
          \<and> unat (myWindow ch') = unat (myWindow ch) - unat len
          \<and> ch' = ch\<lparr>myWindow := myWindow ch', pending := pending ch'\<rparr>
          \<and> (length d < 2 ^ 32 \<longrightarrow> chan_inv ch'))"
proof -
  have b: "contents (buffer_write d (pending ch)) = contents (pending ch) @ d"
    using bq.wr_queue [of "pending ch" d] assms(1) by (simp add: chan_inv_def)
  show ?thesis
  proof (cases ok)
    case True
    then have h: "handleData len d ch
        = (None, ch\<lparr>myWindow := myWindow ch - len, pending := buffer_write d (pending ch)\<rparr>)"
      by (auto simp: handleData_def ok_def word_less_nat_alt)
    have "unat (myWindow ch - len) = unat (myWindow ch) - unat len"
      by (rule unat_sub) (use True in \<open>unfold ok_def word_le_nat_alt, blast\<close>)
    moreover have "length d = unat len" if "length d < 2 ^ 32"
      using True unat_of_nat_u32 [OF that] by (simp add: ok_def)
    ultimately show ?thesis using True h b handleData_inv [OF assms(1) h] by auto
  next
    case False
    then show ?thesis by (auto simp: handleData_def ok_def word_less_nat_alt)
  qed
qed

theorem handleData_spec_witness:
  "contents (pending (snd (handleData 2 [8, 9] sample_channel))) = [8, 9]
   \<and> fst (handleData 3 [8, 9] sample_channel) \<noteq> None"
  using handleData_spec [OF sample_channel_inv, of 2 "[8, 9]"]
    handleData_spec [OF sample_channel_inv, of 3 "[8, 9]"]
  by (auto simp: sample_channel_def channelMaxPacket_def channelWindowSize_def)

text \<open>
  The method \<^verbatim>\<open>Close\<close> promises that no data is sent after it, and the other frames do stop: every
  later \<^verbatim>\<open>Close\<close>, \<^verbatim>\<open>CloseWrite\<close> or window adjustment returns \<^verbatim>\<open>io.EOF\<close> and writes nothing. \<^verbatim>\<open>Write\<close>
  does not look at \<^verbatim>\<open>sentClose\<close>: it still puts its data frames on the wire after the close frame.
\<close>

theorem Close_stops_all_but_Write:
  assumes "Close ch w = (err, ch', w')" and "wr_fail w = None" and "\<not> sentClose ch"
    and "\<not> sentEOF ch" and "\<not> w_closed (remoteWin ch)" and "maxRemotePayload ch \<noteq> 0"
    and "length data \<le> unat (maxRemotePayload ch)" and "data \<noteq> []" and "length data \<le> unat (win (remoteWin ch))"
  shows "wr_buf w' = wr_buf w @ Bytes (CloseMessage (remoteId ch))
    \<and> (\<forall>m. send m ch' w' = (Some EOF, ch', w'))
    \<and> (\<exists>rw. chan_Write data ch' w' = Some (WDone (length data) None (ch'\<lparr>remoteWin := rw\<rparr>)
          (w'\<lparr>wr_buf := wr_buf w' @ Bytes (data_frame (remoteId ch) data)\<rparr>)))"
  using chan_Write_one_frame [of w' ch' data] Close_spec [OF assms(1-3)] assms(2,4-9) by (simp add: send_def)

theorem Close_stops_all_but_Write_witness:
  "\<exists>ch' w' rw. Close sample_channel \<lparr>wr_buf = [], wr_fail = None\<rparr> = (None, ch', w')
     \<and> chan_Write [1] ch' w' = Some (WDone 1 None (ch'\<lparr>remoteWin := rw\<rparr>)
         (w'\<lparr>wr_buf := wr_buf w' @ Bytes (DataMessage 7 1 [1])\<rparr>))"
proof -
  let ?w = "\<lparr>wr_buf = [], wr_fail = None\<rparr>"
  obtain ch' w' where c: "Close sample_channel ?w = (None, ch', w')"
    by (simp add: Close_def send_open sample_channel_def)
  from Close_stops_all_but_Write [OF c, of "[1]"] c show ?thesis
    by (auto simp: sample_channel_def data_frame_def)
qed

end
