(* ===== verification/Mux_Session.thy ===== *)
theory Mux_Session
  imports Mux_Channel
begin

text \<open>
  A qmux session (\<^verbatim>\<open>src/mux/session.go\<close>). The session is a record: the encoder's writer, the
  decoder's reader, the channel table, whether the transport was closed, whether \<^verbatim>\<open>closeCh\<close> holds its
  token, and the error of the finished loop. Channels are objects that the application and the
  session share, so the table holds references into a heap of channels.

  A method that can block is split at the points where it blocks: \<^verbatim>\<open>onePacket\<close> at the read, at the
  hand-over of an incoming channel on \<^verbatim>\<open>inbox\<close> and at the send on a channel's \<^verbatim>\<open>msg\<close>; \<^verbatim>\<open>Open\<close> at its
  select; \<^verbatim>\<open>loop\<close> between its turns. \<open>sstep\<close> interleaves the loop with callers of \<^verbatim>\<open>Accept\<close> and
  \<^verbatim>\<open>Open\<close>, with the channels' methods and with the transport. The assignment of \<^verbatim>\<open>localId\<close> in
  \<^verbatim>\<open>newChannel\<close> counts as part of \<^verbatim>\<open>chans.add\<close>.

  The lemmas show that no interleaving makes the session panic (no Go channel is closed twice or
  sent to once closed), that every id in the table names a live channel that knows this id, and
  what the end of the loop does to all channels; and they exhibit callers that are left waiting.
\<close>

section \<open>State\<close>

record session =
  t_closed :: bool
  enc :: writer
  dec :: reader
  chans :: "nat chanList"
  heap :: "nat \<Rightarrow> channel option"  \<comment> \<open>the channel objects\<close>
  next_ref :: nat
  closeCh :: bool                  \<comment> \<open>whether the token is in the buffer\<close>
  s_err :: "go_error option"

definition New :: "reader \<Rightarrow> writer \<Rightarrow> session" where
  "New r w = \<lparr>t_closed = False, enc = w, dec = r, chans = [], heap = (\<lambda>_. None), next_ref = 0,
     closeCh = False, s_err = None\<rparr>"

definition session_Close :: "session \<Rightarrow> go_error option \<times> session" where
  "session_Close s = (None, s\<lparr>t_closed := True\<rparr>)"

text \<open>\<^verbatim>\<open>Wait\<close> returns the error of the loop, or waits (\<open>None\<close>).\<close>

definition session_Wait :: "session \<Rightarrow> go_error option" where
  "session_Wait s = s_err s"

definition put_chan :: "nat \<Rightarrow> channel \<Rightarrow> session \<Rightarrow> session" where
  "put_chan r ch s = s\<lparr>heap := (heap s)(r := Some ch)\<rparr>"

section \<open>Operations\<close>

definition newChannel :: "channelDirection \<Rightarrow> session \<Rightarrow> nat \<times> channel \<times> session" where
  "newChannel dir s =
     (let r = next_ref s;
          (cid, cs) = chanList_add r (chans s);
          ch = \<lparr>localId = cid, remoteId = 0, maxIncomingPayload = 0, maxRemotePayload = 0,
                direction = dir, msg = [], msg_closed = False, sentEOF = False,
                remoteWin = window_new, pending = newBuffer, myWindow = channelWindowSize,
                sentClose = False\<rparr>
      in (r, ch, put_chan r ch (s\<lparr>chans := cs, next_ref := r + 1\<rparr>)))"

text \<open>\<^verbatim>\<open>Open\<close> up to its select: the error of the encoder, or the new channel to wait for.\<close>

definition Open_send :: "session \<Rightarrow> go_error option \<times> nat \<times> session" where
  "Open_send s =
     (case newChannel channelOutbound s of (r, ch0, s1) \<Rightarrow>
        let ch = ch0\<lparr>maxIncomingPayload := channelMaxPacket\<rparr>;
            (err, w) = Encode (OpenMessage (localId ch) (myWindow ch) (maxIncomingPayload ch)) (enc s1)
        in (err, r, put_chan r ch (s1\<lparr>enc := w\<rparr>)))"

text \<open>
  The rest of \<^verbatim>\<open>Open\<close> when the receive from \<^verbatim>\<open>ch.msg\<close> is chosen: \<open>None\<close> while there is nothing to
  receive, else the returned channel or error. A receive from a closed empty Go channel gives nil.
\<close>

definition open_verdict :: "nat \<Rightarrow> Message \<Rightarrow> go_error + nat" where
  "open_verdict r m =
     (case m of
        OpenConfirmMessage _ _ _ _ \<Rightarrow> Inr r
      | OpenFailureMessage _ \<Rightarrow> Inl (ErrorString ''qmux: channel open failed on remote side'')
      | _ \<Rightarrow> Inl (ErrorString (''qmux: unexpected packet in response to channel open: '' @ String m)))"

definition Open_recv :: "nat \<Rightarrow> channel \<Rightarrow> session \<Rightarrow> ((go_error + nat) \<times> session) option" where
  "Open_recv r ch s =
     (case msg ch of
        m # ms \<Rightarrow> Some (open_verdict r m, put_chan r (ch\<lparr>msg := ms\<rparr>) s)
      | [] \<Rightarrow> if msg_closed ch then Some (Inl ErrClosed, s) else None)"

text \<open>
  The outcomes of \<^verbatim>\<open>onePacket\<close>: it returns; it waits for input; it waits in \<^verbatim>\<open>handleOpen\<close> to hand
  over the channel; it waits to send on the full \<^verbatim>\<open>msg\<close> of a channel; it panics.
\<close>

datatype packet_result =
    PRet "go_error option" session
  | PWait
  | POffer nat session
  | PSend nat Message session
  | PPanic

definition handleOpen :: "u32 \<Rightarrow> u32 \<Rightarrow> u32 \<Rightarrow> session \<Rightarrow> packet_result" where
  "handleOpen sid wsize maxp s =
     (if maxp < minPacketLength \<or> maxp > maxPacketLength
      then (case Encode (OpenFailureMessage sid) (enc s) of (err, w) \<Rightarrow> PRet err (s\<lparr>enc := w\<rparr>))
      else
        (case newChannel channelInbound s of (r, c, s1) \<Rightarrow>
           POffer r (put_chan r (c\<lparr>remoteId := sid, maxRemotePayload := maxp,
             remoteWin := snd (window_add wsize (remoteWin c)),
             maxIncomingPayload := channelMaxPacket\<rparr>) s1)))"

text \<open>The two cases of the select of \<^verbatim>\<open>handleOpen\<close>.\<close>

definition handleOpen_accepted :: "channel \<Rightarrow> session \<Rightarrow> go_error option \<times> session" where
  "handleOpen_accepted c s =
     (case Encode (OpenConfirmMessage (remoteId c) (localId c) (myWindow c) (maxIncomingPayload c)) (enc s) of
        (err, w) \<Rightarrow> (err, s\<lparr>enc := w\<rparr>))"

definition handleOpen_timeout :: "channel \<Rightarrow> session \<Rightarrow> go_error option \<times> session" where
  "handleOpen_timeout c s =
     (case Encode (OpenFailureMessage (remoteId c)) (enc s) of (err, w) \<Rightarrow> (err, s\<lparr>enc := w\<rparr>))"

definition after_handle :: "nat \<Rightarrow> session \<Rightarrow> handle_result \<Rightarrow> packet_result" where
  "after_handle r s h =
     (case h of
        HRet err ch cs w \<Rightarrow> PRet err (put_chan r ch (s\<lparr>chans := cs, enc := w\<rparr>))
      | HBlock m ch cs w \<Rightarrow> PSend r m (put_chan r ch (s\<lparr>chans := cs, enc := w\<rparr>))
      | HPanic \<Rightarrow> PPanic)"

definition onePacket :: "session \<Rightarrow> packet_result" where
  "onePacket s =
     (case Decode (dec s) of
        RdBlock \<Rightarrow> PWait
      | RdErr e rd \<Rightarrow> PRet (Some e) (s\<lparr>dec := rd\<rparr>)
      | RdOk m rd \<Rightarrow>
          let s1 = s\<lparr>dec := rd\<rparr>; (cid, isChan) = Channel m in
          if \<not> isChan then
            (case m of OpenMessage sid wsize maxp \<Rightarrow> handleOpen sid wsize maxp s1 | _ \<Rightarrow> PPanic)
          else
            (case chanList_getChan cid (chans s1) of
               None \<Rightarrow> PRet (Some (ErrorString (''qmux: invalid channel '' @ show_word cid))) s1
             | Some r \<Rightarrow>
                 (case heap s1 r of
                    None \<Rightarrow> PPanic
                  | Some ch \<Rightarrow> after_handle r s1 (handle m ch (chans s1) (enc s1)))))"

text \<open>The end of \<^verbatim>\<open>loop\<close>: take all channels out of the table, close them, then the transport.\<close>

definition close_ref :: "nat \<Rightarrow> session \<Rightarrow> session option" where
  "close_ref r s =
     (case heap s r of
        None \<Rightarrow> None
      | Some ch \<Rightarrow> map_option (\<lambda>ch'. put_chan r ch' s) (chan_close ch))"

fun close_refs :: "nat list \<Rightarrow> session \<Rightarrow> session option" where
  "close_refs [] s = Some s"
| "close_refs (r # rs) s = Option.bind (close_ref r s) (close_refs rs)"

definition loop_finish :: "go_error \<Rightarrow> session \<Rightarrow> session" where
  "loop_finish e s = s\<lparr>t_closed := True, closeCh := True, s_err := Some e\<rparr>"

definition loop_exit :: "go_error \<Rightarrow> session \<Rightarrow> session option" where
  "loop_exit e s =
     (case chanList_dropAll (chans s) of
        (rs, cs) \<Rightarrow> map_option (loop_finish e) (close_refs rs (s\<lparr>chans := cs\<rparr>)))"

section \<open>Interleavings\<close>

text \<open>Where the loop's goroutine stands.\<close>

datatype loop_pc =
    LRead                    \<comment> \<open>about to read a packet\<close>
  | LOffer nat               \<comment> \<open>in the select of handleOpen\<close>
  | LConfirm nat             \<comment> \<open>the channel is handed over, the confirmation not yet sent\<close>
  | LSend nat Message        \<comment> \<open>sending on the full msg of a channel\<close>
  | LExit go_error           \<comment> \<open>an error ended the for loop\<close>
  | LClosing "nat list" go_error  \<comment> \<open>closing the dropped channels\<close>
  | LDone
  | LPanic

record ssys =
  ss :: session
  pc :: loop_pc
  acceptors :: nat           \<comment> \<open>callers inside Accept\<close>
  accepted :: "nat list"     \<comment> \<open>channels Accept has returned\<close>
  openers :: "nat list"      \<comment> \<open>channels whose Open is in its select\<close>

definition ssys_init :: "reader \<Rightarrow> writer \<Rightarrow> ssys" where
  "ssys_init r w = \<lparr>ss = New r w, pc = LRead, acceptors = 0, accepted = [], openers = []\<rparr>"

definition loop_next :: "go_error option \<Rightarrow> loop_pc" where
  "loop_next err = (case err of None \<Rightarrow> LRead | Some e \<Rightarrow> LExit e)"

definition after_packet :: "packet_result \<Rightarrow> ssys \<Rightarrow> ssys" where
  "after_packet p s =
     (case p of
        PRet err s' \<Rightarrow> s\<lparr>ss := s', pc := loop_next err\<rparr>
      | PWait \<Rightarrow> s
      | POffer r s' \<Rightarrow> s\<lparr>ss := s', pc := LOffer r\<rparr>
      | PSend r m s' \<Rightarrow> s\<lparr>ss := s', pc := LSend r m\<rparr>
      | PPanic \<Rightarrow> s\<lparr>pc := LPanic\<rparr>)"

text \<open>The methods of a channel that the application calls, as changes of the channel and the writer.\<close>

inductive app_op :: "channel \<Rightarrow> writer \<Rightarrow> channel \<Rightarrow> writer \<Rightarrow> bool" where
  write_done: "chan_Write d ch w = Some (WDone n e ch' w') \<Longrightarrow> app_op ch w ch' w'"
| write_wait: "chan_Write d ch w = Some (WWait k d' n ch' w') \<Longrightarrow> app_op ch w ch' w'"
| resume_done: "write_resume k d n0 ch w = Some (WDone n e ch' w') \<Longrightarrow> app_op ch w ch' w'"
| resume_wait: "write_resume k d n0 ch w = Some (WWait k' d' n ch' w') \<Longrightarrow> app_op ch w ch' w'"
| read_done: "chan_Read k ch w = Some (CDone d e ch' w') \<Longrightarrow> app_op ch w ch' w'"
| read_wait: "chan_Read k ch w = Some (CWait ch') \<Longrightarrow> app_op ch w ch' w"
| close: "Close ch w = (e, ch', w') \<Longrightarrow> app_op ch w ch' w'"
| close_write: "CloseWrite ch w = (e, ch', w') \<Longrightarrow> app_op ch w ch' w'"

inductive sstep :: "ssys \<Rightarrow> ssys \<Rightarrow> bool" where
  packet: "pc s = LRead \<Longrightarrow> sstep s (after_packet (onePacket (ss s)) s)"
| hand_over: "pc s = LOffer r \<Longrightarrow> acceptors s = Suc k \<Longrightarrow>
    sstep s (s\<lparr>pc := LConfirm r, acceptors := k, accepted := r # accepted s\<rparr>)"
| confirm: "pc s = LConfirm r \<Longrightarrow> heap (ss s) r = Some c \<Longrightarrow> handleOpen_accepted c (ss s) = (err, s') \<Longrightarrow>
    sstep s (s\<lparr>ss := s', pc := loop_next err\<rparr>)"
| open_timeout: "pc s = LOffer r \<Longrightarrow> heap (ss s) r = Some c \<Longrightarrow> handleOpen_timeout c (ss s) = (err, s') \<Longrightarrow>
    sstep s (s\<lparr>ss := s', pc := loop_next err\<rparr>)"
| sent: "pc s = LSend r m \<Longrightarrow> heap (ss s) r = Some ch \<Longrightarrow> length (msg ch) < chanSize \<Longrightarrow> \<not> msg_closed ch \<Longrightarrow>
    sstep s (s\<lparr>ss := put_chan r (ch\<lparr>msg := msg ch @ [m]\<rparr>) (ss s), pc := LRead\<rparr>)"
| sent_panic: "pc s = LSend r m \<Longrightarrow> heap (ss s) r = Some ch \<Longrightarrow> msg_closed ch \<Longrightarrow> sstep s (s\<lparr>pc := LPanic\<rparr>)"
| drop: "pc s = LExit e \<Longrightarrow> chanList_dropAll (chans (ss s)) = (rs, cs) \<Longrightarrow>
    sstep s (s\<lparr>ss := (ss s)\<lparr>chans := cs\<rparr>, pc := LClosing rs e\<rparr>)"
| close_one: "pc s = LClosing (r # rs) e \<Longrightarrow> close_ref r (ss s) = Some s' \<Longrightarrow>
    sstep s (s\<lparr>ss := s', pc := LClosing rs e\<rparr>)"
| close_panic: "pc s = LClosing (r # rs) e \<Longrightarrow> close_ref r (ss s) = None \<Longrightarrow> sstep s (s\<lparr>pc := LPanic\<rparr>)"
| finish: "pc s = LClosing [] e \<Longrightarrow> sstep s (s\<lparr>ss := loop_finish e (ss s), pc := LDone\<rparr>)"
| accept_call: "sstep s (s\<lparr>acceptors := Suc (acceptors s)\<rparr>)"
| accept_eof: "acceptors s = Suc k \<Longrightarrow> closeCh (ss s) \<Longrightarrow>
    sstep s (s\<lparr>ss := (ss s)\<lparr>closeCh := False\<rparr>, acceptors := k\<rparr>)"
| open_call: "Open_send (ss s) = (err, r, s') \<Longrightarrow>
    sstep s (s\<lparr>ss := s', openers := (if err = None then r # openers s else openers s)\<rparr>)"
| open_return: "r \<in> set (openers s) \<Longrightarrow> heap (ss s) r = Some ch \<Longrightarrow> Open_recv r ch (ss s) = Some (v, s') \<Longrightarrow>
    sstep s (s\<lparr>ss := s', openers := remove1 r (openers s)\<rparr>)"
| open_cancel: "r \<in> set (openers s) \<Longrightarrow> sstep s (s\<lparr>openers := remove1 r (openers s)\<rparr>)"
| app: "heap (ss s) r = Some ch \<Longrightarrow> app_op ch (enc (ss s)) ch' w' \<Longrightarrow>
    sstep s (s\<lparr>ss := put_chan r ch' ((ss s)\<lparr>enc := w'\<rparr>)\<rparr>)"
| session_close: "sstep s (s\<lparr>ss := snd (session_Close (ss s))\<rparr>)"
| input: "rd_end (dec (ss s)) = None \<Longrightarrow>
    sstep s (s\<lparr>ss := (ss s)\<lparr>dec := \<lparr>rd_buf = rd_buf (dec (ss s)) @ bs, rd_end = e\<rparr>\<rparr>\<rparr>)"
| transport: "sstep s (s\<lparr>ss := (ss s)\<lparr>enc := \<lparr>wr_buf = out, wr_fail = f\<rparr>\<rparr>\<rparr>)"

text \<open>Reachable states, in runs in which the table never holds 2^32 - 1 slots.\<close>

inductive sreach :: "reader \<Rightarrow> writer \<Rightarrow> ssys \<Rightarrow> bool" for rd w where
  init: "sreach rd w (ssys_init rd w)"
| step: "sreach rd w s \<Longrightarrow> sstep s s' \<Longrightarrow> has_room (chans (ss s')) \<Longrightarrow> sreach rd w s'"

inductive_cases app_opE: "app_op ch w ch' w'"

section \<open>What the channel operations keep\<close>

text \<open>
  Every operation of a channel except its teardown keeps the id, the state of \<^verbatim>\<open>msg\<close> and the
  channel's invariant.
\<close>

definition keeps :: "channel \<Rightarrow> channel \<Rightarrow> bool" where
  "keeps ch ch' \<longleftrightarrow> localId ch' = localId ch \<and> msg_closed ch' = msg_closed ch
     \<and> (chan_inv ch \<longrightarrow> chan_inv ch')"

lemma keeps_refl [simp]: "keeps ch ch"
  by (simp add: keeps_def)

lemma keeps_remoteWin: "w_closed rw = w_closed (remoteWin ch) \<Longrightarrow> keeps ch (ch\<lparr>remoteWin := rw\<rparr>)"
  by (simp add: keeps_def chan_inv_def)

lemma send_keeps: "send m ch w = (e, ch', w') \<Longrightarrow> keeps ch ch'"
  using send_inv [of ch m w] by (auto simp: keeps_def elim: send_channel)

fun result_channel :: "write_result \<Rightarrow> channel" where
  "result_channel (WDone n e ch w) = ch"
| "result_channel (WWait k d n ch w) = ch"

definition only_window :: "channel \<Rightarrow> channel \<Rightarrow> bool" where
  "only_window ch ch' \<longleftrightarrow> (\<exists>rw. ch' = ch\<lparr>remoteWin := rw\<rparr> \<and> w_closed rw = w_closed (remoteWin ch))"

lemma only_window_keeps: "only_window ch ch' \<Longrightarrow> keeps ch ch'"
  by (auto simp: only_window_def keeps_remoteWin)

lemma only_window_refl: "only_window ch ch"
  by (cases ch) (auto simp: only_window_def)

lemma only_windowI: "w_closed rw = w_closed (remoteWin ch) \<Longrightarrow> only_window ch (ch\<lparr>remoteWin := rw\<rparr>)"
  by (auto simp: only_window_def)

lemma only_window_trans: "only_window a b \<Longrightarrow> only_window b c \<Longrightarrow> only_window a c"
  by (auto simp: only_window_def)

lemma write_chunk_channel:
  assumes "w_closed rw = w_closed (remoteWin ch)"
  shows "case write_chunk (m, e, rw) d n ch w of Stop n1 e1 ch1 w1 \<Rightarrow> only_window ch ch1
    | More d1 n1 ch1 w1 \<Rightarrow> only_window ch ch1"
  using assms by (auto simp: write_chunk_def only_window_def Let_def split: option.splits prod.splits)

lemma write_loop_channel:
  assumes "write_loop d n ch w = Some r"
  shows "only_window ch (result_channel r)"
proof (rule write_loop.raw_induct [where P = "\<lambda>d n ch w r. only_window ch (result_channel r)", OF _ assms])
  fix f d n ch w r
  assume IH: "\<And>d n ch w r. f d n ch w = Some r \<Longrightarrow> only_window ch (result_channel r)"
    and body: "(if d = [] then Some (WDone n None ch w)
      else let space = chan_min (maxRemotePayload ch) (length d) in
         case reserve space (remoteWin ch) of
           None \<Rightarrow> Some (WWait space d n (ch\<lparr>remoteWin := reserve_enter (remoteWin ch)\<rparr>) w)
         | Some r \<Rightarrow>
             (case write_chunk r d n ch w of
                Stop n1 e ch1 w1 \<Rightarrow> Some (WDone n1 (Some e) ch1 w1)
              | More d1 n1 ch1 w1 \<Rightarrow> f d1 n1 ch1 w1)) = Some r"
  have new: "only_window ch (case write_chunk (m, e, rw) d n ch w of Stop n1 e1 ch1 w1 \<Rightarrow> ch1
      | More d1 n1 ch1 w1 \<Rightarrow> ch1)" if "reserve k (remoteWin ch) = Some (m, e, rw)" for k m e rw
    using sw.tk_Some [OF that] write_chunk_channel [of rw ch m e d n w] by (auto split: chunk_result.splits)
  show "only_window ch (result_channel r)"
    using body by (auto simp: Let_def only_window_refl only_windowI
      split: if_splits option.splits chunk_result.splits dest!: IH new intro: only_window_trans)
qed

lemma write_resume_channel:
  assumes "write_resume k d n ch w = Some r"
  shows "only_window ch (result_channel r)"
proof (cases "reserve_wake k (remoteWin ch)")
  case None
  with assms show ?thesis by (auto simp: write_resume_def only_window_refl)
next
  case (Some x)
  obtain m e rw where x: "x = (m, e, rw)" by (cases x)
  with Some reserve_wake_Some [of k "remoteWin ch" m e rw] write_chunk_channel [of rw ch m e d n w] assms
  show ?thesis
    by (auto simp: write_resume_def split: chunk_result.splits dest!: write_loop_channel
        intro: only_window_trans)
qed

fun read_channel :: "chan_read \<Rightarrow> channel option" where
  "read_channel (CDone d e ch w) = Some ch"
| "read_channel (CWait ch) = Some ch"
| "read_channel CPanic = None"

lemma chan_Read_ids:
  assumes "chan_Read k ch w = Some r" and "read_channel r = Some ch'"
  shows "localId ch' = localId ch \<and> msg_closed ch' = msg_closed ch \<and> msg ch' = msg ch"
proof (cases "buffer_Read k (pending ch)")
  case (Some x)
  show ?thesis
  proof (cases x)
    case (RDone d e b)
    obtain e' ch2 w' where a: "adjustWindow (of_nat (length d)) (ch\<lparr>pending := b\<rparr>) w = (e', ch2, w')"
      by (cases "adjustWindow (of_nat (length d)) (ch\<lparr>pending := b\<rparr>) w")
    then have "localId ch2 = localId ch \<and> msg_closed ch2 = msg_closed ch \<and> msg ch2 = msg ch"
      unfolding adjustWindow_def by (elim send_channel) simp
    with assms Some RDone a show ?thesis by (auto simp: chan_Read_def Let_def split: if_splits)
  qed (use assms Some in \<open>auto simp: chan_Read_def\<close>)
qed (use assms in \<open>simp add: chan_Read_def\<close>)

lemma chan_Read_keeps:
  assumes "chan_Read k ch w = Some r" and "read_channel r = Some ch'"
  shows "keeps ch ch'"
  using chan_Read_ids [OF assms] chan_Read_inv [of ch k w] assms
  by (cases r) (auto simp: keeps_def)

lemma app_op_keeps: "app_op ch w ch' w' \<Longrightarrow> keeps ch ch'"
proof (induction rule: app_op.induct)
  case (close_write ch w e ch' w')
  have "keeps ch (ch\<lparr>sentEOF := True\<rparr>)" by (simp add: keeps_def chan_inv_def)
  moreover from close_write have "keeps (ch\<lparr>sentEOF := True\<rparr>) ch'" unfolding CloseWrite_def by (rule send_keeps)
  ultimately show ?case by (simp add: keeps_def)
qed (auto simp: Close_def chan_Write_def split: if_splits dest: write_loop_channel write_resume_channel
      intro: send_keeps chan_Read_keeps dest!: only_window_keeps)

text \<open>What \<^verbatim>\<open>handle\<close> does to the id, the table and \<^verbatim>\<open>msg\<close>.\<close>

lemma chan_close_Some:
  "chan_close ch = Some ch' \<longleftrightarrow> \<not> msg_closed ch \<and> ch' = ch\<lparr>pending := buffer_eof (pending ch),
     msg_closed := True, sentClose := True, remoteWin := window_close (remoteWin ch)\<rparr>"
  by (auto simp: chan_close_def Let_def)

lemma handle_table:
  assumes "Channel m = (localId ch, True)" and "\<not> msg_closed ch"
  shows "case handle m ch cs w of
      HRet e ch' cs' w' \<Rightarrow> localId ch' = localId ch \<and> (cs' = cs \<or> cs' = chanList_remove (localId ch) cs)
        \<and> (msg_closed ch' \<longrightarrow> cs' = chanList_remove (localId ch) cs)
    | HBlock m' ch' cs' w' \<Rightarrow> localId ch' = localId ch \<and> \<not> msg_closed ch'
        \<and> (cs' = cs \<or> cs' = chanList_remove (localId ch) cs)
    | HPanic \<Rightarrow> True"
  using assms
  by (cases m) (auto simp: handle_def msg_send_def handleData_def chan_close_Some
      split: option.splits prod.splits if_splits elim!: send_channel)

section \<open>The invariant of the session\<close>

definition live :: "session \<Rightarrow> nat \<Rightarrow> bool" where
  "live s r \<longleftrightarrow> (\<exists>ch. heap s r = Some ch \<and> \<not> msg_closed ch)"

definition tabled :: "session \<Rightarrow> nat \<Rightarrow> bool" where
  "tabled s r \<longleftrightarrow> (\<exists>i. chanList_getChan i (chans s) = Some r)"

interpretation reg: registry chanList_getChan chanList_add chanList_remove chanList_dropAll has_room
    localId "msg_closed :: channel \<Rightarrow> bool" ..

definition sess_inv :: "session \<Rightarrow> bool" where
  "sess_inv s \<longleftrightarrow> reg.consistent (chans s) (heap s) (next_ref s)
     \<and> (\<forall>r ch. heap s r = Some ch \<longrightarrow> chan_inv ch)"

fun pc_inv :: "loop_pc \<Rightarrow> session \<Rightarrow> bool" where
  "pc_inv (LOffer r) s = (heap s r \<noteq> None)"
| "pc_inv (LConfirm r) s = (heap s r \<noteq> None)"
| "pc_inv (LSend r m) s = live s r"
| "pc_inv (LClosing rs e) s = (distinct rs \<and> (\<forall>r \<in> set rs. live s r \<and> \<not> tabled s r))"
| "pc_inv LPanic s = False"
| "pc_inv _ s = True"

lemma sess_invD:
  assumes "sess_inv s"
  shows "has_room (chans s)" and "heap s r = None \<longleftrightarrow> next_ref s \<le> r"
    and "heap s r = Some ch \<Longrightarrow> chan_inv ch"
    and "chanList_getChan i (chans s) = Some r \<Longrightarrow>
          \<exists>ch. heap s r = Some ch \<and> localId ch = i \<and> \<not> msg_closed ch"
  using assms reg.consistentD [of "chans s" "heap s" "next_ref s"] by (simp_all add: sess_inv_def)

lemma sess_inv_fields [simp]:
  "sess_inv (s\<lparr>enc := w\<rparr>) = sess_inv s" "sess_inv (s\<lparr>dec := rd\<rparr>) = sess_inv s"
  "sess_inv (s\<lparr>closeCh := b\<rparr>) = sess_inv s" "sess_inv (s\<lparr>t_closed := b\<rparr>) = sess_inv s"
  by (simp_all add: sess_inv_def)

lemma pc_inv_fields [simp]:
  "pc_inv p (s\<lparr>enc := w\<rparr>) = pc_inv p s" "pc_inv p (s\<lparr>dec := rd\<rparr>) = pc_inv p s"
  "pc_inv p (s\<lparr>closeCh := b\<rparr>) = pc_inv p s" "pc_inv p (s\<lparr>t_closed := b\<rparr>) = pc_inv p s"
  by (cases p; simp add: live_def tabled_def)+

lemma put_chan_simps [simp]:
  "chans (put_chan r ch s) = chans s" "heap (put_chan r ch s) = (heap s)(r \<mapsto> ch)"
  "next_ref (put_chan r ch s) = next_ref s" "enc (put_chan r ch s) = enc s" "dec (put_chan r ch s) = dec s"
  "t_closed (put_chan r ch s) = t_closed s" "closeCh (put_chan r ch s) = closeCh s" "s_err (put_chan r ch s) = s_err s"
  by (simp_all add: put_chan_def)

lemma put_chan_inv:
  assumes "sess_inv s" and "heap s r = Some ch" and "keeps ch ch'" and "chans s' = chans s"
    and "next_ref s' = next_ref s" and "heap s' = (heap s)(r \<mapsto> ch')"
  shows "sess_inv s' \<and> (pc_inv p s \<longrightarrow> pc_inv p s')"
proof
  show "sess_inv s'"
    using assms reg.consistent_put [of "chans s" "heap s" "next_ref s" r ch ch'] by (auto simp: sess_inv_def keeps_def)
  show "pc_inv p s \<longrightarrow> pc_inv p s'" using assms by (cases p) (auto simp: live_def tabled_def keeps_def)
qed

lemma remove_inv:
  assumes "sess_inv s" and "heap s r = Some ch" and "chan_inv ch'" and "localId ch' = localId ch"
    and "chans s' = chanList_remove (localId ch) (chans s)"
    and "next_ref s' = next_ref s" and "heap s' = (heap s)(r \<mapsto> ch')"
  shows "sess_inv s'"
  using assms reg.consistent_rem [of "chans s" "heap s" "next_ref s" r ch ch'] by (auto simp: sess_inv_def)

lemma newChannel_inv:
  assumes "sess_inv s" and "newChannel dir s = (r, ch, s1)" and "has_room (chans s1)"
  shows "sess_inv s1 \<and> heap s1 r = Some ch \<and> (pc_inv p s \<longrightarrow> pc_inv p s1)"
proof -
  note D = sess_invD [OF assms(1)]
  obtain cid cs where add: "chanList_add (next_ref s) (chans s) = (cid, cs)"
    by (cases "chanList_add (next_ref s) (chans s)")
  from assms(2) add have r: "r = next_ref s" and ch: "localId ch = cid" "\<not> msg_closed ch" "chan_inv ch"
    and s1: "chans s1 = cs" "next_ref s1 = r + 1" "heap s1 = (heap s)(r \<mapsto> ch)"
    by (auto simp: newChannel_def Let_def chan_inv_def window_new_def)
  have none: "heap s r = None" using D(2) r by simp
  have "sess_inv s1"
    using assms(1,3) reg.consistent_new [of "chans s" "heap s" "next_ref s" cid cs ch] add s1 r ch by (auto simp: sess_inv_def)
  moreover have "pc_inv p s \<longrightarrow> pc_inv p s1"
    using s1 none ct.get_add [OF D(1) add] r by (cases p) (auto simp: live_def tabled_def)
  ultimately show ?thesis using s1 by simp
qed

lemma Open_send_inv:
  assumes "sess_inv s" and "Open_send s = (err, r, s')" and "has_room (chans s')"
  shows "sess_inv s' \<and> (pc_inv p s \<longrightarrow> pc_inv p s')"
proof -
  obtain r1 ch s1 where n: "newChannel channelOutbound s = (r1, ch, s1)"
    by (cases "newChannel channelOutbound s")
  let ?ch = "ch\<lparr>maxIncomingPayload := channelMaxPacket\<rparr>"
  from assms(2) n have s': "chans s' = chans s1" "next_ref s' = next_ref s1" "heap s' = (heap s1)(r1 \<mapsto> ?ch)"
    by (auto simp: Open_send_def Let_def split: prod.splits)
  have "keeps ch ?ch" by (simp add: keeps_def chan_inv_def)
  with newChannel_inv [OF assms(1) n, of p] assms(3) s' show ?thesis
    using put_chan_inv [of s1 r1 ch ?ch s' p] by simp
qed

fun packet_inv :: "packet_result \<Rightarrow> bool" where
  "packet_inv (PRet err s') = (has_room (chans s') \<longrightarrow> sess_inv s')"
| "packet_inv PWait = True"
| "packet_inv (POffer r s') = (has_room (chans s') \<longrightarrow> sess_inv s' \<and> heap s' r \<noteq> None)"
| "packet_inv (PSend r m s') = (sess_inv s' \<and> live s' r)"
| "packet_inv PPanic = False"

lemma handleOpen_inv:
  assumes "sess_inv s"
  shows "packet_inv (handleOpen sid wsize maxp s)"
proof (cases "maxp < minPacketLength \<or> maxp > maxPacketLength")
  case True
  then show ?thesis using assms by (auto simp: handleOpen_def split: prod.splits)
next
  case False
  obtain r c s1 where n: "newChannel channelInbound s = (r, c, s1)" by (cases "newChannel channelInbound s")
  let ?c = "c\<lparr>remoteId := sid, maxRemotePayload := maxp,
    remoteWin := snd (window_add wsize (remoteWin c)), maxIncomingPayload := channelMaxPacket\<rparr>"
  have "keeps c ?c" by (simp add: keeps_def chan_inv_def window_add_closed)
  then have "sess_inv (put_chan r ?c s1)" if "has_room (chans s1)"
    using put_chan_inv [of s1 r c ?c] newChannel_inv [OF assms n that] by simp
  with False n show ?thesis by (simp add: handleOpen_def)
qed

lemma after_handle_inv:
  assumes inv: "sess_inv s" and "chanList_getChan cid (chans s) = Some r" and ch: "heap s r = Some ch"
    and m: "Channel m = (cid, True)" and "frame_ok m"
  shows "packet_inv (after_handle r s (handle m ch (chans s) (enc s)))"
proof -
  have id: "localId ch = cid" and op: "\<not> msg_closed ch" using sess_invD(4) [OF inv assms(2)] ch by auto
  have c: "chan_inv ch" by (rule sess_invD(3) [OF inv ch])
  note h = handle_inv [OF c assms(5) op, of "chans s" "enc s"]
    handle_table [of m ch "chans s" "enc s", OF _ op, unfolded id, OF m]
  show ?thesis
  proof (cases "handle m ch (chans s) (enc s)")
    case (HRet e ch' cs' w')
    let ?s = "put_chan r ch' (s\<lparr>chans := cs', enc := w'\<rparr>)"
    from h HRet have h: "chan_inv ch'" "localId ch' = localId ch"
      "cs' = chans s \<and> \<not> msg_closed ch' \<or> cs' = chanList_remove (localId ch) (chans s)" using id by auto
    then have "sess_inv ?s"
      using put_chan_inv [OF inv ch, of ch' ?s] remove_inv [OF inv ch, of ch' ?s] op by (auto simp: keeps_def)
    with HRet show ?thesis by (simp add: after_handle_def)
  next
    case (HBlock m' ch' cs' w')
    let ?s = "put_chan r ch' (s\<lparr>chans := cs', enc := w'\<rparr>)"
    from h HBlock have h: "chan_inv ch'" "localId ch' = localId ch" "\<not> msg_closed ch'"
      "cs' = chans s \<or> cs' = chanList_remove (localId ch) (chans s)" using id by auto
    then have "sess_inv ?s"
      using put_chan_inv [OF inv ch, of ch' ?s] remove_inv [OF inv ch, of ch' ?s] op by (auto simp: keeps_def)
    with HBlock h show ?thesis by (simp add: after_handle_def live_def)
  qed (use h in simp)
qed

lemma onePacket_inv:
  assumes "sess_inv s"
  shows "packet_inv (onePacket s)"
proof (cases "Decode (dec s)")
  case (RdOk m rd)
  let ?s = "s\<lparr>dec := rd\<rparr>"
  have inv: "sess_inv ?s" using assms by simp
  obtain cid isChan where m: "Channel m = (cid, isChan)" by (cases "Channel m")
  show ?thesis
  proof (cases isChan)
    case True
    show ?thesis
    proof (cases "chanList_getChan cid (chans s)")
      case (Some r)
      then obtain ch where "heap s r = Some ch" using sess_invD(4) [OF assms] by blast
      with after_handle_inv [OF inv, of cid r ch m] Some RdOk m True Decode_RdOkD [OF RdOk]
      show ?thesis by (simp add: onePacket_def)
    qed (use RdOk m True inv in \<open>simp add: onePacket_def\<close>)
  next
    case False
    with m obtain sid wsize maxp where "m = OpenMessage sid wsize maxp" by (cases m) auto
    with RdOk handleOpen_inv [OF inv] show ?thesis by (simp add: onePacket_def)
  qed
next
  case (RdErr e rd)
  then show ?thesis using assms by (simp add: onePacket_def)
qed (simp add: onePacket_def)

text \<open>The teardown: each dropped channel is live and is closed once.\<close>

lemma close_ref_spec:
  assumes "sess_inv s" and "live s r" and "\<not> tabled s r"
  shows "\<exists>ch ch'. heap s r = Some ch \<and> chan_close ch = Some ch' \<and> close_ref r s = Some (put_chan r ch' s)
    \<and> sess_inv (put_chan r ch' s)"
proof -
  from assms(2) obtain ch ch' where ch: "heap s r = Some ch" and cl: "chan_close ch = Some ch'"
    by (auto simp: live_def chan_close_Some)
  have "sess_inv (put_chan r ch' s)"
    using assms(1,3) reg.consistent_untabled [of "chans s" "heap s" "next_ref s" r ch ch'] ch
      chan_close_inv [OF sess_invD(3) [OF assms(1) ch] cl] by (auto simp: sess_inv_def tabled_def)
  with ch cl show ?thesis by (simp add: close_ref_def)
qed

text \<open>All the operations of the loop, of \<^verbatim>\<open>Open\<close> and of the application together.\<close>

definition ssys_inv :: "ssys \<Rightarrow> bool" where
  "ssys_inv s \<longleftrightarrow> sess_inv (ss s) \<and> pc_inv (pc s) (ss s)"

lemma after_packet_inv:
  assumes "sess_inv (ss s)" and "pc s = LRead" and "has_room (chans (ss (after_packet (onePacket (ss s)) s)))"
  shows "ssys_inv (after_packet (onePacket (ss s)) s)"
  using onePacket_inv [OF assms(1)] assms
  by (cases "onePacket (ss s)") (auto simp: after_packet_def ssys_inv_def loop_next_def split: option.splits)

lemma Open_recv_inv:
  assumes "Open_recv r ch s = Some (v, s')" and "heap s r = Some ch" and "sess_inv s"
  shows "sess_inv s' \<and> (pc_inv p s \<longrightarrow> pc_inv p s')"
proof (cases "msg ch")
  case (Cons m ms)
  have "keeps ch (ch\<lparr>msg := ms\<rparr>)" using Cons by (auto simp: keeps_def chan_inv_def)
  from put_chan_inv [OF assms(3,2) this, of s' p] assms(1) Cons show ?thesis by (auto simp: Open_recv_def)
qed (use assms in \<open>auto simp: Open_recv_def split: if_splits\<close>)

lemma handleOpen_reply_inv:
  "handleOpen_accepted c s = (err, s') \<Longrightarrow> sess_inv s' = sess_inv s"
  "handleOpen_timeout c s = (err, s') \<Longrightarrow> sess_inv s' = sess_inv s"
  by (auto simp: handleOpen_accepted_def handleOpen_timeout_def split: prod.splits)

lemma pc_inv_loop_next [simp]: "pc_inv (loop_next err) s"
  by (simp add: loop_next_def split: option.splits)

lemma drop_inv:
  assumes "sess_inv s" and "chanList_dropAll (chans s) = (rs, cs)"
  shows "sess_inv (s\<lparr>chans := cs\<rparr>) \<and> distinct rs \<and> (\<forall>r \<in> set rs. live s r) \<and> cs = []
    \<and> set rs = {r. tabled s r}"
proof -
  have cs: "cs = []" using assms(2) by (simp add: chanList_dropAll_def)
  have rs: "set rs = {r. tabled s r}"
    using ct.set_drop [OF sess_invD(1) [OF assms(1)]] assms(2) by (simp add: tabled_def)
  moreover have "sess_inv (s\<lparr>chans := []\<rparr>)" "distinct rs" "\<forall>r \<in> set rs. live s r"
    using assms reg.consistent_drop [of "chans s" "heap s" "next_ref s"] cs by (auto simp: sess_inv_def live_def)
  ultimately show ?thesis using cs by simp
qed

lemma sstep_inv:
  assumes "sstep s s'" and "ssys_inv s" and "has_room (chans (ss s'))"
  shows "ssys_inv s'"
  using assms
proof (induction rule: sstep.induct)
  case (packet s)
  then show ?case by (intro after_packet_inv) (simp_all add: ssys_inv_def)
next
  case (sent s r m ch)
  have "keeps ch (ch\<lparr>msg := msg ch @ [m]\<rparr>)" using sent by (auto simp: keeps_def chan_inv_def)
  with put_chan_inv [of "ss s" r ch "ch\<lparr>msg := msg ch @ [m]\<rparr>" "put_chan r (ch\<lparr>msg := msg ch @ [m]\<rparr>) (ss s)" LRead] sent
  show ?case by (simp add: ssys_inv_def)
next
  case (drop s e rs cs)
  then have "sess_inv (ss s)" by (simp add: ssys_inv_def)
  from drop_inv [OF this drop(2)] show ?case
    by (auto simp: ssys_inv_def live_def tabled_def chanList_getChan_def)
next
  case (close_one s r rs e s')
  then have inv: "sess_inv (ss s)" "live (ss s) r" "\<not> tabled (ss s) r" and rs: "pc_inv (LClosing rs e) (ss s)" "r \<notin> set rs"
    by (simp_all add: ssys_inv_def)
  from close_ref_spec [OF inv] close_one(2) rs show ?case by (auto simp: ssys_inv_def live_def tabled_def)
next
  case (close_panic s r rs e)
  then show ?case using close_ref_spec [of "ss s" r] by (auto simp: ssys_inv_def)
next
  case (finish s e)
  then show ?case by (simp add: ssys_inv_def sess_inv_def loop_finish_def)
next
  case (open_call s err r s')
  then show ?case using Open_send_inv [of "ss s" err r s'] by (simp add: ssys_inv_def)
next
  case (open_return r s ch v s')
  then show ?case using Open_recv_inv [of r ch "ss s" v s'] by (simp add: ssys_inv_def)
next
  case (app s r ch ch' w')
  then show ?case
    using put_chan_inv [of "ss s" r ch ch' "put_chan r ch' ((ss s)\<lparr>enc := w'\<rparr>)"] app_op_keeps [OF app(2)]
    by (simp add: ssys_inv_def)
qed (auto simp: ssys_inv_def live_def session_Close_def handleOpen_reply_inv)

lemma New_inv: "sess_inv (New rd w)"
  by (simp add: sess_inv_def New_def reg.consistent_def has_room_def chanList_getChan_def)

lemma sreach_inv: "sreach rd w s \<Longrightarrow> ssys_inv s"
proof (induction rule: sreach.induct)
  case init
  show ?case by (simp add: ssys_inv_def ssys_init_def New_inv)
qed (rule sstep_inv)

section \<open>The end of the loop\<close>

lemma close_refs_spec:
  assumes "sess_inv s" and "distinct rs" and "\<forall>r \<in> set rs. live s r \<and> \<not> tabled s r"
  shows "\<exists>s'. close_refs rs s = Some s' \<and> sess_inv s' \<and> chans s' = chans s
    \<and> (\<forall>r. heap s' r = (if r \<in> set rs then Option.bind (heap s r) chan_close else heap s r))"
  using assms
proof (induction rs arbitrary: s)
  case (Cons r rs)
  from close_ref_spec [of s r] Cons.prems obtain ch ch' where
    r: "heap s r = Some ch" "chan_close ch = Some ch'" "close_ref r s = Some (put_chan r ch' s)"
    and inv: "sess_inv (put_chan r ch' s)" by auto
  have "\<forall>q \<in> set rs. live (put_chan r ch' s) q \<and> \<not> tabled (put_chan r ch' s) q"
    using Cons.prems(2,3) by (auto simp: live_def tabled_def)
  with Cons.IH [OF inv] Cons.prems(2) obtain s' where
    IH: "close_refs rs (put_chan r ch' s) = Some s'" "sess_inv s'" "chans s' = chans s"
      "\<forall>q. heap s' q = (if q \<in> set rs then Option.bind (heap (put_chan r ch' s) q) chan_close
                        else heap (put_chan r ch' s) q)" by auto
  then show ?case using r Cons.prems(2) by (intro exI [of _ s']) auto
qed simp

lemma loop_exit_closes:
  assumes "sess_inv s"
  shows "\<exists>s'. loop_exit e s = Some s' \<and> sess_inv s' \<and> chans s' = [] \<and> t_closed s' \<and> closeCh s' \<and> s_err s' = Some e
    \<and> (\<forall>r. heap s' r = (if tabled s r then Option.bind (heap s r) chan_close else heap s r))"
proof -
  obtain rs cs where d: "chanList_dropAll (chans s) = (rs, cs)" by (cases "chanList_dropAll (chans s)")
  note D = drop_inv [OF assms d]
  then have "\<forall>r \<in> set rs. live (s\<lparr>chans := cs\<rparr>) r \<and> \<not> tabled (s\<lparr>chans := cs\<rparr>) r"
    by (auto simp: live_def tabled_def chanList_getChan_def)
  with close_refs_spec [of "s\<lparr>chans := cs\<rparr>" rs] D obtain s' where
    "close_refs rs (s\<lparr>chans := cs\<rparr>) = Some s'" "sess_inv s'" "chans s' = []"
    "\<forall>r. heap s' r = (if tabled s r then Option.bind (heap s r) chan_close else heap s r)" by auto
  then show ?thesis using d by (auto simp: loop_exit_def loop_finish_def sess_inv_def)
qed

text \<open>Nobody answers an \<^verbatim>\<open>Open\<close> whose channel came into the table after \<^verbatim>\<open>dropAll\<close>.\<close>

fun exiting :: "nat \<Rightarrow> loop_pc \<Rightarrow> bool" where
  "exiting r (LClosing rs e) = (r \<notin> set rs)"
| "exiting r LDone = True"
| "exiting r LPanic = True"
| "exiting r _ = False"

definition unanswered :: "nat \<Rightarrow> ssys \<Rightarrow> bool" where
  "unanswered r s \<longleftrightarrow> exiting r (pc s) \<and> r < next_ref (ss s)
     \<and> (\<exists>ch. heap (ss s) r = Some ch \<and> msg ch = [] \<and> \<not> msg_closed ch)"

lemma app_op_msg: "app_op ch w ch' w' \<Longrightarrow> msg ch' = msg ch"
proof (induction rule: app_op.induct)
  case (read_done k ch w d e ch' w')
  from chan_Read_ids [OF this] show ?case by simp
next
  case (read_wait k ch w ch')
  from chan_Read_ids [OF this] show ?case by simp
qed (auto simp: Close_def CloseWrite_def chan_Write_def only_window_def
      split: if_splits dest!: write_loop_channel write_resume_channel elim!: send_channel)

lemma unanswered_step:
  assumes "sstep s s'" and "unanswered r s"
  shows "unanswered r s'"
  using assms
proof (induction rule: sstep.induct)
  case (open_call s err r' s')
  then show ?case
    by (auto simp: unanswered_def Open_send_def newChannel_def Let_def split: prod.splits)
next
  case (app s r' ch ch' w')
  then show ?case using app_op_msg [OF app(2)] app_op_keeps [OF app(2)] by (auto simp: unanswered_def keeps_def)
next
  case (close_one s r' rs e s')
  then show ?case by (auto simp: unanswered_def close_ref_def split: option.splits)
next
  case (open_return r' s ch v s')
  then show ?case by (auto simp: unanswered_def Open_recv_def split: list.splits if_splits)
qed (auto simp: unanswered_def loop_finish_def session_Close_def)

text \<open>
  A data frame behind the close frame of its channel: the close frame takes the channel out of the
  table, and a frame for an id that is not there is an error of the loop.
\<close>

lemma onePacket_data_after_close:
  assumes "sess_inv s" and "chanList_getChan i (chans s) = Some r" and "length d = unat len"
    and "dec s = \<lparr>rd_buf = Bytes (CloseMessage i) @ Bytes (DataMessage i len d) @ rest, rd_end = e\<rparr>"
  shows "\<exists>s1 s2. onePacket s = PRet None s1
    \<and> onePacket s1 = PRet (Some (ErrorString (''qmux: invalid channel '' @ show_word i))) s2"
proof -
  note D = sess_invD [OF assms(1)]
  from D(4) [OF assms(2)] obtain ch where ch: "heap s r = Some ch" "localId ch = i" "\<not> msg_closed ch" by blast
  let ?rd = "\<lparr>rd_buf = Bytes (DataMessage i len d) @ rest, rd_end = e\<rparr>"
  have d1: "Decode (dec s) = RdOk (CloseMessage i) ?rd"
    unfolding assms(4) by (rule Decode_Bytes) (simp add: frame_ok_def)
  obtain err ch1 w1 where snd: "send (CloseMessage (remoteId ch)) ch (enc s) = (err, ch1, w1)"
    by (cases "send (CloseMessage (remoteId ch)) ch (enc s)")
  then have "\<not> msg_closed ch1" using ch(3) by (auto elim: send_channel)
  then obtain ch2 where "chan_close ch1 = Some ch2" by (auto simp: chan_close_Some)
  with snd have "handle (CloseMessage i) ch (chans s) (enc s) = HRet None ch2 (chanList_remove i (chans s)) w1"
    using ch(2) by (simp add: handle_def)
  with d1 assms(2) ch have p1: "onePacket s = PRet None
      (put_chan r ch2 (s\<lparr>dec := ?rd, chans := chanList_remove i (chans s), enc := w1\<rparr>))"
    by (simp add: onePacket_def after_handle_def)
  have "Decode ?rd = RdOk (DataMessage i len d) \<lparr>rd_buf = rest, rd_end = e\<rparr>"
    by (rule Decode_Bytes) (simp add: frame_ok_def assms(3))
  then show ?thesis unfolding p1 by (simp add: onePacket_def ct.get_rem [OF D(1)])
qed

text \<open>A session on an idle transport whose loop has ended with an error, for the witnesses.\<close>

definition idle_reader :: reader where "idle_reader = \<lparr>rd_buf = [], rd_end = Some EOF\<rparr>"
definition idle_writer :: writer where "idle_writer = \<lparr>wr_buf = [], wr_fail = None\<rparr>"

definition ended_system :: ssys where
  "ended_system = (ssys_init idle_reader idle_writer)\<lparr>pc := LClosing [] EOF\<rparr>"

lemma ended_system_reach: "sreach idle_reader idle_writer ended_system"
proof -
  let ?s0 = "ssys_init idle_reader idle_writer" let ?s1 = "?s0\<lparr>pc := LExit EOF\<rparr>"
  have "Decode idle_reader = RdErr EOF idle_reader" by (simp add: Decode_def idle_reader_def ReadFull_def)
  then have "after_packet (onePacket (ss ?s0)) ?s0 = ?s1"
    by (simp add: onePacket_def after_packet_def ssys_init_def New_def loop_next_def)
  with sstep.packet [of ?s0] have "sstep ?s0 ?s1" by (simp add: ssys_init_def)
  then have "sreach idle_reader idle_writer ?s1"
    by (rule sreach.step [OF sreach.init]) (simp add: has_room_def ssys_init_def New_def)
  moreover have "sstep ?s1 ended_system"
    using sstep.drop [of ?s1 EOF "[]" "[]"] by (simp add: chanList_dropAll_def ssys_init_def New_def ended_system_def)
  ultimately show ?thesis
    by (rule sreach.step) (simp add: has_room_def ended_system_def ssys_init_def New_def)
qed

lemma ended_system_open:
  "\<exists>s1. Open_send (ss ended_system) = (None, 0, s1)"
  by (simp add: ended_system_def ssys_init_def New_def Open_send_def newChannel_def chanList_add_def
      Encode_def Write_def idle_writer_def Let_def)

text \<open>A session that has opened channel 0.\<close>

definition one_channel :: session where
  "one_channel = snd (snd (Open_send (New idle_reader idle_writer)))"

lemma one_channel_chans: "chans one_channel = [Some 0]"
  by (simp add: one_channel_def New_def Open_send_def newChannel_def chanList_add_def Let_def split: prod.splits)

lemma one_channel_inv: "sess_inv one_channel"
  using Open_send_inv [OF New_inv, of idle_reader idle_writer _ _ one_channel]
  by (cases "Open_send (New idle_reader idle_writer)") (auto simp: one_channel_chans has_room_def, simp add: one_channel_def)

section \<open>Properties\<close>



text \<open>
  C17: the end of \<^verbatim>\<open>loop\<close> always runs through. It empties the table and closes the transport, \<^verbatim>\<open>Wait\<close>
  then returns the error that ended the loop, and every channel of the table is torn down: its reader
  sees the end of the data after what is still unread, its writers' reservations fail, its \<^verbatim>\<open>msg\<close> is closed
  (so a pending \<^verbatim>\<open>Open\<close> returns \<^verbatim>\<open>net.ErrClosed\<close>) and its sends return \<^verbatim>\<open>io.EOF\<close>. Other channels
  are untouched.
\<close>

theorem loop_exit_spec:
  assumes "sess_inv s"
  shows "\<exists>s'. loop_exit e s = Some s' \<and> sess_inv s' \<and> chans s' = [] \<and> t_closed s' \<and> session_Wait s' = Some e
    \<and> (\<forall>r ch. heap s r = Some ch \<longrightarrow> (\<exists>ch'. heap s' r = Some ch' \<and>
         (if tabled s r
          then contents (pending ch') = contents (pending ch) \<and> closed (pending ch') \<and> w_closed (remoteWin ch')
             \<and> sentClose ch' \<and> msg_closed ch' \<and> msg ch' = msg ch
             \<and> (msg ch = [] \<longrightarrow> Open_recv r ch' s' = Some (Inl ErrClosed, s'))
          else ch' = ch)))"
proof -
  from loop_exit_closes [OF assms, of e] obtain s' where s': "loop_exit e s = Some s'" "sess_inv s'"
    "chans s' = []" "t_closed s'" "s_err s' = Some e"
    "\<And>r. heap s' r = (if tabled s r then Option.bind (heap s r) chan_close else heap s r)" by blast
  have op: "\<not> msg_closed ch" if "tabled s r" "heap s r = Some ch" for r ch
    using sess_invD(4) [OF assms] that by (fastforce simp: tabled_def)
  have "\<exists>ch'. heap s' r = Some ch' \<and> (if tabled s r
      then contents (pending ch') = contents (pending ch) \<and> closed (pending ch') \<and> w_closed (remoteWin ch')
         \<and> sentClose ch' \<and> msg_closed ch' \<and> msg ch' = msg ch
         \<and> (msg ch = [] \<longrightarrow> Open_recv r ch' s' = Some (Inl ErrClosed, s'))
      else ch' = ch)" if "heap s r = Some ch" for r ch
  proof (cases "tabled s r")
    case True
    with op [OF True that] obtain ch' where "chan_close ch = Some ch'" by (auto simp: chan_close_Some)
    with True that s'(6) [of r] show ?thesis by (auto simp: chan_close_Some window_close_def Open_recv_def)
  qed (use that s'(6) [of r] in simp)
  then show ?thesis using s'(1-5) by (auto simp: session_Wait_def)
qed

theorem loop_exit_spec_witness:
  "\<exists>s'. loop_exit EOF (ss ended_system) = Some s' \<and> session_Wait s' = Some EOF"
proof -
  have "sess_inv (ss ended_system)" using sreach_inv [OF ended_system_reach] by (simp add: ssys_inv_def)
  from loop_exit_spec [OF this, of EOF] show ?thesis by blast
qed

text \<open>
  An \<^verbatim>\<open>Open\<close> that gets its request out after the loop has taken the channels out of the table, and before the
  transport is closed, is never answered: in every continuation its channel gets no message and its
  \<^verbatim>\<open>msg\<close> is not closed, so only its context can end the wait.
\<close>

theorem open_during_exit_never_returns:
  assumes "pc s = LClosing rs e" and "ssys_inv s" and "Open_send (ss s) = (None, r, s1)"
    and "sstep\<^sup>*\<^sup>* (s\<lparr>ss := s1, openers := r # openers s\<rparr>) s'"
  shows "\<exists>ch. heap (ss s') r = Some ch \<and> Open_recv r ch (ss s') = None"
proof -
  have r: "r = next_ref (ss s)" and h: "r < next_ref s1" "\<exists>ch. heap s1 r = Some ch \<and> msg ch = [] \<and> \<not> msg_closed ch"
    using assms(3) by (auto simp: Open_send_def newChannel_def Let_def split: prod.splits)
  have "heap (ss s) r = None" using sess_invD(2) [of "ss s" r] assms(2) r by (simp add: ssys_inv_def)
  then have "r \<notin> set rs" using assms(1,2) by (auto simp: ssys_inv_def live_def)
  with h assms(1) have start: "unanswered r (s\<lparr>ss := s1, openers := r # openers s\<rparr>)"
    by (simp add: unanswered_def)
  from assms(4) start have "unanswered r s'"
    by (induction rule: rtranclp_induct) (auto intro: unanswered_step)
  then show ?thesis by (auto simp: unanswered_def Open_recv_def)
qed

theorem open_during_exit_never_returns_witness:
  "\<exists>s1 ch. sreach idle_reader idle_writer ended_system \<and> Open_send (ss ended_system) = (None, 0, s1)
     \<and> heap (loop_finish EOF s1) 0 = Some ch \<and> Open_recv 0 ch (loop_finish EOF s1) = None"
proof -
  obtain s1 where o: "Open_send (ss ended_system) = (None, 0, s1)" using ended_system_open by blast
  let ?s = "ended_system\<lparr>ss := s1, openers := 0 # openers ended_system\<rparr>"
  have "sstep ?s (?s\<lparr>ss := loop_finish EOF s1, pc := LDone\<rparr>)"
    using sstep.finish [of ?s EOF] by (simp add: ended_system_def)
  then have "sstep\<^sup>*\<^sup>* ?s (?s\<lparr>ss := loop_finish EOF s1, pc := LDone\<rparr>)" by simp
  from open_during_exit_never_returns [OF _ sreach_inv [OF ended_system_reach] o this] o ended_system_reach
  show ?thesis by (auto simp: ended_system_def)
qed

text \<open>
  \<^verbatim>\<open>closeCh\<close> holds one token. Once the loop is done and an \<^verbatim>\<open>Accept\<close> has taken it, no other call of
  \<^verbatim>\<open>Accept\<close>, waiting or to come, ever returns.
\<close>

theorem second_Accept_never_returns:
  assumes "pc s = LDone" and "\<not> closeCh (ss s)" and "sstep\<^sup>*\<^sup>* s s'"
  shows "acceptors s \<le> acceptors s' \<and> accepted s' = accepted s \<and> pc s' = LDone \<and> \<not> closeCh (ss s')"
  using assms(3)
proof (induction rule: rtranclp_induct)
  case (step s1 s2)
  from step(2,3) have "acceptors s1 \<le> acceptors s2 \<and> accepted s2 = accepted s1 \<and> pc s2 = LDone \<and> \<not> closeCh (ss s2)"
    by (cases rule: sstep.cases)
       (auto simp: session_Close_def Open_send_def newChannel_def Open_recv_def Let_def
         split: prod.splits list.splits if_splits)
  with step(3) show ?case by auto
qed (use assms in simp)

theorem second_Accept_never_returns_witness:
  "\<exists>s s'. pc s = LDone \<and> \<not> closeCh (ss s) \<and> acceptors s = 1 \<and> sstep s s' \<and> acceptors s' = 2 \<and> accepted s' = accepted s"
proof -
  let ?s = "ended_system\<lparr>ss := (loop_finish EOF (ss ended_system))\<lparr>closeCh := False\<rparr>, pc := LDone, acceptors := 1\<rparr>"
  let ?t = "?s\<lparr>acceptors := 2\<rparr>"
  have "sstep ?s ?t" using sstep.accept_call [of ?s] by (simp add: numeral_2_eq_2)
  moreover from this have "accepted ?t = accepted ?s"
    using second_Accept_never_returns [of ?s ?t] by simp
  moreover have "pc ?s = LDone" "\<not> closeCh (ss ?s)" "acceptors ?s = 1" "acceptors ?t = 2" by simp_all
  ultimately show ?thesis by blast
qed

end
