(* ===== verification/Mux_Flow.thy ===== *)
theory Mux_Flow
  imports Mux_Session
begin

text \<open>
  Two peers and one direction of a channel between them: the sender's channel, the receiver's
  channel, and the frames on the wire in both directions. The steps are the pieces of \<^verbatim>\<open>Write\<close>,
  \<^verbatim>\<open>Read\<close>, \<^verbatim>\<open>adjustWindow\<close> and \<^verbatim>\<open>handle\<close> between which the goroutines of the two programs can be
  interleaved: any number of writers hold a reservation whose frame is not yet encoded, and any
  number of readers have taken bytes whose window adjustment is not yet sent.

  The lemmas show that credit is neither lost nor made: whatever the interleaving, the two windows,
  the reservations, the frames and the unread bytes add up. So two peers that run this code never
  see each other's flow-control errors, every byte arrives once and in order, and the sender's
  window is full again when everything is read. The last section shows that the handshake
  of \<^verbatim>\<open>Open\<close> and \<^verbatim>\<open>handleOpen\<close> sets up such a pair.
\<close>

section \<open>The system\<close>

record flow =
  snd_ch :: channel
  rcv_ch :: channel
  hand :: "bytes list"      \<comment> \<open>chunks reserved by writers and not yet encoded\<close>
  wire :: "Message list"    \<comment> \<open>frames to the receiver\<close>
  taken :: "nat list"       \<comment> \<open>bytes taken by readers, the window not yet raised\<close>
  raised :: "nat list"      \<comment> \<open>the window raised, the adjustment not yet sent\<close>
  wire_back :: "Message list"    \<comment> \<open>frames to the sender\<close>
  sent :: bytes             \<comment> \<open>all data encoded so far\<close>
  got :: bytes              \<comment> \<open>all data read so far\<close>
  failed :: "go_error option"  \<comment> \<open>an error of handle, which ends a session\<close>

fun data_of :: "Message \<Rightarrow> bytes" where
  "data_of (DataMessage _ _ d) = d"
| "data_of _ = []"

fun credit_of :: "Message \<Rightarrow> nat" where
  "credit_of (WindowAdjustMessage _ n) = unat n"
| "credit_of _ = 0"

inductive fstep :: "flow \<Rightarrow> flow \<Rightarrow> bool" where
  reserve: "data \<noteq> [] \<Longrightarrow> length data < 2 ^ 32 \<Longrightarrow>
    Mux_Window.reserve (chan_min (maxRemotePayload (snd_ch f)) (length data)) (remoteWin (snd_ch f)) = Some (n, None, rw) \<Longrightarrow>
    fstep f (f\<lparr>snd_ch := (snd_ch f)\<lparr>remoteWin := rw\<rparr>, hand := take (unat n) data # hand f\<rparr>)"
| encode: "hand f = xs @ c # ys \<Longrightarrow>
    fstep f (f\<lparr>hand := xs @ ys, wire := wire f @ [data_frame (remoteId (snd_ch f)) c], sent := sent f @ c\<rparr>)"
| close_write:
    "fstep f (f\<lparr>snd_ch := (snd_ch f)\<lparr>sentEOF := True\<rparr>, wire := wire f @ [EOFMessage (remoteId (snd_ch f))]\<rparr>)"
| deliver: "wire f = m # ms \<Longrightarrow> handle m (rcv_ch f) cs w = HRet err ch' cs' w' \<Longrightarrow>
    fstep f (f\<lparr>rcv_ch := ch', wire := ms, failed := (if err = None then failed f else err)\<rparr>)"
| read: "buffer_Read k (pending (rcv_ch f)) = Some (RDone d e b) \<Longrightarrow> d \<noteq> [] \<Longrightarrow>
    fstep f (f\<lparr>rcv_ch := (rcv_ch f)\<lparr>pending := b\<rparr>, got := got f @ d, taken := length d # taken f\<rparr>)"
| adjust: "taken f = xs @ n # ys \<Longrightarrow>
    fstep f (f\<lparr>rcv_ch := (rcv_ch f)\<lparr>myWindow := myWindow (rcv_ch f) + of_nat n\<rparr>, taken := xs @ ys, raised := n # raised f\<rparr>)"
| send_adjust: "raised f = xs @ n # ys \<Longrightarrow>
    fstep f (f\<lparr>raised := xs @ ys, wire_back := wire_back f @ [WindowAdjustMessage (remoteId (rcv_ch f)) (of_nat n)]\<rparr>)"
| deliver_back: "wire_back f = m # ms \<Longrightarrow> handle m (snd_ch f) cs w = HRet err ch' cs' w' \<Longrightarrow>
    fstep f (f\<lparr>snd_ch := ch', wire_back := ms, failed := (if err = None then failed f else err)\<rparr>)"

text \<open>Two channels as the handshake leaves them, and the system that starts from them.\<close>

definition paired :: "channel \<Rightarrow> channel \<Rightarrow> bool" where
  "paired a b \<longleftrightarrow> remoteId a = localId b \<and> maxRemotePayload a = maxIncomingPayload b
     \<and> win (remoteWin a) = channelWindowSize \<and> \<not> w_closed (remoteWin a)
     \<and> myWindow b = channelWindowSize \<and> pending b = newBuffer"

definition flow_start :: "channel \<Rightarrow> channel \<Rightarrow> flow" where
  "flow_start a b = \<lparr>snd_ch = a, rcv_ch = b, hand = [], wire = [], taken = [], raised = [], wire_back = [],
     sent = [], got = [], failed = None\<rparr>"

inductive freach :: "channel \<Rightarrow> channel \<Rightarrow> flow \<Rightarrow> bool" for a b where
  init: "freach a b (flow_start a b)"
| step: "freach a b f \<Longrightarrow> fstep f f' \<Longrightarrow> freach a b f'"

section \<open>Credit\<close>

text \<open>The bytes of window that the receiver has not yet got back, by where they are.\<close>

definition in_flight :: "flow \<Rightarrow> nat" where
  "in_flight f = sum_list (map length (hand f)) + length (concat (map data_of (wire f)))
     + length (contents (pending (rcv_ch f))) + sum_list (taken f) + sum_list (raised f)
     + sum_list (map credit_of (wire_back f))"

fun data_ok :: "nat \<Rightarrow> Message \<Rightarrow> bool" where
  "data_ok mx (DataMessage _ len d) = (length d \<le> mx \<and> len = of_nat (length d))"
| "data_ok mx (EOFMessage _) = True"
| "data_ok mx _ = False"

fun adjust_ok :: "Message \<Rightarrow> bool" where
  "adjust_ok (WindowAdjustMessage _ _) = True"
| "adjust_ok _ = False"

definition flow_inv :: "flow \<Rightarrow> bool" where
  "flow_inv f \<longleftrightarrow> failed f = None \<and> buffer_inv (pending (rcv_ch f))
     \<and> maxRemotePayload (snd_ch f) = maxIncomingPayload (rcv_ch f)
     \<and> (\<forall>c \<in> set (hand f). length c \<le> unat (maxIncomingPayload (rcv_ch f)))
     \<and> (\<forall>m \<in> set (wire f). data_ok (unat (maxIncomingPayload (rcv_ch f))) m)
     \<and> (\<forall>m \<in> set (wire_back f). adjust_ok m)
     \<and> unat (win (remoteWin (snd_ch f))) + in_flight f = unat channelWindowSize
     \<and> unat (myWindow (rcv_ch f)) + length (contents (pending (rcv_ch f))) + sum_list (taken f)
         = unat channelWindowSize
     \<and> got f @ contents (pending (rcv_ch f)) @ concat (map data_of (wire f)) = sent f"

lemma flow_start_inv: "paired a b \<Longrightarrow> flow_inv (flow_start a b)"
  by (simp add: flow_inv_def flow_start_def paired_def in_flight_def)

lemma sum_list_mid: "sum_list (xs @ n # ys) = n + sum_list (xs @ (ys :: nat list))"
  by simp

lemma reserve_inv:
  assumes "flow_inv f" and "length data < 2 ^ 32"
    and "Mux_Window.reserve (chan_min (maxRemotePayload (snd_ch f)) (length data)) (remoteWin (snd_ch f)) = Some (n, None, rw)"
  shows "flow_inv (f\<lparr>snd_ch := (snd_ch f)\<lparr>remoteWin := rw\<rparr>, hand := take (unat n) data # hand f\<rparr>)"
proof -
  have "unat n = min (min (unat (maxRemotePayload (snd_ch f))) (length data)) (unat (win (remoteWin (snd_ch f))))"
    and "unat (win rw) + unat n = unat (win (remoteWin (snd_ch f)))"
    using sw.tk_Some [OF assms(3)] chan_min_nat [OF assms(2)] by auto
  then have "length (take (unat n) data) = unat n" "unat n \<le> unat (maxRemotePayload (snd_ch f))"
    "unat (win rw) + unat n = unat (win (remoteWin (snd_ch f)))" by auto
  with assms(1) show ?thesis by (simp add: flow_inv_def in_flight_def)
qed

lemma encode_inv:
  assumes "flow_inv f" and "hand f = xs @ c # ys"
  shows "flow_inv (f\<lparr>hand := xs @ ys, wire := wire f @ [data_frame (remoteId (snd_ch f)) c], sent := sent f @ c\<rparr>)"
  using assms by (auto simp: flow_inv_def in_flight_def data_frame_def)

lemma deliver_inv:
  assumes "flow_inv f" and "wire f = m # ms" and "handle m (rcv_ch f) cs w = HRet err ch' cs' w'"
  shows "flow_inv (f\<lparr>rcv_ch := ch', wire := ms, failed := (if err = None then failed f else err)\<rparr>)"
proof (cases m)
  case (DataMessage cid len d)
  let ?b = "rcv_ch f"
  from assms(1,2) DataMessage have mx: "length d \<le> unat (maxIncomingPayload ?b)" and len: "len = of_nat (length d)"
    and fl: "length d + length (contents (pending ?b)) + sum_list (taken f) \<le> unat channelWindowSize"
    and w: "unat (myWindow ?b) + length (contents (pending ?b)) + sum_list (taken f) = unat channelWindowSize"
    by (auto simp: flow_inv_def in_flight_def)
  have n: "unat len = length d" unfolding len by (rule unat_of_nat_u32) (use fl in simp)
  have ok: "unat len \<le> unat (myWindow ?b)" using fl w n by simp
  then have "handleData len d ?b = (None, ?b\<lparr>myWindow := myWindow ?b - len, pending := buffer_write d (pending ?b)\<rparr>)"
    using mx n len by (simp add: handleData_def word_less_nat_alt not_less)
  moreover have "unat (myWindow ?b - len) = unat (myWindow ?b) - length d"
    using ok n by (metis unat_sub word_le_nat_alt)
  moreover have "buffer_inv (buffer_write d (pending ?b))" "contents (buffer_write d (pending ?b)) = contents (pending ?b) @ d"
    using assms(1) bq.wr_queue [of "pending ?b" d] by (simp_all add: flow_inv_def)
  ultimately show ?thesis
    using assms DataMessage ok n by (auto simp: handle_def flow_inv_def in_flight_def)
next
  case (EOFMessage cid)
  with assms show ?thesis by (auto simp: handle_def flow_inv_def in_flight_def)
qed (use assms in \<open>auto simp: flow_inv_def\<close>)

lemma read_inv:
  assumes "flow_inv f" and "buffer_Read k (pending (rcv_ch f)) = Some (RDone d e b)" and "d \<noteq> []"
  shows "flow_inv (f\<lparr>rcv_ch := (rcv_ch f)\<lparr>pending := b\<rparr>, got := got f @ d, taken := length d # taken f\<rparr>)"
proof -
  from assms(1) have "buffer_inv (pending (rcv_ch f))" by (simp add: flow_inv_def)
  then have "contents (pending (rcv_ch f)) = d @ contents b \<and> buffer_inv b"
  proof (cases rule: bq.rd_cases [where k = k])
    case (data b')
    then have "contents b' = drop k (contents (pending (rcv_ch f)))" "buffer_inv b'" by blast+
    with data(3) assms(2) show ?thesis by auto
  qed (use assms(2,3) in auto)
  with assms(1) show ?thesis by (auto simp: flow_inv_def in_flight_def)
qed

lemma adjust_inv:
  assumes "flow_inv f" and "taken f = xs @ n # ys"
  shows "flow_inv (f\<lparr>rcv_ch := (rcv_ch f)\<lparr>myWindow := myWindow (rcv_ch f) + of_nat n\<rparr>, taken := xs @ ys, raised := n # raised f\<rparr>)"
proof -
  from assms have "unat (myWindow (rcv_ch f)) + n \<le> unat channelWindowSize" by (auto simp: flow_inv_def)
  moreover from this have "unat (of_nat n :: u32) = n" by (intro unat_of_nat_u32) simp
  ultimately have "unat (myWindow (rcv_ch f) + of_nat n) = unat (myWindow (rcv_ch f)) + n"
    using unat_add_u32 [of "myWindow (rcv_ch f)" "of_nat n"] by simp
  with assms show ?thesis by (auto simp: flow_inv_def in_flight_def)
qed

lemma send_adjust_inv:
  assumes "flow_inv f" and "raised f = xs @ n # ys"
  shows "flow_inv (f\<lparr>raised := xs @ ys, wire_back := wire_back f @ [WindowAdjustMessage (remoteId (rcv_ch f)) (of_nat n)]\<rparr>)"
proof -
  from assms have "n \<le> unat channelWindowSize" by (auto simp: flow_inv_def in_flight_def)
  then have "unat (of_nat n :: u32) = n" by (intro unat_of_nat_u32) simp
  with assms show ?thesis by (auto simp: flow_inv_def in_flight_def)
qed

lemma deliver_back_inv:
  assumes "flow_inv f" and "wire_back f = m # ms" and "handle m (snd_ch f) cs w = HRet err ch' cs' w'"
  shows "flow_inv (f\<lparr>snd_ch := ch', wire_back := ms, failed := (if err = None then failed f else err)\<rparr>)"
proof -
  from assms(1,2) obtain cid n where m: "m = WindowAdjustMessage cid n"
    by (cases m) (auto simp: flow_inv_def)
  have "unat (win (remoteWin (snd_ch f))) + unat n < 2 ^ 32"
    using assms(1,2) m by (auto simp: flow_inv_def in_flight_def)
  then obtain rw where "window_add n (remoteWin (snd_ch f)) = (True, rw)"
    "unat (win rw) = unat (win (remoteWin (snd_ch f))) + unat n" using sw.add_accepts by blast
  with assms m show ?thesis by (auto simp: handle_def flow_inv_def in_flight_def)
qed

lemma fstep_inv:
  assumes "fstep f f'" and "flow_inv f"
  shows "flow_inv f'"
  using assms(1)
proof (cases rule: fstep.cases)
  case close_write
  with assms(2) show ?thesis by (auto simp: flow_inv_def in_flight_def)
next
  case (deliver m ms cs w err ch' cs' w')
  show ?thesis unfolding deliver(1) by (rule deliver_inv [OF assms(2) deliver(2,3)])
next
  case (deliver_back m ms cs w err ch' cs' w')
  show ?thesis unfolding deliver_back(1) by (rule deliver_back_inv [OF assms(2) deliver_back(2,3)])
qed (use assms(2) in \<open>auto intro: reserve_inv encode_inv read_inv adjust_inv send_adjust_inv\<close>)

lemma freach_inv:
  assumes "freach a b f" and "paired a b"
  shows "flow_inv f"
  using assms by (induction rule: freach.induct) (auto intro: flow_start_inv fstep_inv)

section \<open>Draining\<close>

text \<open>How far the bytes in flight are from the sender's window.\<close>

definition distance :: "flow \<Rightarrow> nat" where
  "distance f = sum_list (map (\<lambda>c. 9 * length c + 2) (hand f))
     + sum_list (map (\<lambda>m. 9 * length (data_of m) + 1) (wire f))
     + 9 * length (contents (pending (rcv_ch f)))
     + sum_list (map (\<lambda>n. 4 * n + 3) (taken f)) + sum_list (map (\<lambda>n. 4 * n + 2) (raised f))
     + sum_list (map (\<lambda>m. 4 * credit_of m + 1) (wire_back f))"

definition drained :: "flow \<Rightarrow> bool" where
  "drained f \<longleftrightarrow> hand f = [] \<and> wire f = [] \<and> contents (pending (rcv_ch f)) = [] \<and> taken f = []
     \<and> raised f = [] \<and> wire_back f = []"

lemma flow_inv_bytes:
  "flow_inv f \<Longrightarrow> got f @ contents (pending (rcv_ch f)) @ concat (map data_of (wire f)) = sent f"
  by (simp add: flow_inv_def)

lemma handle_returns: "data_ok mx m \<or> adjust_ok m \<Longrightarrow> \<exists>err ch'. handle m ch cs w = HRet err ch' cs w"
  by (cases m) (auto simp: handle_def split: prod.splits)

lemma deliver_distance:
  assumes "flow_inv f" and "wire f = m # ms" and "handle m (rcv_ch f) cs w = HRet err ch' cs' w'"
  shows "distance (f\<lparr>rcv_ch := ch', wire := ms, failed := x\<rparr>) < distance f"
proof -
  have "got f @ contents (pending ch') @ concat (map data_of ms) = sent f"
    using flow_inv_bytes [OF deliver_inv [OF assms]] by simp
  from arg_cong [OF this, of length] arg_cong [OF flow_inv_bytes [OF assms(1)], of length]
  have "length (contents (pending ch')) = length (contents (pending (rcv_ch f))) + length (data_of m)"
    using assms(2) by simp
  with assms(2) show ?thesis by (simp add: distance_def)
qed

lemma drain_wire:
  assumes "flow_inv f" and "wire f = m # ms"
  shows "\<exists>f'. fstep f f' \<and> distance f' < distance f"
proof -
  define w :: writer where "w = \<lparr>wr_buf = [], wr_fail = None\<rparr>"
  from assms have "data_ok (unat (maxIncomingPayload (rcv_ch f))) m" by (simp add: flow_inv_def)
  then obtain err ch' where h: "handle m (rcv_ch f) [] w = HRet err ch' [] w"
    using handle_returns by blast
  from fstep.deliver [OF assms(2) h] deliver_distance [OF assms h] show ?thesis by blast
qed

lemma drain_pending:
  assumes "flow_inv f" and "contents (pending (rcv_ch f)) \<noteq> []"
  shows "\<exists>f'. fstep f f' \<and> distance f' < distance f"
proof -
  from assms(1) have "buffer_inv (pending (rcv_ch f))" by (simp add: flow_inv_def)
  then show ?thesis
  proof (cases rule: bq.rd_cases [where k = 1])
    case (data b)
    let ?d = "take 1 (contents (pending (rcv_ch f)))"
    let ?f = "f\<lparr>rcv_ch := (rcv_ch f)\<lparr>pending := b\<rparr>, got := got f @ ?d, taken := length ?d # taken f\<rparr>"
    have "fstep f ?f" by (rule fstep.read [OF data(3)]) (use assms(2) in simp)
    moreover have "length ?d = 1" "length (contents b) + 1 = length (contents (pending (rcv_ch f)))"
      using data(4) assms(2) by (auto simp: Suc_le_eq)
    ultimately show ?thesis by (intro exI [of _ ?f]) (auto simp: distance_def)
  qed (use assms(2) in auto)
qed

lemma drain_back:
  assumes "flow_inv f" and "wire_back f = m # ms"
  shows "\<exists>f'. fstep f f' \<and> distance f' < distance f"
proof -
  from assms have m: "adjust_ok m" by (simp add: flow_inv_def)
  define w :: writer where "w = \<lparr>wr_buf = [], wr_fail = None\<rparr>"
  obtain err ch' where h: "handle m (snd_ch f) [] w = HRet err ch' [] w"
    using m handle_returns by blast
  from fstep.deliver_back [OF assms(2) h] assms(2) show ?thesis by (fastforce simp: distance_def)
qed

lemma drain_step:
  assumes "flow_inv f" and "\<not> drained f"
  shows "\<exists>f'. fstep f f' \<and> distance f' < distance f"
proof -
  consider (hand) c cs where "hand f = c # cs" | (wire) m ms where "wire f = m # ms"
    | (pend) "contents (pending (rcv_ch f)) \<noteq> []" | (taken) n ns where "taken f = n # ns"
    | (raised) n ns where "raised f = n # ns" | (bk) m ms where "wire_back f = m # ms"
    using assms(2) unfolding drained_def by (metis list.exhaust)
  then show ?thesis
  proof cases
    case hand
    with fstep.encode [of f "[]" c cs] show ?thesis by (fastforce simp: distance_def data_frame_def)
  next
    case taken
    with fstep.adjust [of f "[]" n ns] show ?thesis by (fastforce simp: distance_def)
  next
    case raised
    have "credit_of (WindowAdjustMessage cid (of_nat n)) \<le> n" for cid
      by (simp add: unat_of_nat take_bit_nat_less_eq_self)
    with raised fstep.send_adjust [of f "[]" n ns] show ?thesis by (fastforce simp: distance_def)
  qed (use assms(1) drain_wire drain_pending drain_back in blast)+
qed

lemma can_drain:
  assumes "flow_inv f"
  shows "\<exists>f'. fstep\<^sup>*\<^sup>* f f' \<and> flow_inv f' \<and> drained f'"
  using assms
proof (induction "distance f" arbitrary: f rule: less_induct)
  case less
  show ?case
  proof (cases "drained f")
    case False
    from drain_step [OF less.prems this] obtain f1 where f1: "fstep f f1" "distance f1 < distance f" by blast
    from less.hyps [OF f1(2) fstep_inv [OF f1(1) less.prems]] f1(1) show ?thesis
      by (meson converse_rtranclp_into_rtranclp)
  qed (use less.prems in blast)
qed

section \<open>The handshake\<close>

text \<open>The two channels while the handshake is under way: the opener's and the acceptor's.\<close>

definition requested :: "u32 \<Rightarrow> channel" where
  "requested lid = \<lparr>localId = lid, remoteId = 0, maxIncomingPayload = channelMaxPacket,
     maxRemotePayload = 0, direction = channelOutbound, msg = [], msg_closed = False, sentEOF = False,
     remoteWin = window_new, pending = newBuffer, myWindow = channelWindowSize, sentClose = False\<rparr>"

definition full_window :: window where
  "full_window = \<lparr>win = channelWindowSize, writeWaiters = 0, w_closed = False\<rparr>"

definition offered :: "u32 \<Rightarrow> u32 \<Rightarrow> channel" where
  "offered lid rid = (requested lid)\<lparr>remoteId := rid, maxRemotePayload := channelMaxPacket,
     direction := channelInbound, remoteWin := full_window\<rparr>"

lemma max_packet_ok [simp]: "\<not> channelMaxPacket < minPacketLength" "\<not> maxPacketLength < channelMaxPacket"
  by code_simp+

lemma window_add_new: "snd (window_add channelWindowSize window_new) = full_window"
  by code_simp

lemma handshake_open:
  assumes "wr_fail (enc sa) = None" and "Open_send sa = (err, r, sa')"
  obtains lid cs where "err = None" and "chanList_add r (chans sa) = (lid, cs)" and "chans sa' = cs"
    and "wr_buf (enc sa') = wr_buf (enc sa) @ Bytes (OpenMessage lid channelWindowSize channelMaxPacket)"
    and "heap sa' r = Some (requested lid)"
  using assms
  by (auto simp: Open_send_def newChannel_def requested_def Let_def Encode_def go_simps split: prod.splits)

lemma handshake_accept:
  assumes "Decode (dec sb) = RdOk (OpenMessage rid channelWindowSize channelMaxPacket) rd"
  shows "\<exists>q lid sb'. onePacket sb = POffer q sb' \<and> heap sb' q = Some (offered lid rid) \<and> enc sb' = enc sb"
proof (cases "chanList_add (next_ref sb) (chans sb)")
  case (Pair lid cs)
  with assms window_add_new show ?thesis
    by (simp add: onePacket_def handleOpen_def newChannel_def offered_def requested_def Let_def)
qed

lemma paired_handshake:
  "paired ((requested lid)\<lparr>remoteId := rid, maxRemotePayload := channelMaxPacket, remoteWin := full_window\<rparr>) (offered rid lid)"
  "paired (offered rid lid) ((requested lid)\<lparr>remoteId := rid, maxRemotePayload := channelMaxPacket, remoteWin := full_window\<rparr>)"
  by (simp_all add: paired_def requested_def offered_def full_window_def)

lemma handshake_confirm:
  assumes "Decode (dec sa) = RdOk (OpenConfirmMessage lid rid channelWindowSize channelMaxPacket) rd"
    and "chanList_getChan lid (chans sa) = Some r" and "heap sa r = Some (requested lid)"
  shows "\<exists>sa1 ca sa2 ca'. onePacket sa = PRet None sa1 \<and> heap sa1 r = Some ca
    \<and> Open_recv r ca sa1 = Some (Inr r, sa2) \<and> heap sa2 r = Some ca'
    \<and> paired ca' (offered rid lid) \<and> paired (offered rid lid) ca'"
proof -
  let ?c = "(requested lid)\<lparr>remoteId := rid, maxRemotePayload := channelMaxPacket, remoteWin := full_window\<rparr>"
  have "\<exists>sa1 ca sa2. onePacket sa = PRet None sa1 \<and> heap sa1 r = Some ca
    \<and> Open_recv r ca sa1 = Some (Inr r, sa2) \<and> heap sa2 r = Some ?c"
    using assms window_add_new
    by (simp add: onePacket_def handle_def responseMessageReceived_def msg_send_def chanSize_def after_handle_def
        Open_recv_def open_verdict_def requested_def)
  then show ?thesis using paired_handshake [of rid lid] by blast
qed

lemmas sample_pair = paired_handshake [of 0 0]

section \<open>Properties\<close>

text \<open>
  C5: on a channel set up by the handshake and not yet closed, whatever the interleaving of writers, readers and
  both packet loops: \<^verbatim>\<open>handle\<close> never returns an error on either side (no "remote side wrote too much", no packet
  over the maximum, no invalid window update), the sender's window and the bytes in flight add up
  to the initial window, and the bytes read, unread and on the wire are, in order, exactly the bytes sent.
\<close>

theorem flow_control_sound:
  assumes "paired a b" and "freach a b f"
  shows "failed f = None
    \<and> unat (win (remoteWin (snd_ch f))) + in_flight f = unat channelWindowSize
    \<and> got f @ contents (pending (rcv_ch f)) @ concat (map data_of (wire f)) = sent f"
  using freach_inv [OF assms(2,1)] by (simp add: flow_inv_def)

theorem flow_control_sound_witness:
  "\<exists>a b f. paired a b \<and> freach a b f \<and> wire f = [data_frame 0 [1, 2]] \<and> failed f = None \<and> in_flight f = 2"
proof -
  let ?a = "(requested 0)\<lparr>remoteId := 0, maxRemotePayload := channelMaxPacket, remoteWin := full_window\<rparr>"
  let ?b = "offered 0 0" let ?f0 = "flow_start ?a ?b"
  let ?rw = "full_window\<lparr>win := channelWindowSize - 2\<rparr>"
  let ?f1 = "?f0\<lparr>snd_ch := ?a\<lparr>remoteWin := ?rw\<rparr>, hand := [[1, 2]]\<rparr>"
  let ?f2 = "?f1\<lparr>hand := [], wire := [data_frame 0 [1, 2]], sent := [1, 2]\<rparr>"
  have "Mux_Window.reserve (chan_min channelMaxPacket (Suc (Suc 0))) full_window = Some (2, None, ?rw)" by code_simp
  then have "fstep ?f0 ?f1"
    using fstep.reserve [of "[1, 2]" ?f0 2 ?rw] by (simp add: flow_start_def requested_def)
  moreover have "fstep ?f1 ?f2"
    using fstep.encode [of ?f1 "[]" "[1, 2]" "[]"] by (simp add: flow_start_def requested_def)
  ultimately have "freach ?a ?b ?f2" by (meson freach.init freach.step)
  from flow_control_sound [OF sample_pair(1) this] this sample_pair(1)
  show ?thesis by (intro exI [of _ ?a] exI [of _ ?b] exI [of _ ?f2])
    (simp add: flow_start_def in_flight_def data_frame_def offered_def requested_def)
qed

text \<open>
  C15: no credit is ever lost, so flow control cannot deadlock: from every reachable state the peers can go on
  to a state in which nothing is in flight, everything sent has been read, and the sender's window is full again.
\<close>

theorem flow_control_drains:
  assumes "paired a b" and "freach a b f"
  shows "\<exists>f'. fstep\<^sup>*\<^sup>* f f' \<and> drained f' \<and> win (remoteWin (snd_ch f')) = channelWindowSize
    \<and> got f' = sent f' \<and> failed f' = None"
proof -
  from can_drain [OF freach_inv [OF assms(2,1)]] obtain f' where
    f': "fstep\<^sup>*\<^sup>* f f'" "flow_inv f'" "drained f'" by blast
  then have "in_flight f' = 0" by (simp add: drained_def in_flight_def)
  with f'(2) have "unat (win (remoteWin (snd_ch f'))) = unat channelWindowSize" by (simp add: flow_inv_def)
  then have "win (remoteWin (snd_ch f')) = channelWindowSize" by (rule unsigned_word_eqI)
  with f' show ?thesis by (auto simp: flow_inv_def drained_def)
qed

theorem flow_control_drains_witness:
  "\<exists>a b f'. paired a b \<and> fstep\<^sup>*\<^sup>* (flow_start a b) f' \<and> drained f' \<and> got f' = sent f'"
  using flow_control_drains [OF sample_pair(1) freach.init] sample_pair(1) by blast

text \<open>
  The handshake. When the opener's request reaches the acceptor's loop, its channel is offered to \<^verbatim>\<open>Accept\<close>; once it is
  taken the confirmation goes out, and when that reaches the opener's loop, \<^verbatim>\<open>Open\<close> returns the channel.
  The two channels then name each other and start with full windows, in both directions.
\<close>

theorem handshake_pairs_channels:
  assumes "sess_inv sa" and "wr_fail (enc sa) = None" and "wr_fail (enc sb) = None"
    and "Open_send sa = (err, r, sa')"
    and "wr_buf (enc sa') = wr_buf (enc sa) @ request" and "dec sb = \<lparr>rd_buf = request @ rest, rd_end = e\<rparr>"
  shows "\<exists>q sb1 cb reply sb2. err = None \<and> onePacket sb = POffer q sb1 \<and> heap sb1 q = Some cb
    \<and> handleOpen_accepted cb sb1 = (None, sb2) \<and> wr_buf (enc sb2) = wr_buf (enc sb) @ reply
    \<and> (\<exists>sa1 ca sa2 ca'. onePacket (sa'\<lparr>dec := \<lparr>rd_buf = reply @ rest', rd_end = e'\<rparr>\<rparr>) = PRet None sa1
         \<and> heap sa1 r = Some ca \<and> Open_recv r ca sa1 = Some (Inr r, sa2) \<and> heap sa2 r = Some ca'
         \<and> paired ca' cb \<and> paired cb ca')"
proof -
  from assms(2,4) obtain lid cs where a: "err = None" "chanList_add r (chans sa) = (lid, cs)" "chans sa' = cs"
    "wr_buf (enc sa') = wr_buf (enc sa) @ Bytes (OpenMessage lid channelWindowSize channelMaxPacket)"
    "heap sa' r = Some (requested lid)" by (rule handshake_open)
  have "Decode (dec sb) = RdOk (OpenMessage lid channelWindowSize channelMaxPacket) \<lparr>rd_buf = rest, rd_end = e\<rparr>"
    using a(4) assms(5,6) Decode_Bytes [of "OpenMessage lid channelWindowSize channelMaxPacket" rest e]
    by (simp add: frame_ok_def)
  from handshake_accept [OF this] obtain q rid sb1 where
    b: "onePacket sb = POffer q sb1" "heap sb1 q = Some (offered rid lid)" "enc sb1 = enc sb" by blast
  let ?m = "OpenConfirmMessage lid rid channelWindowSize channelMaxPacket"
  obtain sb2 where b2: "handleOpen_accepted (offered rid lid) sb1 = (None, sb2)" "wr_buf (enc sb2) = wr_buf (enc sb) @ Bytes ?m"
    using assms(3) b(3) by (simp add: handleOpen_accepted_def offered_def requested_def Encode_def go_simps)
  let ?sa = "sa'\<lparr>dec := \<lparr>rd_buf = Bytes ?m @ rest', rd_end = e'\<rparr>\<rparr>"
  have "Decode (dec ?sa) = RdOk ?m \<lparr>rd_buf = rest', rd_end = e'\<rparr>"
    using Decode_Bytes [of ?m rest' e'] by (simp add: frame_ok_def)
  moreover have "chanList_getChan lid (chans ?sa) = Some r" "heap ?sa r = Some (requested lid)"
    using ct.add_then_get [OF sess_invD(1) [OF assms(1)] a(2)] a(3,5) by simp_all
  ultimately have "\<exists>sa1 ca sa2 ca'. onePacket ?sa = PRet None sa1
      \<and> heap sa1 r = Some ca \<and> Open_recv r ca sa1 = Some (Inr r, sa2) \<and> heap sa2 r = Some ca'
      \<and> paired ca' (offered rid lid) \<and> paired (offered rid lid) ca'"
    by (rule handshake_confirm)
  with a(1) b b2 show ?thesis by blast
qed

theorem handshake_pairs_channels_witness:
  "\<exists>sa' request q sb1. Open_send (New idle_reader idle_writer) = (None, 0, sa')
     \<and> onePacket (New \<lparr>rd_buf = request, rd_end = None\<rparr> idle_writer) = POffer q sb1"
proof -
  let ?sa = "New idle_reader idle_writer"
  obtain err r sa' where o: "Open_send ?sa = (err, r, sa')" by (cases "Open_send ?sa")
  moreover have w: "wr_fail (enc ?sa) = None" by (simp add: New_def idle_writer_def)
  moreover have "r = 0" using o by (auto simp: New_def Open_send_def newChannel_def Let_def split: prod.splits)
  moreover obtain request where "wr_buf (enc sa') = wr_buf (enc ?sa) @ request"
    using handshake_open [OF w o] by metis
  ultimately show ?thesis
    using handshake_pairs_channels [OF New_inv w _ o, of "New \<lparr>rd_buf = request, rd_end = None\<rparr> idle_writer" request "[]" None "[]" None]
    by (auto simp: New_def idle_writer_def)
qed

end
