(* ===== verification/Mux_Demux.thy ===== *)
theory Mux_Demux
  imports Mux_Flow
begin

text \<open>
  The packet loop as a demultiplexer (\<^verbatim>\<open>loop\<close> and \<^verbatim>\<open>onePacket\<close> of \<^verbatim>\<open>src/mux/session.go\<close>): one stream of frames for many channels. The reference is a channel that is alone with
  its own frames. The lemmas show that the loop, whatever the order in which the frames of the channels are mixed, leaves every channel as if it had been alone, and that no packet of any kind
  touches a channel that it is not addressed to.
\<close>

section \<open>The loop over a number of packets\<close>

text \<open>\<^verbatim>\<open>loop\<close> up to \<open>n\<close> packets, none of which makes it wait or end.\<close>

fun packets :: "nat \<Rightarrow> session \<Rightarrow> session option" where
  "packets 0 s = Some s"
| "packets (Suc n) s = (case onePacket s of PRet None s1 \<Rightarrow> packets n s1 | _ \<Rightarrow> None)"

text \<open>The session after a packet, if the loop goes on.\<close>

fun packet_session :: "packet_result \<Rightarrow> session option" where
  "packet_session (PRet err s) = Some s"
| "packet_session (POffer r s) = Some s"
| "packet_session (PSend r m s) = Some s"
| "packet_session _ = None"

text \<open>A channel that handles the frames of a list, with a table and a writer that do not matter.\<close>

fun alone :: "Message list \<Rightarrow> channel \<Rightarrow> channel option" where
  "alone [] ch = Some ch"
| "alone (m # ms) ch = (case handle m ch [] \<lparr>wr_buf = [], wr_fail = None\<rparr> of HRet None ch1 _ _ \<Rightarrow> alone ms ch1 | _ \<Rightarrow> None)"

text \<open>The frames of an established channel: data, its end, and credit.\<close>

fun in_use :: "Message \<Rightarrow> bool" where
  "in_use (DataMessage _ _ _) = True"
| "in_use (EOFMessage _) = True"
| "in_use (WindowAdjustMessage _ _) = True"
| "in_use _ = False"

definition frames_for :: "u32 \<Rightarrow> Message list \<Rightarrow> Message list" where
  "frames_for i ms = filter (\<lambda>m. fst (Channel m) = i) ms"

section \<open>One frame\<close>

lemma handle_in_use:
  assumes "in_use m" and "handle m ch [] \<lparr>wr_buf = [], wr_fail = None\<rparr> = HRet e ch1 cs1 w1"
  shows "handle m ch cs w = HRet e ch1 cs w"
  using assms by (cases m) (auto simp: handle_def split: prod.splits if_splits)

lemma handle_in_use_keeps:
  assumes "in_use m" and "frame_ok m" and "handle m ch cs w = HRet e ch1 cs w" and "\<not> msg_closed ch"
  shows "keeps ch ch1"
proof -
  have "localId ch1 = localId ch" "msg_closed ch1 = msg_closed ch"
    using assms(1,3) by (cases m; auto simp: handle_def handleData_def split: prod.splits if_splits)+
  moreover have "chan_inv ch1" if "chan_inv ch" using handle_inv [OF that assms(2,4), of cs w] assms(3) by simp
  ultimately show ?thesis by (simp add: keeps_def)
qed

lemma handle_in_use_bytes:
  assumes "in_use m" and "handle m ch cs w = HRet None ch1 cs w" and "chan_inv ch"
  shows "contents (pending ch1) = contents (pending ch) @ data_of m"
proof (cases m)
  case (DataMessage cid len d)
  with assms show ?thesis using bq.wr_queue [of "pending ch" d]
    by (auto simp: handle_def handleData_def chan_inv_def split: prod.splits if_splits)
next
  case (EOFMessage cid)
  with assms show ?thesis by (auto simp: handle_def)
qed (use assms in \<open>auto simp: handle_def split: prod.splits if_splits\<close>)

lemma alone_bytes:
  assumes "alone ms ch = Some ch1" and "list_all in_use ms" and "list_all frame_ok ms" and "chan_inv ch" and "\<not> msg_closed ch"
  shows "contents (pending ch1) = contents (pending ch) @ concat (map data_of ms)"
  using assms
proof (induction ms arbitrary: ch)
  case (Cons m ms)
  let ?w = "\<lparr>wr_buf = [], wr_fail = None\<rparr>"
  from Cons.prems(1) obtain ch2 cs2 w2 where h2: "handle m ch [] ?w = HRet None ch2 cs2 w2" and a: "alone ms ch2 = Some ch1"
    by (auto split: handle_result.splits option.splits)
  have h: "handle m ch [] ?w = HRet None ch2 [] ?w" by (rule handle_in_use [OF _ h2]) (use Cons.prems(2) in simp)
  from handle_in_use_keeps [OF _ _ h] Cons.prems have k: "keeps ch ch2" by simp
  have "contents (pending ch1) = contents (pending ch2) @ concat (map data_of ms)"
    by (rule Cons.IH [OF a]) (use k Cons.prems in \<open>simp_all add: keeps_def\<close>)
  with handle_in_use_bytes [OF _ h] Cons.prems show ?case by simp
qed simp

text \<open>Different ids name different channels.\<close>

lemma getChan_inj:
  "sess_inv s \<Longrightarrow> chanList_getChan i (chans s) = Some r \<Longrightarrow> chanList_getChan j (chans s) = Some r \<Longrightarrow> i = j"
  by (metis option.inject sess_invD(4))

section \<open>Many channels\<close>

lemma packets_demux:
  assumes "sess_inv s" and "dec s = \<lparr>rd_buf = concat (map Bytes ms) @ rest, rd_end = e\<rparr>"
    and "list_all in_use ms" and "list_all frame_ok ms" and "\<And>m. m \<in> set ms \<Longrightarrow> chanList_getChan (fst (Channel m)) (chans s) \<noteq> None"
    and "\<And>i r ch. chanList_getChan i (chans s) = Some r \<Longrightarrow> heap s r = Some ch \<Longrightarrow> alone (frames_for i ms) ch = Some (fin r)"
  shows "\<exists>s'. packets (length ms) s = Some s' \<and> sess_inv s' \<and> dec s' = \<lparr>rd_buf = rest, rd_end = e\<rparr> \<and> chans s' = chans s \<and> enc s' = enc s
    \<and> (\<forall>i r. chanList_getChan i (chans s) = Some r \<longrightarrow> heap s' r = Some (fin r))
    \<and> (\<forall>r. (\<nexists>i. chanList_getChan i (chans s) = Some r) \<longrightarrow> heap s' r = heap s r)"
  using assms
proof (induction ms arbitrary: s)
  case Nil
  then have "heap s r = Some (fin r)" if "chanList_getChan i (chans s) = Some r" for i r
    using sess_invD(4) [OF Nil.prems(1) that] Nil.prems(6) [OF that] by (auto simp: frames_for_def)
  with Nil show ?case by simp
next
  case (Cons m ms)
  let ?i = "fst (Channel m)"
  have m: "in_use m" "frame_ok m" "Channel m = (?i, True)" using Cons.prems(3,4) by (cases m; simp)+
  from Cons.prems(5) [of m] obtain r where r: "chanList_getChan ?i (chans s) = Some r" by auto
  from sess_invD(4) [OF Cons.prems(1) r] obtain ch where ch: "heap s r = Some ch" "localId ch = ?i" "\<not> msg_closed ch" by blast
  let ?w = "\<lparr>wr_buf = [], wr_fail = None\<rparr>"
  have "frames_for ?i (m # ms) = m # frames_for ?i ms" by (simp add: frames_for_def)
  with Cons.prems(6) [OF r ch(1)] obtain ch1 cs1 w1 where "handle m ch [] ?w = HRet None ch1 cs1 w1" and a: "alone (frames_for ?i ms) ch1 = Some (fin r)"
    by (auto split: handle_result.splits option.splits)
  then have h: "handle m ch (chans s) (enc s) = HRet None ch1 (chans s) (enc s)" using handle_in_use m(1) by blast
  let ?rd = "\<lparr>rd_buf = concat (map Bytes ms) @ rest, rd_end = e\<rparr>"
  let ?s1 = "put_chan r ch1 (s\<lparr>dec := ?rd\<rparr>)"
  have "Decode (dec s) = RdOk m ?rd" using Decode_Bytes [OF m(2)] Cons.prems(2) by simp
  moreover obtain i0 where "Channel m = (i0, True)" using m(3) by blast
  ultimately have p: "onePacket s = PRet None ?s1" using r ch h by (simp add: onePacket_def after_handle_def put_chan_def)
  have "keeps ch ch1" by (rule handle_in_use_keeps [OF m(1,2) h ch(3)])
  with put_chan_inv [OF Cons.prems(1) ch(1), of ch1 ?s1] have inv: "sess_inv ?s1" by simp
  have "\<exists>s'. packets (length ms) ?s1 = Some s' \<and> sess_inv s' \<and> dec s' = \<lparr>rd_buf = rest, rd_end = e\<rparr> \<and> chans s' = chans ?s1 \<and> enc s' = enc ?s1
    \<and> (\<forall>i r. chanList_getChan i (chans ?s1) = Some r \<longrightarrow> heap s' r = Some (fin r))
    \<and> (\<forall>r. (\<nexists>i. chanList_getChan i (chans ?s1) = Some r) \<longrightarrow> heap s' r = heap ?s1 r)"
  proof (rule Cons.IH [OF inv])
    fix i r' ch'
    assume i: "chanList_getChan i (chans ?s1) = Some r'" and ch': "heap ?s1 r' = Some ch'"
    show "alone (frames_for i ms) ch' = Some (fin r')"
    proof (cases "i = ?i")
      case True
      with i r ch' a show ?thesis by simp
    next
      case False
      with i r getChan_inj [OF Cons.prems(1)] have "r' \<noteq> r" by auto
      with Cons.prems(6) [of i r' ch'] i ch' False show ?thesis by (simp add: frames_for_def)
    qed
  qed (use Cons.prems in auto)
  with p r show ?case by auto
qed

section \<open>Properties\<close>

text \<open>A session with two channels and frames for both, for the witnesses.\<close>

definition two_open :: session where
  "two_open = snd (snd (Open_send one_channel))"

definition mixed :: "Message list" where
  "mixed = [DataMessage 0 1 [7], DataMessage 1 1 [8], DataMessage 0 1 [9]]"

definition two_mixed :: session where
  "two_mixed = two_open\<lparr>dec := \<lparr>rd_buf = concat (map Bytes mixed), rd_end = None\<rparr>\<rparr>"

definition mixed_end :: "nat \<Rightarrow> channel" where
  "mixed_end r = the (alone (frames_for (of_nat r) mixed) (requested (of_nat r)))"

lemma two_open_state:
  "chans two_open = [Some 0, Some 1]" "heap two_open 0 = Some (requested 0)" "heap two_open (Suc 0) = Some (requested 1)"
  by (simp_all add: two_open_def one_channel_def New_def Open_send_def newChannel_def chanList_add_def requested_def Let_def split: prod.splits)

text \<open>
  C13: demultiplexing. The next frames of a session are data, end and credit frames for channels of its table, mixed in any order, such that each channel, alone with its own frames, would
  handle them without an error and come out as \<open>fin\<close>. Then the loop handles them all without an error or a wait, takes exactly their bytes off the transport, writes nothing and leaves the table as it is; each channel comes out as it
  would alone, with exactly the data addressed to it behind what it had buffered, and every other channel is unchanged.
\<close>

theorem session_demultiplexes:
  assumes "sess_inv s" and "dec s = \<lparr>rd_buf = concat (map Bytes ms) @ rest, rd_end = e\<rparr>"
    and "list_all in_use ms" and "list_all frame_ok ms" and "\<And>m. m \<in> set ms \<Longrightarrow> chanList_getChan (fst (Channel m)) (chans s) \<noteq> None"
    and "\<And>i r ch. chanList_getChan i (chans s) = Some r \<Longrightarrow> heap s r = Some ch \<Longrightarrow> alone (frames_for i ms) ch = Some (fin r)"
  shows "\<exists>s'. packets (length ms) s = Some s' \<and> sess_inv s' \<and> dec s' = \<lparr>rd_buf = rest, rd_end = e\<rparr> \<and> chans s' = chans s \<and> enc s' = enc s
    \<and> (\<forall>i r ch. chanList_getChan i (chans s) = Some r \<and> heap s r = Some ch \<longrightarrow> heap s' r = Some (fin r)
         \<and> contents (pending (fin r)) = contents (pending ch) @ concat (map data_of (frames_for i ms)))
    \<and> (\<forall>r. (\<nexists>i. chanList_getChan i (chans s) = Some r) \<longrightarrow> heap s' r = heap s r)"
proof -
  have "contents (pending (fin r)) = contents (pending ch) @ concat (map data_of (frames_for i ms))"
    if "chanList_getChan i (chans s) = Some r" "heap s r = Some ch" for i r ch
  proof (rule alone_bytes [OF assms(6) [OF that]])
    show "chan_inv ch" using sess_invD(3) [OF assms(1) that(2)] .
    show "\<not> msg_closed ch" using sess_invD(4) [OF assms(1) that(1)] that(2) by auto
  qed (use assms(3,4) in \<open>simp_all add: frames_for_def list_all_iff\<close>)
  with packets_demux [where fin = fin, OF assms(1-4) assms(5,6)] show ?thesis by blast
qed

lemma mixed_alone:
  "alone (frames_for 0 mixed) (requested 0) = Some (mixed_end 0)" "alone (frames_for 1 mixed) (requested 1) = Some (mixed_end 1)"
  "list_all in_use mixed" "list_all frame_ok mixed" "length mixed = 3"
  by (simp_all add: mixed_end_def mixed_def frames_for_def requested_def handle_def handleData_def channelWindowSize_def channelMaxPacket_def frame_ok_def)

lemma two_mixed_inv: "sess_inv two_mixed"
proof -
  obtain err r where "Open_send one_channel = (err, r, two_open)" by (metis two_open_def prod.collapse)
  from Open_send_inv [OF one_channel_inv this] have "sess_inv two_open" by (simp add: two_open_state has_room_def)
  then show ?thesis by (simp add: two_mixed_def sess_inv_def)
qed

lemma two_mixed_getChan: "chanList_getChan i (chans two_mixed) = (if i = 0 then Some 0 else if i = 1 then Some 1 else None)"
proof -
  have "i = 0 \<or> i = 1" if "i < 2"
  proof -
    from that have "unat i < 2" by (simp add: word_less_nat_alt)
    then have "unat i = 0 \<or> unat i = 1" by linarith
    then show ?thesis by (metis unat_0 unat_1 word_unat_eq_iff)
  qed
  then show ?thesis by (auto simp: two_mixed_def two_open_state chanList_getChan_def)
qed

lemma two_mixed_heap: "heap two_mixed 0 = Some (requested 0)" "heap two_mixed (Suc 0) = Some (requested 1)"
  by (simp_all add: two_mixed_def two_open_state)

theorem session_demultiplexes_witness:
  "\<exists>s'. packets 3 two_mixed = Some s' \<and> heap s' 0 = Some (mixed_end 0) \<and> heap s' 1 = Some (mixed_end 1)
     \<and> contents (pending (mixed_end 0)) = [7, 9] \<and> contents (pending (mixed_end 1)) = [8]"
proof -
  have d: "dec two_mixed = \<lparr>rd_buf = concat (map Bytes mixed) @ [], rd_end = None\<rparr>" by (simp add: two_mixed_def)
  have t: "\<And>m. m \<in> set mixed \<Longrightarrow> chanList_getChan (fst (Channel m)) (chans two_mixed) \<noteq> None"
    by (auto simp: mixed_def two_mixed_getChan)
  have a: "alone (frames_for i mixed) ch = Some (mixed_end r)" if "chanList_getChan i (chans two_mixed) = Some r" "heap two_mixed r = Some ch" for i r ch
    using that mixed_alone(1,2) two_mixed_heap by (auto simp: two_mixed_getChan split: if_splits)
  from session_demultiplexes [where fin = mixed_end, OF two_mixed_inv d mixed_alone(3,4) t a] obtain s' where
    p: "packets 3 two_mixed = Some s'" and s': "\<And>i r ch. chanList_getChan i (chans two_mixed) = Some r \<Longrightarrow> heap two_mixed r = Some ch \<Longrightarrow>
       heap s' r = Some (mixed_end r) \<and> contents (pending (mixed_end r)) = contents (pending ch) @ concat (map data_of (frames_for i mixed))"
    unfolding mixed_alone(5) by blast
  have "heap s' 0 = Some (mixed_end 0)" "contents (pending (mixed_end 0)) = [7, 9]"
    using s' [of 0 0 "requested 0"] by (simp_all add: two_mixed_getChan two_mixed_heap requested_def frames_for_def mixed_def)
  moreover have "heap s' 1 = Some (mixed_end 1)" "contents (pending (mixed_end 1)) = [8]"
    using s' [of 1 1 "requested 1"] by (simp_all add: two_mixed_getChan two_mixed_heap requested_def frames_for_def mixed_def)
  ultimately show ?thesis using p by blast
qed

text \<open>
  No crosstalk. Whatever packet the loop reads next, of any type and from any peer, the only channel whose state can change is the one that the packet is addressed to; a packet that opens a channel changes
  none, it only adds a new one.
\<close>

theorem onePacket_touches_one_channel:
  assumes "packet_session (onePacket s) = Some s'" and "heap s' r \<noteq> heap s r"
  shows "\<exists>m rd. Decode (dec s) = RdOk m rd \<and> (if snd (Channel m) then chanList_getChan (fst (Channel m)) (chans s) = Some r else r = next_ref s)"
proof (cases "Decode (dec s)")
  case (RdOk m rd)
  obtain i b where c: "Channel m = (i, b)" by (cases "Channel m")
  show ?thesis
  proof (cases b)
    case True
    with RdOk c assms obtain r1 where "chanList_getChan i (chans s) = Some r1" "heap s' = (heap s)(r1 := heap s' r1)"
      by (fastforce simp: onePacket_def after_handle_def Let_def split: option.splits handle_result.splits)
    with assms(2) RdOk c True show ?thesis by (metis fst_conv fun_upd_other snd_conv)
  next
    case False
    with c obtain sid wsize maxp where m: "m = OpenMessage sid wsize maxp" by (cases m) auto
    have "heap s' = (heap s)(next_ref s := heap s' (next_ref s)) \<or> heap s' = heap s"
      using RdOk c False assms(1) unfolding m
      by (auto simp: onePacket_def handleOpen_def newChannel_def Let_def split: if_splits prod.splits)
    with assms(2) RdOk c False show ?thesis by (metis fun_upd_other snd_conv)
  qed
qed (use assms in \<open>auto simp: onePacket_def\<close>)

theorem onePacket_touches_one_channel_witness:
  "\<exists>s' m rd. packet_session (onePacket two_mixed) = Some s' \<and> heap s' 0 \<noteq> heap two_mixed 0
     \<and> Decode (dec two_mixed) = RdOk m rd \<and> chanList_getChan (fst (Channel m)) (chans two_mixed) = Some 0"
proof -
  have d: "Decode (dec two_mixed) = RdOk (DataMessage 0 1 [7]) \<lparr>rd_buf = concat (map Bytes (tl mixed)), rd_end = None\<rparr>"
    using Decode_Bytes [of "DataMessage 0 1 [7]"] by (simp add: two_mixed_def mixed_def frame_ok_def)
  then have "\<exists>s'. packet_session (onePacket two_mixed) = Some s' \<and> heap s' 0 \<noteq> heap two_mixed 0"
    by (simp add: onePacket_def two_mixed_getChan two_mixed_heap after_handle_def handle_def handleData_def requested_def channelWindowSize_def channelMaxPacket_def)
  then obtain s' where s': "packet_session (onePacket two_mixed) = Some s'" "heap s' 0 \<noteq> heap two_mixed 0" by blast
  from onePacket_touches_one_channel [OF s'] d s' show ?thesis by (auto split: if_splits)
qed

end
