(* ===== verification/Mux_Pipe.thy ===== *)
theory Mux_Pipe
  imports Mux_Flow
begin

text \<open>
  What one direction of a qmux channel promises to the two programs: a bounded pipe of bytes. The abstract pipe is a queue that holds at most
  the window; its events are the bytes put in by one \<^verbatim>\<open>Encode\<close> of \<^verbatim>\<open>Write\<close> and the bytes taken out by one \<^verbatim>\<open>Read\<close>. The interface
  \<open>simulation\<close> says when a system whose steps may be invisible implements such a specification; it is interpreted on the two peers of \<^theory_text>\<open>Mux_Flow\<close>, with
  frames, windows and buffers hidden.

  The lemmas show that every interleaving of the two programs is a run of the pipe, so a program that uses a channel
  can be verified against the pipe alone.
\<close>

section \<open>Simulation\<close>

text \<open>Sequences of visible events of a system whose steps show an event or nothing.\<close>

inductive run_of :: "('s \<Rightarrow> 'e option \<Rightarrow> 's \<Rightarrow> bool) \<Rightarrow> 's \<Rightarrow> 'e list \<Rightarrow> 's \<Rightarrow> bool" for step s where
  start: "run_of step s [] s"
| silent: "run_of step s tr s1 \<Longrightarrow> step s1 None s2 \<Longrightarrow> run_of step s tr s2"
| visible: "run_of step s tr s1 \<Longrightarrow> step s1 (Some e) s2 \<Longrightarrow> run_of step s (tr @ [e]) s2"

text \<open>Sequences of events of a specification, in which every step is visible.\<close>

inductive trace_of :: "('a \<Rightarrow> 'e \<Rightarrow> 'a \<Rightarrow> bool) \<Rightarrow> 'a \<Rightarrow> 'e list \<Rightarrow> 'a \<Rightarrow> bool" for step a where
  empty: "trace_of step a [] a"
| event: "trace_of step a tr a1 \<Longrightarrow> step a1 e a2 \<Longrightarrow> trace_of step a (tr @ [e]) a2"

text \<open>
  A concrete system with an invariant implements an abstract one through \<open>abs\<close>: a visible step is the abstract step with
  the same event, a silent step changes nothing that can be seen.
\<close>

locale simulation =
  fixes cstep :: "'c \<Rightarrow> 'e option \<Rightarrow> 'c \<Rightarrow> bool"
    and astep :: "'a \<Rightarrow> 'e \<Rightarrow> 'a \<Rightarrow> bool"
    and abs :: "'c \<Rightarrow> 'a"
    and inv :: "'c \<Rightarrow> bool"
  assumes keeps_inv: "inv s \<Longrightarrow> cstep s x s' \<Longrightarrow> inv s'"
    and visible_step: "inv s \<Longrightarrow> cstep s (Some e) s' \<Longrightarrow> astep (abs s) e (abs s')"
    and silent_step: "inv s \<Longrightarrow> cstep s None s' \<Longrightarrow> abs s' = abs s"
begin

lemma run_inv: "run_of cstep s tr s' \<Longrightarrow> inv s \<Longrightarrow> inv s'"
  by (induction rule: run_of.induct) (auto intro: keeps_inv)

lemma refines:
  assumes "run_of cstep s tr s'" and "inv s"
  shows "trace_of astep (abs s) tr (abs s')"
  using assms(1)
proof (induction rule: run_of.induct)
  case (silent tr s1 s2)
  with run_inv [OF silent.hyps(1) assms(2)] show ?case by (simp add: silent_step)
next
  case (visible tr s1 e s2)
  with run_inv [OF visible.hyps(1) assms(2)] show ?case
    by (auto intro: trace_of.event visible_step)
qed (rule trace_of.empty)

end

section \<open>The pipe\<close>

datatype pipe_event = Put bytes | Get bytes

inductive pipe_step :: "nat \<Rightarrow> bytes \<Rightarrow> pipe_event \<Rightarrow> bytes \<Rightarrow> bool" for cap where
  put: "c \<noteq> [] \<Longrightarrow> length (q @ c) \<le> cap \<Longrightarrow> pipe_step cap q (Put c) (q @ c)"
| get: "d \<noteq> [] \<Longrightarrow> pipe_step cap (d @ q) (Get d) q"

abbreviation pipe_run :: "nat \<Rightarrow> pipe_event list \<Rightarrow> bytes \<Rightarrow> bool" where
  "pipe_run cap \<equiv> trace_of (pipe_step cap) []"

primrec put_bytes :: "pipe_event \<Rightarrow> bytes" where
  "put_bytes (Put c) = c"
| "put_bytes (Get d) = []"

primrec got_bytes :: "pipe_event \<Rightarrow> bytes" where
  "got_bytes (Put c) = []"
| "got_bytes (Get d) = d"

text \<open>A pipe keeps the order, loses nothing and repeats nothing.\<close>

lemma pipe_run_fifo:
  assumes "pipe_run cap tr q"
  shows "concat (map put_bytes tr) = concat (map got_bytes tr) @ q \<and> length q \<le> cap"
  using assms
proof (induction rule: trace_of.induct)
  case (event tr q e q')
  from event.hyps(2) event.IH show ?case by cases auto
qed simp

section \<open>The channel as a pipe\<close>

text \<open>What a step of the two peers shows, and what is left in the pipe: the bytes buffered by the receiver, then those on the wire.\<close>

definition flow_event :: "flow \<Rightarrow> flow \<Rightarrow> pipe_event option" where
  "flow_event f f' =
     (if sent f' \<noteq> sent f then Some (Put (drop (length (sent f)) (sent f')))
      else if got f' \<noteq> got f then Some (Get (drop (length (got f)) (got f')))
      else None)"

definition flow_step :: "flow \<Rightarrow> pipe_event option \<Rightarrow> flow \<Rightarrow> bool" where
  "flow_step f e f' \<longleftrightarrow> fstep f f' \<and> e = flow_event f f'"

definition unread :: "flow \<Rightarrow> bytes" where
  "unread f = contents (pending (rcv_ch f)) @ concat (map data_of (wire f))"

lemma unread_bytes: "flow_inv f \<Longrightarrow> got f @ unread f = sent f"
  using flow_inv_bytes [of f] by (simp add: unread_def)

lemma unread_bound: "flow_inv f \<Longrightarrow> length (unread f) \<le> unat channelWindowSize"
  by (auto simp: flow_inv_def in_flight_def unread_def)

text \<open>A step adds bytes to what was sent or to what was got, or to neither.\<close>

lemma fstep_grows:
  assumes "fstep f f'"
  obtains c where "sent f' = sent f @ c" and "got f' = got f"
    | d where "sent f' = sent f" and "got f' = got f @ d"
  using assms by (cases rule: fstep.cases) auto

lemma flow_step_pipe:
  assumes "flow_inv f" and "fstep f f'"
  shows "case flow_event f f' of None \<Rightarrow> unread f' = unread f
    | Some e \<Rightarrow> pipe_step (unat channelWindowSize) (unread f) e (unread f')"
  using assms(2)
proof (cases rule: fstep_grows)
  case (1 c)
  with unread_bytes [OF assms(1)] unread_bytes [OF fstep_inv [OF assms(2,1)]]
  have "got f @ unread f' = got f @ unread f @ c" by simp
  then have "unread f' = unread f @ c" by simp
  with 1 unread_bound [OF fstep_inv [OF assms(2,1)]] show ?thesis
    by (auto simp: flow_event_def intro: pipe_step.put)
next
  case (2 d)
  with unread_bytes [OF assms(1)] unread_bytes [OF fstep_inv [OF assms(2,1)]]
  have "got f @ unread f = got f @ d @ unread f'" by simp
  then have "unread f = d @ unread f'" by simp
  with 2 show ?thesis by (auto simp: flow_event_def intro: pipe_step.get)
qed

interpretation fp: simulation flow_step "pipe_step (unat channelWindowSize)" unread flow_inv
proof
  fix f e f'
  assume inv: "flow_inv f" and step: "flow_step f e f'"
  from step show "flow_inv f'" using inv by (auto simp: flow_step_def intro: fstep_inv)
next
  fix f e f'
  assume "flow_inv f" and "flow_step f (Some e) f'"
  then show "pipe_step (unat channelWindowSize) (unread f) e (unread f')"
    using flow_step_pipe [of f f'] by (auto simp: flow_step_def split: option.splits)
next
  fix f f'
  assume "flow_inv f" and "flow_step f None f'"
  then show "unread f' = unread f" using flow_step_pipe [of f f'] by (auto simp: flow_step_def split: option.splits)
qed

section \<open>Properties\<close>

text \<open>
  One direction of a channel implements a bounded pipe. Every interleaving of writers, readers and packet loops of the two programs, seen as the sequence
  of the bytes put on the wire and the bytes read, is a run of a queue of bytes that never holds more than the window of 2^30 bytes,
  and the queue at the end is what the receiver has buffered followed by what is still on the wire. So the bytes read, followed by this queue, are the bytes written, in order.
\<close>

theorem channel_implements_pipe:
  assumes "paired a b" and "run_of flow_step (flow_start a b) tr f"
    and "q = contents (pending (rcv_ch f)) @ concat (map data_of (wire f))"
  shows "pipe_run (unat channelWindowSize) tr q
    \<and> concat (map got_bytes tr) @ q = concat (map put_bytes tr) \<and> length q \<le> unat channelWindowSize"
proof -
  have "trace_of (pipe_step (unat channelWindowSize)) (unread (flow_start a b)) tr (unread f)"
    by (rule fp.refines [OF assms(2) flow_start_inv [OF assms(1)]])
  moreover have "unread (flow_start a b) = []"
    using assms(1) by (simp add: unread_def flow_start_def paired_def)
  ultimately have "pipe_run (unat channelWindowSize) tr q" by (simp only: unread_def assms(3))
  with pipe_run_fifo [OF this] show ?thesis by metis
qed

theorem channel_implements_pipe_witness:
  "\<exists>a b f. paired a b \<and> run_of flow_step (flow_start a b) [Put [1, 2]] f \<and> pipe_run (unat channelWindowSize) [Put [1, 2]] [1, 2]"
proof -
  let ?a = "(requested 0)\<lparr>remoteId := 0, maxRemotePayload := channelMaxPacket, remoteWin := full_window\<rparr>"
  let ?b = "offered 0 0" let ?f0 = "flow_start ?a ?b"
  let ?rw = "full_window\<lparr>win := channelWindowSize - 2\<rparr>"
  let ?f1 = "?f0\<lparr>snd_ch := ?a\<lparr>remoteWin := ?rw\<rparr>, hand := [[1, 2]]\<rparr>"
  let ?f2 = "?f1\<lparr>hand := [], wire := [data_frame 0 [1, 2]], sent := [1, 2]\<rparr>"
  have "Mux_Window.reserve (chan_min channelMaxPacket (Suc (Suc 0))) full_window = Some (2, None, ?rw)" by code_simp
  then have "flow_step ?f0 None ?f1"
    using fstep.reserve [of "[1, 2]" ?f0 2 ?rw] by (simp add: flow_start_def requested_def flow_step_def flow_event_def)
  moreover have "flow_step ?f1 (Some (Put [1, 2])) ?f2"
    using fstep.encode [of ?f1 "[]" "[1, 2]" "[]"] by (simp add: flow_start_def requested_def flow_step_def flow_event_def)
  ultimately have r: "run_of flow_step ?f0 ([] @ [Put [1, 2]]) ?f2" by (meson run_of.intros)
  from channel_implements_pipe [OF sample_pair(1) this refl] have "pipe_run (unat channelWindowSize) [Put [1, 2]] [1, 2]"
    by (simp add: flow_start_def data_frame_def offered_def requested_def)
  with r sample_pair(1) show ?thesis by (intro exI [of _ ?a] exI [of _ ?b] exI [of _ ?f2]) simp
qed

end
