(* ===== verification/Mux_Duplex.thy ===== *)
theory Mux_Duplex
  imports Mux_Pipe "HOL-Library.Sublist"
begin

text \<open>
  A channel in both directions at once: the two peers of \<^theory_text>\<open>Mux_Flow\<close>, each of them a sender and a receiver on the same channel record, with one wire each way that carries
  data, its end and window adjustments in the order they were sent. A peer is a \<open>side\<close>, and the system is a map from \<open>bool\<close> to sides.

  The lemmas show that each direction of such a system moves like the one-way system of \<^theory_text>\<open>Mux_Flow\<close>, whatever the other direction does: so it
  refines two independent bounded pipes, and no frame of one direction makes the other one fail.
\<close>

section \<open>The system\<close>

record side =
  chn :: channel
  s_hand :: "bytes list"      \<comment> \<open>chunks reserved by writers and not yet encoded\<close>
  s_out :: "Message list"     \<comment> \<open>frames to the other side\<close>
  s_taken :: "nat list"       \<comment> \<open>bytes taken by readers, the window not yet raised\<close>
  s_raised :: "nat list"      \<comment> \<open>the window raised, the adjustment not yet sent\<close>
  s_put :: bytes              \<comment> \<open>all data encoded so far\<close>
  s_got :: bytes              \<comment> \<open>all data read so far\<close>
  s_failed :: "go_error option"  \<comment> \<open>an error of handle, which ends a session\<close>

type_synonym duplex = "bool \<Rightarrow> side"

text \<open>What the goroutines of one side do on their own.\<close>

inductive side_step :: "side \<Rightarrow> side \<Rightarrow> bool" where
  reserve: "data \<noteq> [] \<Longrightarrow> length data < 2 ^ 32 \<Longrightarrow>
    Mux_Window.reserve (chan_min (maxRemotePayload (chn s)) (length data)) (remoteWin (chn s)) = Some (n, None, rw) \<Longrightarrow>
    side_step s (s\<lparr>chn := (chn s)\<lparr>remoteWin := rw\<rparr>, s_hand := take (unat n) data # s_hand s\<rparr>)"
| encode: "s_hand s = xs @ c # ys \<Longrightarrow>
    side_step s (s\<lparr>s_hand := xs @ ys, s_out := s_out s @ [data_frame (remoteId (chn s)) c], s_put := s_put s @ c\<rparr>)"
| close_write:
    "side_step s (s\<lparr>chn := (chn s)\<lparr>sentEOF := True\<rparr>, s_out := s_out s @ [EOFMessage (remoteId (chn s))]\<rparr>)"
| read: "buffer_Read k (pending (chn s)) = Some (RDone d e b) \<Longrightarrow> d \<noteq> [] \<Longrightarrow>
    side_step s (s\<lparr>chn := (chn s)\<lparr>pending := b\<rparr>, s_got := s_got s @ d, s_taken := length d # s_taken s\<rparr>)"
| adjust: "s_taken s = xs @ n # ys \<Longrightarrow>
    side_step s (s\<lparr>chn := (chn s)\<lparr>myWindow := myWindow (chn s) + of_nat n\<rparr>, s_taken := xs @ ys, s_raised := n # s_raised s\<rparr>)"
| send_adjust: "s_raised s = xs @ n # ys \<Longrightarrow>
    side_step s (s\<lparr>s_raised := xs @ ys, s_out := s_out s @ [WindowAdjustMessage (remoteId (chn s)) (of_nat n)]\<rparr>)"

text \<open>A step of the system: one of a side, or the packet loop of a side takes the next frame of the other.\<close>

inductive dstep :: "duplex \<Rightarrow> duplex \<Rightarrow> bool" where
  local: "side_step (d x) s \<Longrightarrow> dstep d (d(x := s))"
| deliver: "s_out (d (\<not> x)) = m # ms \<Longrightarrow> handle m (chn (d x)) cs w = HRet err ch' cs' w' \<Longrightarrow>
    dstep d (d(x := (d x)\<lparr>chn := ch', s_failed := (if err = None then s_failed (d x) else err)\<rparr>, \<not> x := (d (\<not> x))\<lparr>s_out := ms\<rparr>))"

definition side_start :: "channel \<Rightarrow> side" where
  "side_start c = \<lparr>chn = c, s_hand = [], s_out = [], s_taken = [], s_raised = [], s_put = [], s_got = [], s_failed = None\<rparr>"

definition duplex_start :: "channel \<Rightarrow> channel \<Rightarrow> duplex" where
  "duplex_start a b = (\<lambda>x. side_start (if x then a else b))"

inductive dreach :: "channel \<Rightarrow> channel \<Rightarrow> duplex \<Rightarrow> bool" for a b where
  init: "dreach a b (duplex_start a b)"
| step: "dreach a b d \<Longrightarrow> dstep d d' \<Longrightarrow> dreach a b d'"

section \<open>One direction\<close>

text \<open>The fields of a channel that a sender and a receiver use; the others are set to fixed values.\<close>

definition as_sender :: "channel \<Rightarrow> channel" where
  "as_sender c = c\<lparr>pending := newBuffer, myWindow := 0\<rparr>"

definition as_receiver :: "channel \<Rightarrow> channel" where
  "as_receiver c = c\<lparr>remoteWin := window_new, sentEOF := False\<rparr>"

fun forward :: "Message \<Rightarrow> bool" where
  "forward (DataMessage _ _ _) = True"
| "forward (EOFMessage _) = True"
| "forward _ = False"

definition direction_of :: "duplex \<Rightarrow> bool \<Rightarrow> flow" where
  "direction_of d x = \<lparr>snd_ch = as_sender (chn (d x)), rcv_ch = as_receiver (chn (d (\<not> x))), hand = s_hand (d x), wire = filter forward (s_out (d x)),
     taken = s_taken (d (\<not> x)), raised = s_raised (d (\<not> x)), wire_back = filter adjust_ok (s_out (d (\<not> x))),
     sent = s_put (d x), got = s_got (d (\<not> x)), failed = None\<rparr>"

definition duplex_inv :: "duplex \<Rightarrow> bool" where
  "duplex_inv d \<longleftrightarrow> (\<forall>x. flow_inv (direction_of d x) \<and> s_failed (d x) = None \<and> list_all (\<lambda>m. forward m \<or> adjust_ok m) (s_out (d x)))"

lemma duplex_invD:
  "duplex_inv d \<Longrightarrow> flow_inv (direction_of d x)" "duplex_inv d \<Longrightarrow> s_failed (d x) = None"
  "duplex_inv d \<Longrightarrow> list_all (\<lambda>m. forward m \<or> adjust_ok m) (s_out (d x))"
  unfolding duplex_inv_def by blast+

lemma mask_simps [simp]:
  "remoteWin (as_sender c) = remoteWin c" "remoteId (as_sender c) = remoteId c" "maxRemotePayload (as_sender c) = maxRemotePayload c"
  "remoteId (as_receiver c) = remoteId c" "pending (as_receiver c) = pending c" "myWindow (as_receiver c) = myWindow c"
  "as_sender (c\<lparr>remoteWin := rw\<rparr>) = (as_sender c)\<lparr>remoteWin := rw\<rparr>" "as_sender (c\<lparr>sentEOF := b\<rparr>) = (as_sender c)\<lparr>sentEOF := b\<rparr>"
  "as_sender (c\<lparr>pending := bu\<rparr>) = as_sender c" "as_sender (c\<lparr>myWindow := n\<rparr>) = as_sender c"
  "as_receiver (c\<lparr>remoteWin := rw\<rparr>) = as_receiver c" "as_receiver (c\<lparr>sentEOF := b\<rparr>) = as_receiver c"
  "as_receiver (c\<lparr>pending := bu\<rparr>) = (as_receiver c)\<lparr>pending := bu\<rparr>" "as_receiver (c\<lparr>myWindow := n\<rparr>) = (as_receiver c)\<lparr>myWindow := n\<rparr>"
  by (simp_all add: as_sender_def as_receiver_def)

lemma direction_simps [simp]:
  "sent (direction_of d x) = s_put (d x)" "got (direction_of d x) = s_got (d (\<not> x))" "hand (direction_of d x) = s_hand (d x)"
  "snd_ch (direction_of d x) = as_sender (chn (d x))" "rcv_ch (direction_of d x) = as_receiver (chn (d (\<not> x)))"
  "taken (direction_of d x) = s_taken (d (\<not> x))" "raised (direction_of d x) = s_raised (d (\<not> x))" "failed (direction_of d x) = None"
  "wire (direction_of d x) = filter forward (s_out (d x))" "wire_back (direction_of d x) = filter adjust_ok (s_out (d (\<not> x)))"
  by (simp_all add: direction_of_def)

lemma start_inv:
  assumes "paired a b" and "paired b a"
  shows "duplex_inv (duplex_start a b)"
proof -
  have "direction_of (duplex_start a b) x = flow_start (as_sender (if x then a else b)) (as_receiver (if x then b else a))" for x
    by (simp add: direction_of_def duplex_start_def side_start_def flow_start_def)
  moreover have "paired (as_sender (if x then a else b)) (as_receiver (if x then b else a))" for x
    using assms by (simp add: paired_def as_receiver_def)
  ultimately show ?thesis using flow_start_inv by (simp add: duplex_inv_def duplex_start_def side_start_def)
qed

lemma side_step_keeps:
  assumes "side_step s s'"
  shows "s_failed s' = s_failed s" and "\<exists>ms. s_out s' = s_out s @ ms \<and> list_all (\<lambda>m. forward m \<or> adjust_ok m) ms"
  using assms by (cases rule: side_step.cases; simp add: data_frame_def)+

text \<open>A step of a side is a step of the one or the other direction, which the remaining direction does not see.\<close>

lemma local_direction:
  assumes "side_step (d x) s"
  shows "fstep (direction_of d x) (direction_of (d(x := s)) x) \<and> direction_of (d(x := s)) (\<not> x) = direction_of d (\<not> x)
    \<or> fstep (direction_of d (\<not> x)) (direction_of (d(x := s)) (\<not> x)) \<and> direction_of (d(x := s)) x = direction_of d x"
  using assms
proof (cases rule: side_step.cases)
  case (reserve data n rw)
  then have "fstep (direction_of d x) (direction_of (d(x := s)) x)"
    using fstep.reserve [of data "direction_of d x" n rw] by (simp add: direction_of_def)
  with reserve show ?thesis by (simp add: direction_of_def)
next
  case (encode xs c ys)
  then have "fstep (direction_of d x) (direction_of (d(x := s)) x)"
    using fstep.encode [of "direction_of d x" xs c ys] by (simp add: direction_of_def data_frame_def)
  with encode show ?thesis by (simp add: direction_of_def data_frame_def)
next
  case close_write
  then have "fstep (direction_of d x) (direction_of (d(x := s)) x)"
    using fstep.close_write [of "direction_of d x"] by (simp add: direction_of_def)
  with close_write show ?thesis by (simp add: direction_of_def)
next
  case (read k da e b)
  then have "fstep (direction_of d (\<not> x)) (direction_of (d(x := s)) (\<not> x))"
    using fstep.read [of k "direction_of d (\<not> x)" da e b] by (simp add: direction_of_def)
  with read show ?thesis by (simp add: direction_of_def)
next
  case (adjust xs n ys)
  then have "fstep (direction_of d (\<not> x)) (direction_of (d(x := s)) (\<not> x))"
    using fstep.adjust [of "direction_of d (\<not> x)" xs n ys] by (simp add: direction_of_def)
  with adjust show ?thesis by (simp add: direction_of_def)
next
  case (send_adjust xs n ys)
  then have "fstep (direction_of d (\<not> x)) (direction_of (d(x := s)) (\<not> x))"
    using fstep.send_adjust [of "direction_of d (\<not> x)" xs n ys] by (simp add: direction_of_def)
  with send_adjust show ?thesis by (simp add: direction_of_def)
qed

lemma handle_forward:
  assumes "forward m" and "handle m c cs w = HRet err c' cs' w'"
  shows "handle m (as_receiver c) cs w = HRet err (as_receiver c') cs' w'" and "as_sender c' = as_sender c"
  using assms by (cases m; auto simp: handle_def handleData_def as_receiver_def as_sender_def split: if_splits)+

lemma handle_backward:
  assumes "adjust_ok m" and "handle m c cs w = HRet err c' cs' w'"
  shows "handle m (as_sender c) cs w = HRet err (as_sender c') cs' w'" and "as_receiver c' = as_receiver c"
  using assms by (cases m; auto simp: handle_def split: prod.splits if_splits)+

lemma deliver_direction:
  assumes "duplex_inv d" and "s_out (d (\<not> x)) = m # ms" and "handle m (chn (d x)) cs w = HRet err ch' cs' w'"
  defines "d' \<equiv> d(x := (d x)\<lparr>chn := ch', s_failed := (if err = None then s_failed (d x) else err)\<rparr>, \<not> x := (d (\<not> x))\<lparr>s_out := ms\<rparr>)"
  shows "err = None \<and> (\<exists>y. fstep (direction_of d y) (direction_of d' y) \<and> direction_of d' (\<not> y) = direction_of d (\<not> y)
    \<and> distance (direction_of d' y) < distance (direction_of d y))"
proof -
  note inv = duplex_invD(1) [OF assms(1)]
  have "forward m \<or> adjust_ok m" using duplex_invD(3) [OF assms(1), of "\<not> x"] assms(2) by simp
  then show ?thesis
  proof
    assume m: "forward m"
    let ?f = "direction_of d (\<not> x)"
    have w: "wire ?f = m # filter forward ms" and h: "handle m (rcv_ch ?f) cs w = HRet err (as_receiver ch') cs' w'"
      using assms(2) m handle_forward(1) [OF m assms(3)] by simp_all
    note st = fstep.deliver [OF w h]
    from fstep_inv [OF st inv] have err: "err = None" by (auto simp: flow_inv_def split: if_splits)
    have "\<not> adjust_ok m" using m by (cases m) simp_all
    then have "direction_of d' (\<not> x) = ?f\<lparr>rcv_ch := as_receiver ch', wire := filter forward ms, failed := None\<rparr>" "direction_of d' x = direction_of d x"
      using assms(2) err handle_forward(2) [OF m assms(3)] by (simp_all add: direction_of_def d'_def)
    with st err deliver_distance [OF inv w h, of None] show ?thesis by (intro conjI exI [of _ "\<not> x"]) simp_all
  next
    assume m: "adjust_ok m"
    let ?f = "direction_of d x"
    have w: "wire_back ?f = m # filter adjust_ok ms" and h: "handle m (snd_ch ?f) cs w = HRet err (as_sender ch') cs' w'"
      using assms(2) m handle_backward(1) [OF m assms(3)] by simp_all
    note st = fstep.deliver_back [OF w h]
    from fstep_inv [OF st inv] have err: "err = None" by (auto simp: flow_inv_def split: if_splits)
    have "\<not> forward m" using m by (cases m) simp_all
    then have "direction_of d' x = ?f\<lparr>snd_ch := as_sender ch', wire_back := filter adjust_ok ms, failed := None\<rparr>" "direction_of d' (\<not> x) = direction_of d (\<not> x)"
      using assms(2) err handle_backward(2) [OF m assms(3)] by (simp_all add: direction_of_def d'_def)
    with st err w show ?thesis by (intro conjI exI [of _ x]) (simp_all add: distance_def)
  qed
qed

text \<open>Every step moves one direction and leaves the other as it is, and no side fails.\<close>

lemma dstep_direction:
  assumes "dstep d d'" and "duplex_inv d"
  obtains y where "fstep (direction_of d y) (direction_of d' y)" and "direction_of d' (\<not> y) = direction_of d (\<not> y)" and "duplex_inv d'"
proof -
  have "(\<exists>y. fstep (direction_of d y) (direction_of d' y) \<and> direction_of d' (\<not> y) = direction_of d (\<not> y))
      \<and> (\<forall>x. s_failed (d' x) = None \<and> list_all (\<lambda>m. forward m \<or> adjust_ok m) (s_out (d' x)))"
    using assms(1)
  proof (cases rule: dstep.cases)
    case (local x s)
    with local_direction [where d = d and x = x and s = s, OF local(2)] side_step_keeps [OF local(2)] assms(2) show ?thesis
      unfolding duplex_inv_def by (auto simp: list_all_append)
  next
    case (deliver x m ms cs w err ch' cs' w')
    with deliver_direction [OF assms(2) deliver(2,3)] duplex_invD(2,3) [OF assms(2)] show ?thesis
      using duplex_invD(3) [OF assms(2), of "\<not> x"] by auto
  qed
  then obtain y where y: "fstep (direction_of d y) (direction_of d' y)" "direction_of d' (\<not> y) = direction_of d (\<not> y)"
    and r: "\<forall>x. s_failed (d' x) = None \<and> list_all (\<lambda>m. forward m \<or> adjust_ok m) (s_out (d' x))" by blast
  have "flow_inv (direction_of d' x)" for x
    using y fstep_inv assms(2) by (cases "x = y") (auto simp: duplex_inv_def)
  with y r show thesis by (auto intro: that simp: duplex_inv_def)
qed

lemma dreach_inv:
  assumes "dreach a b d" and "paired a b" and "paired b a"
  shows "duplex_inv d"
  using assms by (induction rule: dreach.induct) (auto intro: start_inv elim: dstep_direction)

section \<open>Draining\<close>

definition duplex_distance :: "duplex \<Rightarrow> nat" where
  "duplex_distance d = distance (direction_of d True) + distance (direction_of d False)"

definition duplex_drained :: "duplex \<Rightarrow> bool" where
  "duplex_drained d \<longleftrightarrow> (\<forall>x. drained (direction_of d x))"

text \<open>The steps that finish what is under way: no new reservation, and chunks are encoded in the order of the list.\<close>

definition finishing :: "duplex \<Rightarrow> duplex \<Rightarrow> bool" where
  "finishing d d' \<longleftrightarrow> dstep d d' \<and> (\<forall>x. s_put (d' x) @ concat (s_hand (d' x)) = s_put (d x) @ concat (s_hand (d x))
     \<and> length (s_hand (d' x)) \<le> length (s_hand (d x)) \<and> prefix (s_got (d x)) (s_got (d' x)))"

lemma lowers:
  assumes "direction_of d' (\<not> y) = direction_of d (\<not> y)" and "distance (direction_of d' y) < distance (direction_of d y)"
  shows "duplex_distance d' < duplex_distance d"
  using assms by (cases y) (simp_all add: duplex_distance_def)

lemma finishing_local:
  assumes "side_step (d x) s" and "duplex_distance (d(x := s)) < duplex_distance d"
    and "s_put s @ concat (s_hand s) = s_put (d x) @ concat (s_hand (d x))" and "length (s_hand s) \<le> length (s_hand (d x))"
    and "prefix (s_got (d x)) (s_got s)"
  shows "\<exists>d'. finishing d d' \<and> duplex_distance d' < duplex_distance d"
proof -
  have "finishing d (d(x := s))" unfolding finishing_def using dstep.local [where d = d and x = x, OF assms(1)] assms(3-5) by simp
  with assms(2) show ?thesis by blast
qed

lemma deliver_finishing:
  assumes "duplex_inv d" and "s_out (d (\<not> x)) = m # ms" and "handle m (chn (d x)) cs w = HRet err ch' cs' w'"
  defines "d' \<equiv> d(x := (d x)\<lparr>chn := ch', s_failed := (if err = None then s_failed (d x) else err)\<rparr>, \<not> x := (d (\<not> x))\<lparr>s_out := ms\<rparr>)"
  shows "finishing d d' \<and> duplex_distance d' < duplex_distance d"
proof
  show "finishing d d'" unfolding finishing_def d'_def using dstep.deliver [where d = d and x = x, OF assms(2,3)] by auto
  show "duplex_distance d' < duplex_distance d" using deliver_direction [OF assms(1-3)] lowers unfolding d'_def by blast
qed

lemma handle_in_direction: "forward m \<or> adjust_ok m \<Longrightarrow> \<exists>err c'. handle m c cs w = HRet err c' cs w"
  by (cases m) (auto simp: handle_def split: prod.splits)

lemma finishing_deliver:
  assumes "duplex_inv d" and "s_out (d (\<not> x)) = m # ms"
  shows "\<exists>d'. finishing d d' \<and> duplex_distance d' < duplex_distance d"
proof -
  define w :: writer where "w = \<lparr>wr_buf = [], wr_fail = None\<rparr>"
  have "forward m \<or> adjust_ok m" using duplex_invD(3) [OF assms(1), of "\<not> x"] assms(2) by simp
  from handle_in_direction [OF this] obtain err ch' where "handle m (chn (d x)) [] w = HRet err ch' [] w" by blast
  from deliver_finishing [OF assms this] show ?thesis by blast
qed

text \<open>One lemma for each thing that may be left to do in a direction.\<close>

lemma finishing_encode:
  assumes hand: "s_hand (d x) = c # cs"
  shows "\<exists>d'. finishing d d' \<and> duplex_distance d' < duplex_distance d"
proof -
  let ?s = "(d x)\<lparr>s_hand := cs, s_out := s_out (d x) @ [data_frame (remoteId (chn (d x))) c], s_put := s_put (d x) @ c\<rparr>"
  have "side_step (d x) ?s" using side_step.encode [of "d x" "[]" c cs] hand by simp
  moreover have "duplex_distance (d(x := ?s)) < duplex_distance d"
    by (rule lowers [of _ x]) (use hand in \<open>simp_all add: direction_of_def distance_def data_frame_def\<close>)
  ultimately show ?thesis by (rule finishing_local) (use hand in simp_all)
qed

lemma finishing_read:
  assumes "duplex_inv d" and pend: "contents (pending (chn (d (\<not> x)))) \<noteq> []"
  shows "\<exists>d'. finishing d d' \<and> duplex_distance d' < duplex_distance d"
proof -
  from duplex_invD(1) [OF assms(1), of x] have "buffer_inv (pending (chn (d (\<not> x))))" by (simp add: flow_inv_def)
  then show ?thesis
  proof (cases rule: bq.rd_cases [where k = 1])
    case (data b)
    let ?c = "take 1 (contents (pending (chn (d (\<not> x)))))"
    let ?s = "(d (\<not> x))\<lparr>chn := (chn (d (\<not> x)))\<lparr>pending := b\<rparr>, s_got := s_got (d (\<not> x)) @ ?c, s_taken := length ?c # s_taken (d (\<not> x))\<rparr>"
    have "side_step (d (\<not> x)) ?s" by (rule side_step.read [OF data(3)]) (use pend in simp)
    moreover have "length ?c = 1" "length (contents b) + 1 = length (contents (pending (chn (d (\<not> x)))))"
      using data(4) pend by (auto simp: Suc_le_eq)
    then have "duplex_distance (d((\<not> x) := ?s)) < duplex_distance d"
      by (intro lowers [of _ x]) (simp_all add: direction_of_def distance_def)
    ultimately show ?thesis by (rule finishing_local) simp_all
  qed (use pend in auto)
qed

lemma finishing_adjust:
  assumes taken: "s_taken (d (\<not> x)) = n # ns"
  shows "\<exists>d'. finishing d d' \<and> duplex_distance d' < duplex_distance d"
proof -
  let ?s = "(d (\<not> x))\<lparr>chn := (chn (d (\<not> x)))\<lparr>myWindow := myWindow (chn (d (\<not> x))) + of_nat n\<rparr>, s_taken := ns, s_raised := n # s_raised (d (\<not> x))\<rparr>"
  have "side_step (d (\<not> x)) ?s" using side_step.adjust [of "d (\<not> x)" "[]" n ns] taken by simp
  moreover have "duplex_distance (d((\<not> x) := ?s)) < duplex_distance d"
    by (rule lowers [of _ x]) (use taken in \<open>simp_all add: direction_of_def distance_def\<close>)
  ultimately show ?thesis by (rule finishing_local) simp_all
qed

lemma finishing_send_adjust:
  assumes raised: "s_raised (d (\<not> x)) = n # ns"
  shows "\<exists>d'. finishing d d' \<and> duplex_distance d' < duplex_distance d"
proof -
  let ?s = "(d (\<not> x))\<lparr>s_raised := ns, s_out := s_out (d (\<not> x)) @ [WindowAdjustMessage (remoteId (chn (d (\<not> x)))) (of_nat n)]\<rparr>"
  have "side_step (d (\<not> x)) ?s" using side_step.send_adjust [of "d (\<not> x)" "[]" n ns] raised by simp
  moreover have "unat (of_nat n :: u32) \<le> n" by (simp add: unat_of_nat take_bit_nat_less_eq_self)
  then have "duplex_distance (d((\<not> x) := ?s)) < duplex_distance d"
    by (intro lowers [of _ x]) (use raised in \<open>simp_all add: direction_of_def distance_def\<close>)
  ultimately show ?thesis by (rule finishing_local) simp_all
qed

lemma finishing_step:
  assumes "duplex_inv d" and "\<not> duplex_drained d"
  shows "\<exists>d'. finishing d d' \<and> duplex_distance d' < duplex_distance d"
proof -
  from assms(2) obtain x where "\<not> drained (direction_of d x)" by (auto simp: duplex_drained_def)
  then have "s_out (d (\<not> \<not> x)) \<noteq> [] \<or> s_out (d (\<not> x)) \<noteq> [] \<or> s_hand (d x) \<noteq> [] \<or> contents (pending (chn (d (\<not> x)))) \<noteq> []
      \<or> s_taken (d (\<not> x)) \<noteq> [] \<or> s_raised (d (\<not> x)) \<noteq> []" by (auto simp: drained_def)
  then consider (out) y m ms where "s_out (d (\<not> y)) = m # ms" | (hand) c cs where "s_hand (d x) = c # cs"
    | (pend) "contents (pending (chn (d (\<not> x)))) \<noteq> []" | (taken) n ns where "s_taken (d (\<not> x)) = n # ns" | (raised) n ns where "s_raised (d (\<not> x)) = n # ns"
    unfolding neq_Nil_conv by blast
  then show ?thesis
    by cases (blast intro: finishing_deliver [OF assms(1)] finishing_encode finishing_read [OF assms(1)] finishing_adjust finishing_send_adjust)+
qed

lemma finishing_inv: "finishing d d' \<Longrightarrow> duplex_inv d \<Longrightarrow> duplex_inv d'"
  by (auto simp: finishing_def elim: dstep_direction)

lemma can_finish:
  assumes "duplex_inv d"
  shows "\<exists>d'. finishing\<^sup>*\<^sup>* d d' \<and> duplex_inv d' \<and> duplex_drained d'"
  using assms
proof (induction "duplex_distance d" arbitrary: d rule: less_induct)
  case less
  show ?case
  proof (cases "duplex_drained d")
    case False
    from finishing_step [OF less.prems this] obtain d1 where d1: "finishing d d1" "duplex_distance d1 < duplex_distance d" by blast
    from less.hyps [OF d1(2) finishing_inv [OF d1(1) less.prems]] d1(1) show ?thesis
      by (meson converse_rtranclp_into_rtranclp)
  qed (use less.prems in blast)
qed

text \<open>When nothing is under way, the next reader has everything and the windows are full.\<close>

lemma drained_duplex:
  assumes "duplex_inv d" and "duplex_drained d"
  shows "s_got (d (\<not> x)) = s_put (d x)" and "win (remoteWin (chn (d x))) = channelWindowSize" and "s_hand (d x) = []"
proof -
  from assms(2) have dr: "drained (direction_of d x)" by (simp add: duplex_drained_def)
  with unread_bytes [OF duplex_invD(1) [OF assms(1)], of x] show "s_got (d (\<not> x)) = s_put (d x)" by (simp add: drained_def unread_def)
  from dr have "in_flight (direction_of d x) = 0" by (simp add: drained_def in_flight_def)
  with duplex_invD(1) [OF assms(1), of x] have "unat (win (remoteWin (chn (d x)))) = unat channelWindowSize" by (simp add: flow_inv_def)
  then show "win (remoteWin (chn (d x))) = channelWindowSize" by (rule unsigned_word_eqI)
  from dr show "s_hand (d x) = []" by (simp add: drained_def)
qed

text \<open>A channel on which \<^verbatim>\<open>Write\<close> only has to wait for the window.\<close>

definition can_send :: "channel \<Rightarrow> bool" where
  "can_send c \<longleftrightarrow> maxRemotePayload c \<noteq> 0 \<and> \<not> w_closed (remoteWin c)"

lemma can_send_simps [simp]:
  "can_send (c\<lparr>pending := b\<rparr>) = can_send c" "can_send (c\<lparr>myWindow := n\<rparr>) = can_send c"
  by (simp_all add: can_send_def)

lemma dstep_can_send:
  assumes "dstep d d'" and "duplex_inv d"
  shows "can_send (chn (d' x)) = can_send (chn (d x))"
  using assms(1)
proof (cases rule: dstep.cases)
  case (local y s)
  from local(2) have "can_send (chn s) = can_send (chn (d y))"
    by (cases rule: side_step.cases) (auto simp: can_send_def dest: sw.tk_Some)
  with local(1) show ?thesis by simp
next
  case (deliver y m ms cs w err ch' cs' w')
  have "forward m \<or> adjust_ok m" using duplex_invD(3) [OF assms(2), of "\<not> y"] deliver(2) by simp
  then have "can_send ch' = can_send (chn (d y))" using deliver(3)
    by (cases m) (auto simp: can_send_def handle_def handleData_def dest: sw.add_spec split: prod.splits if_splits)
  with deliver(1) show ?thesis by simp
qed

lemma can_reserve:
  assumes "duplex_inv d" and "duplex_drained d" and "can_send (chn (d x))"
  shows "\<exists>s. side_step (d x) s \<and> s_hand s = [[c]] \<and> s_put s = s_put (d x) \<and> s_got s = s_got (d x)"
proof -
  let ?w = "remoteWin (chn (d x))" and ?n = "chan_min (maxRemotePayload (chn (d x))) (length [c])"
  have "1 \<le> unat (maxRemotePayload (chn (d x)))" using assms(3) by (simp add: can_send_def Suc_le_eq)
  then have n: "unat ?n = 1" using chan_min_nat [of 1 "maxRemotePayload (chn (d x))"] by (simp add: min_absorb2)
  from drained_duplex(2) [OF assms(1,2), of x] have w: "unat (win ?w) = 1073741824" by simp
  then obtain k e rw where r: "Mux_Window.reserve ?n ?w = Some (k, e, rw)" using sw.tk_None [of ?n ?w] by (metis not_Some_eq prod_cases3 zero_neq_numeral)
  from sw.tk_Some [OF r] n w assms(3) have k: "unat k = 1" "e = None" by (simp_all add: can_send_def)
  from side_step.reserve [of "[c]" "d x" k rw] r k
  have "side_step (d x) ((d x)\<lparr>chn := (chn (d x))\<lparr>remoteWin := rw\<rparr>, s_hand := [[c]]\<rparr>)"
    by (simp add: drained_duplex(3) [OF assms(1,2)])
  then show ?thesis by fastforce
qed

section \<open>Two pipes\<close>

text \<open>What a step shows: the bytes that go into or come out of one direction.\<close>

definition duplex_event :: "duplex \<Rightarrow> duplex \<Rightarrow> (bool \<times> pipe_event) option" where
  "duplex_event d d' =
     (case flow_event (direction_of d True) (direction_of d' True) of
        Some e \<Rightarrow> Some (True, e)
      | None \<Rightarrow> map_option (Pair False) (flow_event (direction_of d False) (direction_of d' False)))"

definition duplex_step :: "duplex \<Rightarrow> (bool \<times> pipe_event) option \<Rightarrow> duplex \<Rightarrow> bool" where
  "duplex_step d e d' \<longleftrightarrow> dstep d d' \<and> e = duplex_event d d'"

text \<open>The specification: a bounded queue for each direction.\<close>

fun pipes_step :: "nat \<Rightarrow> (bool \<Rightarrow> bytes) \<Rightarrow> bool \<times> pipe_event \<Rightarrow> (bool \<Rightarrow> bytes) \<Rightarrow> bool" where
  "pipes_step cap q (x, e) q' \<longleftrightarrow> pipe_step cap (q x) e (q' x) \<and> q' (\<not> x) = q (\<not> x)"

definition in_pipes :: "duplex \<Rightarrow> bool \<Rightarrow> bytes" where
  "in_pipes d x = unread (direction_of d x)"

lemma flow_event_refl [simp]: "flow_event f f = None"
  by (simp add: flow_event_def)

lemma duplex_step_pipes:
  assumes "duplex_inv d" and "dstep d d'"
  shows "case duplex_event d d' of None \<Rightarrow> in_pipes d' = in_pipes d
    | Some xe \<Rightarrow> pipes_step (unat channelWindowSize) (in_pipes d) xe (in_pipes d')"
proof -
  from assms(2,1) obtain y where y: "fstep (direction_of d y) (direction_of d' y)" "direction_of d' (\<not> y) = direction_of d (\<not> y)"
    by (rule dstep_direction)
  have ev: "duplex_event d d' = map_option (Pair y) (flow_event (direction_of d y) (direction_of d' y))"
    using y(2) by (cases y) (auto simp: duplex_event_def split: option.splits)
  have o: "in_pipes d' (\<not> y) = in_pipes d (\<not> y)" using y(2) by (simp add: in_pipes_def)
  show ?thesis
  proof (cases "flow_event (direction_of d y) (direction_of d' y)")
    case None
    with flow_step_pipe [OF duplex_invD(1) [OF assms(1)] y(1)] have "in_pipes d' y = in_pipes d y" by (simp add: in_pipes_def)
    then have "in_pipes d' x = in_pipes d x" for x using o by (cases "x = y") auto
    then have "in_pipes d' = in_pipes d" by blast
    with None ev show ?thesis by simp
  next
    case (Some e)
    with flow_step_pipe [OF duplex_invD(1) [OF assms(1)] y(1)] o ev show ?thesis by (simp add: in_pipes_def)
  qed
qed

interpretation dp: simulation duplex_step "pipes_step (unat channelWindowSize)" in_pipes duplex_inv
proof
  fix d e d'
  assume "duplex_inv d" and "duplex_step d e d'"
  then show "duplex_inv d'" by (auto simp: duplex_step_def elim: dstep_direction)
next
  fix d e d'
  assume "duplex_inv d" and "duplex_step d (Some e) d'"
  then show "pipes_step (unat channelWindowSize) (in_pipes d) e (in_pipes d')"
    using duplex_step_pipes [of d d'] by (auto simp: duplex_step_def split: option.splits)
next
  fix d d'
  assume "duplex_inv d" and "duplex_step d None d'"
  then show "in_pipes d' = in_pipes d" using duplex_step_pipes [of d d'] by (auto simp: duplex_step_def split: option.splits)
qed

section \<open>Properties\<close>

text \<open>
  C4: both directions of a channel at once, with data, its end and window adjustments mixed on the two wires in every possible way. No frame makes either side fail, and what the two programs
  see is a run of two independent bounded pipes: in each direction the bytes read, followed by the bytes buffered and on the wire, are the bytes written, in order, and never more
  than the window are under way.
\<close>

theorem duplex_implements_pipes:
  assumes "paired a b" and "paired b a" and "run_of duplex_step (duplex_start a b) tr d"
  shows "trace_of (pipes_step (unat channelWindowSize)) (\<lambda>_. []) tr (in_pipes d)
    \<and> (\<forall>x. s_failed (d x) = None \<and> s_got (d (\<not> x)) @ in_pipes d x = s_put (d x) \<and> length (in_pipes d x) \<le> unat channelWindowSize)"
proof -
  have inv: "duplex_inv d" by (rule dp.run_inv [OF assms(3) start_inv [OF assms(1,2)]])
  have "trace_of (pipes_step (unat channelWindowSize)) (in_pipes (duplex_start a b)) tr (in_pipes d)"
    by (rule dp.refines [OF assms(3) start_inv [OF assms(1,2)]])
  moreover have "in_pipes (duplex_start a b) = (\<lambda>_. [])"
    using assms(1,2) by (auto simp: in_pipes_def unread_def duplex_start_def side_start_def paired_def)
  moreover have "s_got (d (\<not> x)) @ in_pipes d x = s_put (d x)" "length (in_pipes d x) \<le> unat channelWindowSize" for x
    using unread_bytes [OF duplex_invD(1) [OF inv]] unread_bound [OF duplex_invD(1) [OF inv]] by (simp_all add: in_pipes_def)
  ultimately show ?thesis using duplex_invD(2) [OF inv] by simp
qed

theorem duplex_implements_pipes_witness:
  "\<exists>a b d. paired a b \<and> paired b a \<and> run_of duplex_step (duplex_start a b) [(True, Put [1, 2])] d
     \<and> trace_of (pipes_step (unat channelWindowSize)) (\<lambda>_. []) [(True, Put [1, 2])] (in_pipes d) \<and> in_pipes d True = [1, 2] \<and> s_failed (d False) = None"
proof -
  let ?a = "(requested 0)\<lparr>remoteId := 0, maxRemotePayload := channelMaxPacket, remoteWin := full_window\<rparr>"
  let ?b = "offered 0 0" let ?s0 = "side_start ?a" let ?d0 = "duplex_start ?a ?b"
  let ?rw = "full_window\<lparr>win := channelWindowSize - 2\<rparr>"
  let ?s1 = "?s0\<lparr>chn := ?a\<lparr>remoteWin := ?rw\<rparr>, s_hand := [[1, 2]]\<rparr>" let ?d1 = "?d0(True := ?s1)"
  let ?s2 = "?s1\<lparr>s_hand := [], s_out := [data_frame 0 [1, 2]], s_put := [1, 2]\<rparr>" let ?d2 = "?d1(True := ?s2)"
  have "Mux_Window.reserve (chan_min channelMaxPacket (Suc (Suc 0))) full_window = Some (2, None, ?rw)" by code_simp
  then have "side_step ?s0 ?s1"
    using side_step.reserve [of "[1, 2]" ?s0 2 ?rw] by (simp add: side_start_def requested_def)
  then have "duplex_step ?d0 None ?d1" using dstep.local [of ?d0 True ?s1]
    by (simp add: duplex_step_def duplex_start_def duplex_event_def flow_event_def side_start_def)
  moreover have "side_step ?s1 ?s2"
    using side_step.encode [of ?s1 "[]" "[1, 2]" "[]"] by (simp add: side_start_def requested_def)
  then have "duplex_step ?d1 (Some (True, Put [1, 2])) ?d2" using dstep.local [of ?d1 True ?s2]
    by (simp add: duplex_step_def duplex_start_def duplex_event_def flow_event_def side_start_def)
  ultimately have r: "run_of duplex_step ?d0 ([] @ [(True, Put [1, 2])]) ?d2" by (meson run_of.intros)
  note t = duplex_implements_pipes [OF sample_pair r]
  have "s_failed (?d2 False) = None" using conjunct2 [OF t] by blast
  moreover have "in_pipes ?d2 True = [1, 2]"
    using spec [OF conjunct2 [OF t], of True] by (simp add: duplex_start_def side_start_def)
  ultimately show ?thesis using conjunct1 [OF t] r sample_pair unfolding append_Nil by blast
qed

end
