(* ===== verification/Mux_Peers.thy ===== *)
theory Mux_Peers
  imports Mux_Demux Mux_Duplex
begin

text \<open>
  Two sessions that share a transport, with any number of established channels between them: the heaps and tables of \<^theory_text>\<open>Mux_Session\<close>, the bytes that one encoder wrote and that are moved, a few at a time, to the
  other decoder, and the goroutines of all channels. The channels between the two sessions are numbered; \<open>ref x k\<close> is the channel object of channel \<open>k\<close> in session \<open>x\<close>.

  The lemmas show that every such channel moves like the pair of \<^theory_text>\<open>Mux_Duplex\<close> that has a wire of its own: the other channels, the encoding into bytes and the arrival of frames in pieces
  cannot be seen.
\<close>

section \<open>Arrival in pieces\<close>

context byte_framing
begin

text \<open>A decoder that has only a part of a stream returns the first value of the stream or waits.\<close>

lemma dec_part:
  assumes "ok x" and "p @ q = enc x @ rest"
  shows "dec \<lparr>rd_buf = p, rd_end = None\<rparr> = RdBlock
    \<or> (\<exists>r. p = enc x @ r \<and> rest = r @ q \<and> dec \<lparr>rd_buf = p, rd_end = None\<rparr> = RdOk x \<lparr>rd_buf = r, rd_end = None\<rparr>)"
proof -
  from assms(2) consider r where "p = enc x @ r" "r @ q = rest" | s where "p @ s = enc x" "q = s @ rest" by (auto simp: append_eq_append_conv2)
  then show ?thesis
  proof cases
    case 1
    then show ?thesis using dec_enc [OF assms(1)] by auto
  next
    case (2 s)
    then show ?thesis using dec_partial [OF assms(1), of p s] dec_enc [OF assms(1), of "[]" None] by (cases "s = []") auto
  qed
qed

end

section \<open>The system\<close>

record endpoint =
  sess :: session
  moved :: nat                 \<comment> \<open>how many of the bytes written by the encoder have arrived\<close>
  queue :: "Message list"      \<comment> \<open>the frames sent and not yet handled by the other side\<close>
  marks :: "nat \<Rightarrow> side"       \<comment> \<open>what the goroutines of a channel are about, and what they have put and got\<close>
  loop_err :: "go_error option"   \<comment> \<open>the error that loop_err the loop\<close>

type_synonym net = "bool \<Rightarrow> endpoint"

text \<open>One channel object with its goroutines; its frames go to the encoder of the session.\<close>

definition view :: "endpoint \<Rightarrow> nat \<Rightarrow> Message list \<Rightarrow> side" where
  "view e r ms = (marks e r)\<lparr>chn := the (heap (sess e) r), s_out := ms\<rparr>"

inductive nstep :: "(bool \<Rightarrow> nat \<Rightarrow> nat) \<Rightarrow> nat set \<Rightarrow> net \<Rightarrow> net \<Rightarrow> bool" for ref K where
  channel: "k \<in> K \<Longrightarrow> r = ref x k \<Longrightarrow> side_step (view (n x) r []) s \<Longrightarrow>
    nstep ref K n (n(x := (n x)\<lparr>sess := (put_chan r (chn s) (sess (n x)))\<lparr>enc := Encode_all (s_out s) (enc (sess (n x)))\<rparr>,
      marks := (marks (n x))(r := s), queue := queue (n x) @ s_out s\<rparr>))"
| arrive: "m \<le> length (wr_buf (enc (sess (n (\<not> x))))) - moved (n (\<not> x)) \<Longrightarrow>
    bs = take m (drop (moved (n (\<not> x))) (wr_buf (enc (sess (n (\<not> x)))))) \<Longrightarrow>
    nstep ref K n (n(x := (n x)\<lparr>sess := (sess (n x))\<lparr>dec := (dec (sess (n x)))\<lparr>rd_buf := rd_buf (dec (sess (n x))) @ bs\<rparr>\<rparr>\<rparr>,
      \<not> x := (n (\<not> x))\<lparr>moved := moved (n (\<not> x)) + m\<rparr>))"
| packet: "onePacket (sess (n x)) = PRet err s \<Longrightarrow>
    nstep ref K n (n(x := (n x)\<lparr>sess := s, loop_err := err\<rparr>, \<not> x := (n (\<not> x))\<lparr>queue := tl (queue (n (\<not> x)))\<rparr>))"

text \<open>Channel \<open>k\<close> alone: its two objects, and of the frames on the transport those for it.\<close>

definition pair_of :: "(bool \<Rightarrow> nat \<Rightarrow> nat) \<Rightarrow> net \<Rightarrow> nat \<Rightarrow> duplex" where
  "pair_of ref n k = (\<lambda>x. view (n x) (ref x k) (frames_for (remoteId (the (heap (sess (n x)) (ref x k)))) (queue (n x))))"

definition net_inv :: "(bool \<Rightarrow> nat \<Rightarrow> nat) \<Rightarrow> nat set \<Rightarrow> net \<Rightarrow> bool" where
  "net_inv ref K n \<longleftrightarrow>
     (\<forall>x. inj_on (ref x) K \<and> loop_err (n x) = None \<and> wr_fail (enc (sess (n x))) = None \<and> rd_end (dec (sess (n x))) = None
        \<and> rd_buf (dec (sess (n (\<not> x)))) @ drop (moved (n x)) (wr_buf (enc (sess (n x)))) = concat (map Bytes (queue (n x)))
        \<and> moved (n x) \<le> length (wr_buf (enc (sess (n x))))
        \<and> list_all (\<lambda>m. in_use m \<and> frame_ok m \<and> (\<exists>k \<in> K. fst (Channel m) = localId (chn (pair_of ref n k (\<not> x))))) (queue (n x)))
     \<and> (\<forall>k \<in> K. duplex_inv (pair_of ref n k) \<and> (\<forall>x. heap (sess (n x)) (ref x k) \<noteq> None
        \<and> chanList_getChan (localId (chn (pair_of ref n k x))) (chans (sess (n x))) = Some (ref x k)
        \<and> remoteId (chn (pair_of ref n k x)) = localId (chn (pair_of ref n k (\<not> x)))))"

section \<open>One channel of many\<close>

lemma net_invD:
  assumes "net_inv ref K n"
  shows "inj_on (ref x) K" and "loop_err (n x) = None" and "wr_fail (enc (sess (n x))) = None" and "rd_end (dec (sess (n x))) = None"
    and "rd_buf (dec (sess (n (\<not> x)))) @ drop (moved (n x)) (wr_buf (enc (sess (n x)))) = concat (map Bytes (queue (n x)))"
    and "moved (n x) \<le> length (wr_buf (enc (sess (n x))))"
    and "m \<in> set (queue (n x)) \<Longrightarrow> in_use m \<and> frame_ok m \<and> (\<exists>k \<in> K. fst (Channel m) = localId (chn (pair_of ref n k (\<not> x))))"
    and "k \<in> K \<Longrightarrow> duplex_inv (pair_of ref n k)" and "k \<in> K \<Longrightarrow> heap (sess (n x)) (ref x k) = Some (chn (pair_of ref n k x))"
    and "k \<in> K \<Longrightarrow> chanList_getChan (localId (chn (pair_of ref n k x))) (chans (sess (n x))) = Some (ref x k)"
    and "k \<in> K \<Longrightarrow> remoteId (chn (pair_of ref n k x)) = localId (chn (pair_of ref n k (\<not> x)))"
  using assms unfolding net_inv_def by (auto simp: list_all_iff pair_of_def view_def)

text \<open>The ids tell the channels apart.\<close>

lemma ids_differ:
  assumes "net_inv ref K n" and "k \<in> K" and "k' \<in> K" and "localId (chn (pair_of ref n k x)) = localId (chn (pair_of ref n k' x))"
  shows "k = k'"
  using net_invD(10) [OF assms(1,2), of x] net_invD(10) [OF assms(1,3), of x] net_invD(1) [OF assms(1), of x] assms(2-4)
  by (auto simp: inj_on_def)

lemma side_step_more:
  assumes "side_step (s\<lparr>s_out := []\<rparr>) s'"
  shows "side_step (s\<lparr>s_out := ms\<rparr>) (s'\<lparr>s_out := ms @ s_out s'\<rparr>)"
  using assms
proof (cases rule: side_step.cases)
  case (reserve data n rw)
  with side_step.reserve [of data "s\<lparr>s_out := ms\<rparr>" n rw] show ?thesis by (cases s) simp
next
  case (encode xs c ys)
  with side_step.encode [of "s\<lparr>s_out := ms\<rparr>" xs c ys] show ?thesis by (cases s) simp
next
  case close_write
  with side_step.close_write [of "s\<lparr>s_out := ms\<rparr>"] show ?thesis by (cases s) simp
next
  case (read k d e b)
  with side_step.read [of k "s\<lparr>s_out := ms\<rparr>" d e b] show ?thesis by (cases s) simp
next
  case (adjust xs n ys)
  with side_step.adjust [of "s\<lparr>s_out := ms\<rparr>" xs n ys] show ?thesis by (cases s) simp
next
  case (send_adjust xs n ys)
  with side_step.send_adjust [of "s\<lparr>s_out := ms\<rparr>" xs n ys] show ?thesis by (cases s) simp
qed

lemma side_step_frames:
  assumes "side_step s s'" and "s_out s = []" and "\<And>c. c \<in> set (s_hand s) \<Longrightarrow> length c < 2 ^ 32" and "m \<in> set (s_out s')"
  shows "in_use m \<and> frame_ok m \<and> fst (Channel m) = remoteId (chn s)"
  using assms(1)
proof (cases rule: side_step.cases)
  case (encode xs c ys)
  have "frame_ok (data_frame (remoteId (chn s)) c)" by (rule data_frame_ok) (use encode assms(3) [of c] in simp)
  with encode assms(2,4) show ?thesis by (simp add: data_frame_def)
qed (use assms(2,4) in \<open>auto simp: frame_ok_def\<close>)

lemma side_step_ids: "side_step s s' \<Longrightarrow> remoteId (chn s') = remoteId (chn s) \<and> localId (chn s') = localId (chn s)"
  by (cases rule: side_step.cases) auto

lemma handle_in_use_ids:
  "in_use m \<Longrightarrow> handle m c cs w = HRet err c' cs' w' \<Longrightarrow> remoteId c' = remoteId c \<and> localId c' = localId c"
  by (cases m) (auto simp: handle_def handleData_def split: prod.splits if_splits)

lemma dstep_ids:
  assumes "dstep d d'" and "duplex_inv d"
  shows "remoteId (chn (d' x)) = remoteId (chn (d x)) \<and> localId (chn (d' x)) = localId (chn (d x))"
  using assms(1)
proof (cases rule: dstep.cases)
  case (local y s)
  with side_step_ids [OF local(2)] show ?thesis by simp
next
  case (deliver y m ms cs w err ch' cs' w')
  have "forward m \<or> adjust_ok m" using duplex_invD(3) [OF assms(2), of "\<not> y"] deliver(2) by simp
  then have "in_use m" by (cases m) auto
  with handle_in_use_ids [OF _ deliver(3)] deliver(1) show ?thesis by simp
qed

lemma hand_length:
  assumes "duplex_inv d" and "c \<in> set (s_hand (d x))"
  shows "length c < 2 ^ 32"
proof -
  have "length c \<le> unat (maxIncomingPayload (as_receiver (chn (d (\<not> x)))))"
    using duplex_invD(1) [OF assms(1), of x] assms(2) by (simp add: flow_inv_def)
  then show ?thesis using le_less_trans [OF _ unat_lt_u32] by simp
qed

text \<open>What is left to show for a step once every channel is known to move on its own.\<close>

lemma channels_inv:
  assumes "net_inv ref K n" and "\<And>k. k \<in> K \<Longrightarrow> pair_of ref n' k = pair_of ref n k \<or> dstep (pair_of ref n k) (pair_of ref n' k)"
    and "\<And>x. chans (sess (n' x)) = chans (sess (n x))" and "\<And>x k. k \<in> K \<Longrightarrow> heap (sess (n' x)) (ref x k) \<noteq> None" and "k \<in> K"
  shows "duplex_inv (pair_of ref n' k) \<and> (\<forall>x. heap (sess (n' x)) (ref x k) \<noteq> None
        \<and> chanList_getChan (localId (chn (pair_of ref n' k x))) (chans (sess (n' x))) = Some (ref x k)
        \<and> remoteId (chn (pair_of ref n' k x)) = localId (chn (pair_of ref n' k (\<not> x)))
        \<and> localId (chn (pair_of ref n' k x)) = localId (chn (pair_of ref n k x)))"
proof -
  note d = net_invD(8) [OF assms(1,5)]
  have "duplex_inv (pair_of ref n' k)" using assms(2) [OF assms(5)] d by (auto elim: dstep_direction)
  moreover have "remoteId (chn (pair_of ref n' k x)) = remoteId (chn (pair_of ref n k x)) \<and> localId (chn (pair_of ref n' k x)) = localId (chn (pair_of ref n k x))" for x
    using assms(2) [OF assms(5)] dstep_ids d by metis
  ultimately show ?thesis using assms(3-5) net_invD(10,11) [OF assms(1,5)] by auto
qed

lemma frames_for_append [simp]: "frames_for i (ms @ ns) = frames_for i ms @ frames_for i ns"
  by (simp add: frames_for_def)

lemma frames_for_all: "(\<And>m. m \<in> set ms \<Longrightarrow> fst (Channel m) = j) \<Longrightarrow> frames_for i ms = (if i = j then ms else [])"
  by (auto simp: frames_for_def filter_id_conv filter_empty_conv)

lemma Encode_all_fail: "wr_fail w = None \<Longrightarrow> wr_fail (Encode_all ms w) = None"
  by (induction ms arbitrary: w) (simp_all add: Encode_def go_simps)

text \<open>A step of the goroutines of channel \<open>k\<close> is a step of its pair, and no other pair sees it.\<close>

lemma channel_pairs:
  assumes "net_inv ref K n" and "k \<in> K" and "side_step (view (n x) (ref x k) []) s" and "k' \<in> K"
  defines "n' \<equiv> n(x := (n x)\<lparr>sess := (put_chan (ref x k) (chn s) (sess (n x)))\<lparr>enc := Encode_all (s_out s) (enc (sess (n x)))\<rparr>,
      marks := (marks (n x))(ref x k := s), queue := queue (n x) @ s_out s\<rparr>)"
  shows "pair_of ref n' k' = (if k' = k then (pair_of ref n k)(x := s\<lparr>s_out := s_out (pair_of ref n k x) @ s_out s\<rparr>) else pair_of ref n k')"
    and "side_step (pair_of ref n k x) (s\<lparr>s_out := s_out (pair_of ref n k x) @ s_out s\<rparr>)"
    and "m \<in> set (s_out s) \<Longrightarrow> in_use m \<and> frame_ok m \<and> fst (Channel m) = localId (chn (pair_of ref n k (\<not> x)))"
proof -
  let ?v = "view (n x) (ref x k) []" and ?i = "remoteId (chn (pair_of ref n k x))"
  have v: "chn ?v = chn (pair_of ref n k x)" "s_hand ?v = s_hand (pair_of ref n k x)" "s_out ?v = []" by (simp_all add: view_def pair_of_def)
  have fr: "in_use m \<and> frame_ok m \<and> fst (Channel m) = ?i" if "m \<in> set (s_out s)" for m
    using side_step_frames [OF assms(3) v(3) _ that] hand_length [OF net_invD(8) [OF assms(1,2)], of _ x] v(1,2) by simp
  with net_invD(11) [OF assms(1,2), of x]
  show "m \<in> set (s_out s) \<Longrightarrow> in_use m \<and> frame_ok m \<and> fst (Channel m) = localId (chn (pair_of ref n k (\<not> x)))" by simp
  show "side_step (pair_of ref n k x) (s\<lparr>s_out := s_out (pair_of ref n k x) @ s_out s\<rparr>)"
    using side_step_more [of ?v s "s_out (pair_of ref n k x)"] assms(3) by (simp add: pair_of_def view_def)
  have ri: "remoteId (chn s) = ?i" using side_step_ids [OF assms(3)] v(1) by simp
  have y: "pair_of ref n' j (\<not> x) = pair_of ref n j (\<not> x)" for j by (simp add: pair_of_def n'_def)
  show "pair_of ref n' k' = (if k' = k then (pair_of ref n k)(x := s\<lparr>s_out := s_out (pair_of ref n k x) @ s_out s\<rparr>) else pair_of ref n k')"
  proof (cases "k' = k")
    case True
    have "pair_of ref n' k x = s\<lparr>s_out := s_out (pair_of ref n k x) @ s_out s\<rparr>"
      using frames_for_all [of "s_out s" ?i ?i] fr ri by (simp add: pair_of_def view_def n'_def put_chan_def)
    with y [of k] True show ?thesis by (auto simp: fun_eq_iff)
  next
    case False
    then have "localId (chn (pair_of ref n k' (\<not> x))) \<noteq> localId (chn (pair_of ref n k (\<not> x)))" using ids_differ [OF assms(1,4,2)] by blast
    then have "remoteId (chn (pair_of ref n k' x)) \<noteq> ?i" using net_invD(11) [OF assms(1,2), of x] net_invD(11) [OF assms(1,4), of x] by simp
    then have "frames_for (remoteId (chn (pair_of ref n k' x))) (s_out s) = []" using frames_for_all [of "s_out s" ?i] fr by simp
    moreover have "ref x k' \<noteq> ref x k" using False net_invD(1) [OF assms(1), of x] assms(2,4) by (auto simp: inj_on_def)
    ultimately have "pair_of ref n' k' x = pair_of ref n k' x" by (simp add: pair_of_def view_def n'_def put_chan_def)
    then have "pair_of ref n' k' z = pair_of ref n k' z" for z using y by (cases "z = x") auto
    then show ?thesis using False by auto
  qed
qed

text \<open>The packet loop takes the next frame that was sent when all of its bytes have arrived.\<close>

lemma packet_result:
  assumes "net_inv ref K n" and "queue (n (\<not> x)) = m # ms" and "Decode (dec (sess (n x))) = RdOk m rd"
  obtains k err c' where "k \<in> K" and "fst (Channel m) = localId (chn (pair_of ref n k x))" and "in_use m"
    and "handle m (chn (pair_of ref n k x)) (chans (sess (n x))) (enc (sess (n x))) = HRet err c' (chans (sess (n x))) (enc (sess (n x)))"
    and "onePacket (sess (n x)) = PRet err (put_chan (ref x k) c' ((sess (n x))\<lparr>dec := rd\<rparr>))"
proof -
  from net_invD(7) [OF assms(1), of m "\<not> x"] assms(2) obtain k where m: "in_use m" "k \<in> K" "fst (Channel m) = localId (chn (pair_of ref n k x))" by auto
  let ?c = "chn (pair_of ref n k x)"
  have "forward m \<or> adjust_ok m" using m(1) by (cases m) auto
  from handle_in_direction [OF this] obtain err c' where
    h: "handle m ?c (chans (sess (n x))) (enc (sess (n x))) = HRet err c' (chans (sess (n x))) (enc (sess (n x)))" by blast
  have "Channel m = (localId ?c, True)" using m(1,3) by (cases m) auto
  then have "onePacket (sess (n x)) = PRet err (put_chan (ref x k) c' ((sess (n x))\<lparr>dec := rd\<rparr>))"
    using assms(3) h net_invD(9,10) [OF assms(1) m(2), of x] by (simp add: onePacket_def after_handle_def put_chan_def)
  with m h show thesis by (rule_tac that)
qed

lemma packet_next:
  assumes "net_inv ref K n" and "onePacket (sess (n x)) = PRet err s"
  obtains m ms rd where "queue (n (\<not> x)) = m # ms" and "rd_buf (dec (sess (n x))) = Bytes m @ rd"
    and "Decode (dec (sess (n x))) = RdOk m \<lparr>rd_buf = rd, rd_end = None\<rparr>"
proof -
  let ?d = "dec (sess (n x))"
  have e: "?d = \<lparr>rd_buf = rd_buf ?d, rd_end = None\<rparr>" using net_invD(4) [OF assms(1), of x] by simp
  note q = net_invD(5) [OF assms(1), of "\<not> x", unfolded not_not]
  have b: "Decode ?d \<noteq> RdBlock" using assms(2) by (auto simp: onePacket_def)
  show thesis
  proof (cases "queue (n (\<not> x))")
    case Nil
    with q have "rd_buf ?d = []" by simp
    then have "Decode ?d = RdBlock" using Decode_partial [of "EOFMessage 0" "[]" "Bytes (EOFMessage 0)"] e by (simp add: frame_ok_def EOFMessage_Bytes_def)
    with b show ?thesis by simp
  next
    case (Cons m ms)
    with net_invD(7) [OF assms(1), of m "\<not> x"] have "frame_ok m" by auto
    moreover have "rd_buf ?d @ drop (moved (n (\<not> x))) (wr_buf (enc (sess (n (\<not> x))))) = Bytes m @ concat (map Bytes ms)" using q Cons by simp
    ultimately show ?thesis using qmux.dec_part [of m] e b that [OF Cons] by metis
  qed
qed

text \<open>Only the pair that the frame is for sees that.\<close>

lemma packet_pairs:
  assumes "net_inv ref K n" and "onePacket (sess (n x)) = PRet err s"
  defines "n' \<equiv> n(x := (n x)\<lparr>sess := s, loop_err := err\<rparr>, \<not> x := (n (\<not> x))\<lparr>queue := tl (queue (n (\<not> x)))\<rparr>)"
  shows "err = None" and "\<exists>k \<in> K. finishing (pair_of ref n k) (pair_of ref n' k) \<and> duplex_distance (pair_of ref n' k) < duplex_distance (pair_of ref n k)
      \<and> (\<forall>j \<in> K. j \<noteq> k \<longrightarrow> pair_of ref n' j = pair_of ref n j)"
    and "\<exists>k \<in> K. \<exists>c' m ms rd. s = put_chan (ref x k) c' ((sess (n x))\<lparr>dec := \<lparr>rd_buf = rd, rd_end = None\<rparr>\<rparr>) \<and> queue (n (\<not> x)) = m # ms \<and> rd_buf (dec (sess (n x))) = Bytes m @ rd"
proof -
  from assms(1,2) obtain m ms rd where q: "queue (n (\<not> x)) = m # ms" "rd_buf (dec (sess (n x))) = Bytes m @ rd"
    "Decode (dec (sess (n x))) = RdOk m \<lparr>rd_buf = rd, rd_end = None\<rparr>" by (rule packet_next)
  from assms(1) q(1,3) obtain k err' c' where p: "k \<in> K" "fst (Channel m) = localId (chn (pair_of ref n k x))" "in_use m"
    and h: "handle m (chn (pair_of ref n k x)) (chans (sess (n x))) (enc (sess (n x))) = HRet err' c' (chans (sess (n x))) (enc (sess (n x)))"
    and o: "onePacket (sess (n x)) = PRet err' (put_chan (ref x k) c' ((sess (n x))\<lparr>dec := \<lparr>rd_buf = rd, rd_end = None\<rparr>\<rparr>))" by (rule packet_result)
  have s: "err' = err" "s = put_chan (ref x k) c' ((sess (n x))\<lparr>dec := \<lparr>rd_buf = rd, rd_end = None\<rparr>\<rparr>)" using o assms(2) by simp_all
  with p(1) q show "\<exists>k \<in> K. \<exists>c' m ms rd. s = put_chan (ref x k) c' ((sess (n x))\<lparr>dec := \<lparr>rd_buf = rd, rd_end = None\<rparr>\<rparr>) \<and> queue (n (\<not> x)) = m # ms \<and> rd_buf (dec (sess (n x))) = Bytes m @ rd"
    by auto
  let ?d = "pair_of ref n k"
  have o: "s_out (?d (\<not> x)) = m # frames_for (remoteId (chn (?d (\<not> x)))) ms"
    using q(1) p(2) net_invD(11) [OF assms(1) p(1), of "\<not> x"] by (simp add: pair_of_def view_def frames_for_def)
  note h = h [unfolded s(1)]
  show err: "err = None" using deliver_direction [OF net_invD(8) [OF assms(1) p(1)] o h] by blast
  have "pair_of ref n' k x = (?d x)\<lparr>chn := c', s_failed := s_failed (?d x)\<rparr>"
    using handle_in_use_ids [OF p(3) h] s(2) by (simp add: pair_of_def view_def n'_def put_chan_def)
  moreover have "pair_of ref n' k (\<not> x) = (?d (\<not> x))\<lparr>s_out := frames_for (remoteId (chn (?d (\<not> x)))) ms\<rparr>"
    using q(1) by (simp add: pair_of_def view_def n'_def)
  ultimately have "pair_of ref n' k z = (?d(x := (?d x)\<lparr>chn := c', s_failed := (if err = None then s_failed (?d x) else err)\<rparr>, \<not> x := (?d (\<not> x))\<lparr>s_out := frames_for (remoteId (chn (?d (\<not> x)))) ms\<rparr>)) z" for z
    using err by (cases "z = x") auto
  then have "pair_of ref n' k = ?d(x := (?d x)\<lparr>chn := c', s_failed := (if err = None then s_failed (?d x) else err)\<rparr>, \<not> x := (?d (\<not> x))\<lparr>s_out := frames_for (remoteId (chn (?d (\<not> x)))) ms\<rparr>)" by blast
  with deliver_finishing [OF net_invD(8) [OF assms(1) p(1)] o h]
  have "finishing ?d (pair_of ref n' k) \<and> duplex_distance (pair_of ref n' k) < duplex_distance ?d" by simp
  moreover have "pair_of ref n' j = pair_of ref n j" if j: "j \<in> K" "j \<noteq> k" for j
  proof -
    have "localId (chn (pair_of ref n j x)) \<noteq> localId (chn (pair_of ref n k x))" using ids_differ [OF assms(1) j(1) p(1)] j(2) by blast
    then have "frames_for (remoteId (chn (pair_of ref n j (\<not> x)))) (m # ms) = frames_for (remoteId (chn (pair_of ref n j (\<not> x)))) ms"
      using p(2) net_invD(11) [OF assms(1) j(1), of "\<not> x"] by (simp add: frames_for_def)
    then have "pair_of ref n' j (\<not> x) = pair_of ref n j (\<not> x)" using q(1) by (simp add: pair_of_def view_def n'_def)
    moreover have "ref x j \<noteq> ref x k" using j net_invD(1) [OF assms(1), of x] p(1) by (auto simp: inj_on_def)
    then have "pair_of ref n' j x = pair_of ref n j x" using s(2) by (simp add: pair_of_def view_def n'_def put_chan_def)
    ultimately have "pair_of ref n' j z = pair_of ref n j z" for z by (cases "z = x") auto
    then show ?thesis by blast
  qed
  ultimately show "\<exists>k \<in> K. finishing (pair_of ref n k) (pair_of ref n' k) \<and> duplex_distance (pair_of ref n' k) < duplex_distance (pair_of ref n k)
      \<and> (\<forall>j \<in> K. j \<noteq> k \<longrightarrow> pair_of ref n' j = pair_of ref n j)" using p(1) by blast
qed

lemma arrive_pairs:
  "pair_of ref (n(x := (n x)\<lparr>sess := (sess (n x))\<lparr>dec := rd\<rparr>\<rparr>, \<not> x := (n (\<not> x))\<lparr>moved := j\<rparr>)) k = pair_of ref n k"
  by (auto simp: fun_eq_iff pair_of_def view_def)

section \<open>All steps\<close>

lemma take_drop_more: "take m (drop i xs) @ drop (i + m) xs = drop i xs"
  by (metis add.commute append_take_drop_id drop_drop)

lemma net_invI:
  assumes "net_inv ref K n" and "\<And>k. k \<in> K \<Longrightarrow> pair_of ref n' k = pair_of ref n k \<or> dstep (pair_of ref n k) (pair_of ref n' k)"
    and "\<And>x. chans (sess (n' x)) = chans (sess (n x))" and "\<And>x k. k \<in> K \<Longrightarrow> heap (sess (n' x)) (ref x k) \<noteq> None"
    and "\<And>x. loop_err (n' x) = None \<and> wr_fail (enc (sess (n' x))) = None \<and> rd_end (dec (sess (n' x))) = None \<and> moved (n' x) \<le> length (wr_buf (enc (sess (n' x))))"
    and "\<And>x. rd_buf (dec (sess (n' (\<not> x)))) @ drop (moved (n' x)) (wr_buf (enc (sess (n' x)))) = concat (map Bytes (queue (n' x)))"
    and "\<And>x m. m \<in> set (queue (n' x)) \<Longrightarrow> in_use m \<and> frame_ok m \<and> (\<exists>k \<in> K. fst (Channel m) = localId (chn (pair_of ref n k (\<not> x))))"
  shows "net_inv ref K n'"
proof -
  have c: "duplex_inv (pair_of ref n' k) \<and> (\<forall>x. heap (sess (n' x)) (ref x k) \<noteq> None
        \<and> chanList_getChan (localId (chn (pair_of ref n' k x))) (chans (sess (n' x))) = Some (ref x k)
        \<and> remoteId (chn (pair_of ref n' k x)) = localId (chn (pair_of ref n' k (\<not> x)))
        \<and> localId (chn (pair_of ref n' k x)) = localId (chn (pair_of ref n k x)))" if "k \<in> K" for k
    by (rule channels_inv [where K = K and n = n]) (use assms(1-4) that in blast)+
  then have "localId (chn (pair_of ref n' k x)) = localId (chn (pair_of ref n k x))" if "k \<in> K" for k x using that by blast
  with assms(5-7) have "list_all (\<lambda>m. in_use m \<and> frame_ok m \<and> (\<exists>k \<in> K. fst (Channel m) = localId (chn (pair_of ref n' k (\<not> x))))) (queue (n' x))" for x
    unfolding list_all_iff by metis
  with assms(5,6) net_invD(1) [OF assms(1)] c show ?thesis unfolding net_inv_def by blast
qed

lemma channel_keeps:
  assumes channel: "n' = n(x := (n x)\<lparr>sess := (put_chan r (chn s) (sess (n x)))\<lparr>enc := Encode_all (s_out s) (enc (sess (n x)))\<rparr>,
      marks := (marks (n x))(r := s), queue := queue (n x) @ s_out s\<rparr>)" "k \<in> K" "r = ref x k" "side_step (view (n x) r []) s"
    and inv: "net_inv ref K n"
  shows "net_inv ref K n' \<and> (\<forall>k \<in> K. pair_of ref n' k = pair_of ref n k \<or> dstep (pair_of ref n k) (pair_of ref n' k))"
proof -
  note pr = channel_pairs [OF inv channel(2) channel(4) [unfolded channel(3)], folded channel(3), folded channel(1)]
  have st: "pair_of ref n' j = pair_of ref n j \<or> dstep (pair_of ref n j) (pair_of ref n' j)" if "j \<in> K" for j
    using pr(1) [OF that] dstep.local [where d = "pair_of ref n k" and x = x, OF pr(2) [OF that]] by (auto split: if_splits)
  have "net_inv ref K n'"
  proof (rule net_invI [OF inv st])
    show "heap (sess (n' z)) (ref z j) \<noteq> None" if "j \<in> K" for z j
      using net_invD(9) [OF inv that, of z] channel(1) by (cases "z = x") (auto simp: put_chan_def)
    show "rd_buf (dec (sess (n' (\<not> z)))) @ drop (moved (n' z)) (wr_buf (enc (sess (n' z)))) = concat (map Bytes (queue (n' z)))" for z
      using net_invD(3,5,6) [OF inv, of z] channel(1) by (cases "z = x") (auto simp: put_chan_def Encode_all_buf)
    show "in_use m \<and> frame_ok m \<and> (\<exists>k \<in> K. fst (Channel m) = localId (chn (pair_of ref n k (\<not> z))))" if "m \<in> set (queue (n' z))" for z m
      using that net_invD(7) [OF inv, of m z] pr(3) [OF channel(2), of m] channel(1,2) by (cases "z = x") (auto split: if_splits)
    show "loop_err (n' z) = None \<and> wr_fail (enc (sess (n' z))) = None \<and> rd_end (dec (sess (n' z))) = None \<and> moved (n' z) \<le> length (wr_buf (enc (sess (n' z))))" for z
      using net_invD(2-6) [OF inv, of z] channel(1) by (auto simp: put_chan_def Encode_all_buf Encode_all_fail)
  qed (auto simp: channel(1) put_chan_def)
  with st show ?thesis by blast
qed

lemma arrive_keeps:
  assumes arrive: "n' = n(x := (n x)\<lparr>sess := (sess (n x))\<lparr>dec := (dec (sess (n x)))\<lparr>rd_buf := rd_buf (dec (sess (n x))) @ bs\<rparr>\<rparr>\<rparr>,
      \<not> x := (n (\<not> x))\<lparr>moved := moved (n (\<not> x)) + m\<rparr>)" "m \<le> length (wr_buf (enc (sess (n (\<not> x))))) - moved (n (\<not> x))"
      "bs = take m (drop (moved (n (\<not> x))) (wr_buf (enc (sess (n (\<not> x))))))"
    and inv: "net_inv ref K n"
  shows "net_inv ref K n' \<and> (\<forall>k \<in> K. pair_of ref n' k = pair_of ref n k \<or> dstep (pair_of ref n k) (pair_of ref n' k))"
proof -
  have st: "pair_of ref n' j = pair_of ref n j" for j using arrive_pairs arrive(1) by metis
  have "net_inv ref K n'"
  proof (rule net_invI [OF inv])
    show "heap (sess (n' z)) (ref z j) \<noteq> None" if "j \<in> K" for z j
      using net_invD(9) [OF inv that, of z] arrive(1) by (cases "z = x") auto
    show "rd_buf (dec (sess (n' (\<not> z)))) @ drop (moved (n' z)) (wr_buf (enc (sess (n' z)))) = concat (map Bytes (queue (n' z)))" for z
      using net_invD(5) [OF inv, of z] arrive by (cases "z = x") (auto simp: take_drop_more)
    show "in_use m \<and> frame_ok m \<and> (\<exists>k \<in> K. fst (Channel m) = localId (chn (pair_of ref n k (\<not> z))))" if "m \<in> set (queue (n' z))" for z m
      using that net_invD(7) [OF inv, of m z] arrive(1) by (cases "z = x") auto
    show "loop_err (n' z) = None \<and> wr_fail (enc (sess (n' z))) = None \<and> rd_end (dec (sess (n' z))) = None \<and> moved (n' z) \<le> length (wr_buf (enc (sess (n' z))))" for z
      using net_invD(2-6) [OF inv, of z] arrive(1,2) by (cases "z = x") auto
    show "chans (sess (n' z)) = chans (sess (n z))" for z using arrive(1) by (cases "z = x") auto
  qed (simp add: st)
  with st show ?thesis by blast
qed

lemma packet_keeps:
  assumes packet: "n' = n(x := (n x)\<lparr>sess := s, loop_err := err\<rparr>, \<not> x := (n (\<not> x))\<lparr>queue := tl (queue (n (\<not> x)))\<rparr>)"
      "onePacket (sess (n x)) = PRet err s"
    and inv: "net_inv ref K n"
  shows "net_inv ref K n' \<and> (\<forall>k \<in> K. pair_of ref n' k = pair_of ref n k \<or> dstep (pair_of ref n k) (pair_of ref n' k))"
proof -
  note pr = packet_pairs [OF inv packet(2), folded packet(1)]
  have st: "pair_of ref n' j = pair_of ref n j \<or> dstep (pair_of ref n j) (pair_of ref n' j)" if "j \<in> K" for j
    using pr(2) that by (auto simp: finishing_def)
  from pr(3) obtain k c' m ms rd where p: "queue (n (\<not> x)) = m # ms" "rd_buf (dec (sess (n x))) = Bytes m @ rd"
    "s = put_chan (ref x k) c' ((sess (n x))\<lparr>dec := \<lparr>rd_buf = rd, rd_end = None\<rparr>\<rparr>)" "k \<in> K" by blast
  have "net_inv ref K n'"
  proof (rule net_invI [OF inv st])
    show "heap (sess (n' z)) (ref z j) \<noteq> None" if "j \<in> K" for z j
      using net_invD(9) [OF inv that, of z] packet(1) p(3) by (cases "z = x") (auto simp: put_chan_def)
    show "rd_buf (dec (sess (n' (\<not> z)))) @ drop (moved (n' z)) (wr_buf (enc (sess (n' z)))) = concat (map Bytes (queue (n' z)))" for z
      using net_invD(5) [OF inv, of z] packet(1) p by (cases "z = x") (auto simp: put_chan_def)
    show "in_use m \<and> frame_ok m \<and> (\<exists>k \<in> K. fst (Channel m) = localId (chn (pair_of ref n k (\<not> z))))" if "m \<in> set (queue (n' z))" for z m
      using that net_invD(7) [OF inv, of m z] packet(1) p(1) by (cases "z = x") auto
    show "loop_err (n' z) = None \<and> wr_fail (enc (sess (n' z))) = None \<and> rd_end (dec (sess (n' z))) = None \<and> moved (n' z) \<le> length (wr_buf (enc (sess (n' z))))" for z
      using net_invD(2-6) [OF inv, of z] packet(1) p(3) pr(1) by (cases "z = x") (auto simp: put_chan_def)
    show "chans (sess (n' z)) = chans (sess (n z))" for z using packet(1) p(3) by (cases "z = x") (auto simp: put_chan_def)
  qed
  with st show ?thesis by blast
qed

lemma nstep_pairs:
  assumes "nstep ref K n n'" and "net_inv ref K n"
  shows "net_inv ref K n' \<and> (\<forall>k \<in> K. pair_of ref n' k = pair_of ref n k \<or> dstep (pair_of ref n k) (pair_of ref n' k))"
  using assms(1)
proof (cases rule: nstep.cases)
  case (channel k r x s)
  then show ?thesis using assms(2) by (rule channel_keeps)
next
  case (arrive m x bs)
  then show ?thesis using assms(2) by (rule arrive_keeps)
next
  case (packet x err s)
  then show ?thesis using assms(2) by (rule packet_keeps)
qed

section \<open>Finishing\<close>

text \<open>The steps of the system that only finish what is under way.\<close>

definition nfinish :: "(bool \<Rightarrow> nat \<Rightarrow> nat) \<Rightarrow> nat set \<Rightarrow> net \<Rightarrow> net \<Rightarrow> bool" where
  "nfinish ref K n n' \<longleftrightarrow> nstep ref K n n' \<and> (\<forall>k \<in> K. pair_of ref n' k = pair_of ref n k \<or> finishing (pair_of ref n k) (pair_of ref n' k))"

definition net_distance :: "(bool \<Rightarrow> nat \<Rightarrow> nat) \<Rightarrow> nat set \<Rightarrow> net \<Rightarrow> nat" where
  "net_distance ref K n = (\<Sum>k \<in> K. duplex_distance (pair_of ref n k))"

lemma net_lowers:
  assumes "finite K" and "k \<in> K" and "duplex_distance (pair_of ref n' k) < duplex_distance (pair_of ref n k)"
    and "\<And>j. j \<in> K \<Longrightarrow> j \<noteq> k \<Longrightarrow> pair_of ref n' j = pair_of ref n j"
  shows "net_distance ref K n' < net_distance ref K n"
  unfolding net_distance_def using assms by (intro sum_strict_mono_ex1) (force simp: le_less)+

text \<open>The next frame can always be made to arrive and be handled.\<close>

lemma nfinish_frame:
  assumes "net_inv ref K n" and "finite K" and "queue (n (\<not> x)) \<noteq> []"
  shows "\<exists>n'. (nfinish ref K)\<^sup>*\<^sup>* n n' \<and> net_distance ref K n' < net_distance ref K n"
proof -
  let ?w = "wr_buf (enc (sess (n (\<not> x))))" and ?mv = "moved (n (\<not> x))"
  define n1 where "n1 = n(x := (n x)\<lparr>sess := (sess (n x))\<lparr>dec := (dec (sess (n x)))\<lparr>rd_buf := rd_buf (dec (sess (n x))) @ drop ?mv ?w\<rparr>\<rparr>\<rparr>,
      \<not> x := (n (\<not> x))\<lparr>moved := ?mv + (length ?w - ?mv)\<rparr>)"
  have st: "nstep ref K n n1" unfolding n1_def by (rule nstep.arrive) simp_all
  have pr: "pair_of ref n1 k = pair_of ref n k" for k unfolding n1_def by (rule arrive_pairs)
  note i1 = conjunct1 [OF nstep_pairs [OF st assms(1)]]
  from assms(3) obtain m ms where q: "queue (n (\<not> x)) = m # ms" by (cases "queue (n (\<not> x))") auto
  have "frame_ok m" using net_invD(7) [OF assms(1), of m "\<not> x"] q by simp
  moreover have "dec (sess (n1 x)) = \<lparr>rd_buf = Bytes m @ concat (map Bytes ms), rd_end = None\<rparr>"
    using net_invD(5) [OF assms(1), of "\<not> x"] net_invD(4) [OF assms(1), of x] q by (simp add: n1_def)
  ultimately have "Decode (dec (sess (n1 x))) = RdOk m \<lparr>rd_buf = concat (map Bytes ms), rd_end = None\<rparr>" using Decode_Bytes by simp
  moreover have "queue (n1 (\<not> x)) = m # ms" using q by (simp add: n1_def)
  ultimately obtain err s where o: "onePacket (sess (n1 x)) = PRet err s" using packet_result [OF i1] by metis
  define n2 where "n2 = n1(x := (n1 x)\<lparr>sess := s, loop_err := err\<rparr>, \<not> x := (n1 (\<not> x))\<lparr>queue := tl (queue (n1 (\<not> x)))\<rparr>)"
  from packet_pairs(2) [OF i1 o, folded n2_def] obtain k where k: "k \<in> K" "finishing (pair_of ref n1 k) (pair_of ref n2 k)"
    "duplex_distance (pair_of ref n2 k) < duplex_distance (pair_of ref n1 k)" "\<forall>j \<in> K. j \<noteq> k \<longrightarrow> pair_of ref n2 j = pair_of ref n1 j" by blast
  from nstep.packet [where n = n1 and x = x and ref = ref and K = K, OF o, folded n2_def] k(2,4) have "nfinish ref K n1 n2" unfolding nfinish_def by metis
  moreover have "nfinish ref K n n1" using st pr by (simp add: nfinish_def)
  ultimately have "(nfinish ref K)\<^sup>*\<^sup>* n n2" by (rule_tac rtranclp.rtrancl_into_rtrancl [OF r_into_rtranclp])
  moreover have "net_distance ref K n2 < net_distance ref K n"
    by (rule net_lowers [OF assms(2) k(1)]) (use k(3,4) pr in metis)+
  ultimately show ?thesis by blast
qed

text \<open>When the transport is empty, a step of one pair is a step of the system.\<close>

lemma lift_step:
  assumes "net_inv ref K n" and "k \<in> K" and "side_step (pair_of ref n k x) s" and "queue (n x) = []"
  shows "\<exists>n'. nstep ref K n n' \<and> pair_of ref n' k = (pair_of ref n k)(x := s) \<and> (\<forall>j \<in> K. j \<noteq> k \<longrightarrow> pair_of ref n' j = pair_of ref n j)"
proof -
  have v: "view (n x) (ref x k) [] = pair_of ref n k x" "s_out (pair_of ref n k x) = []" using assms(4) by (simp_all add: pair_of_def view_def frames_for_def)
  let ?n = "n(x := (n x)\<lparr>sess := (put_chan (ref x k) (chn s) (sess (n x)))\<lparr>enc := Encode_all (s_out s) (enc (sess (n x)))\<rparr>,
      marks := (marks (n x))(ref x k := s), queue := queue (n x) @ s_out s\<rparr>)"
  from assms(3) v(1) have st: "side_step (view (n x) (ref x k) []) s" by simp
  have "nstep ref K n ?n" by (rule nstep.channel [where n = n and x = x and ref = ref and k = k, OF assms(2) refl st])
  with channel_pairs(1) [OF assms(1,2) st] assms(2) v(2) show ?thesis by (intro exI [of _ ?n]) simp
qed

lemma nfinish_step:
  assumes "net_inv ref K n" and "finite K" and "k \<in> K" and "\<not> duplex_drained (pair_of ref n k)"
  shows "\<exists>n'. (nfinish ref K)\<^sup>*\<^sup>* n n' \<and> net_distance ref K n' < net_distance ref K n"
proof (cases "queue (n True) = [] \<and> queue (n False) = []")
  case False
  with nfinish_frame [OF assms(1,2), of True] nfinish_frame [OF assms(1,2), of False] show ?thesis by auto
next
  case True
  then have q: "queue (n x) = []" "s_out (pair_of ref n k x) = []" for x by (cases x; simp add: pair_of_def view_def frames_for_def)+
  from finishing_step [OF net_invD(8) [OF assms(1,3)] assms(4)] obtain d' where
    d': "finishing (pair_of ref n k) d'" "duplex_distance d' < duplex_distance (pair_of ref n k)" by blast
  from d'(1) have "dstep (pair_of ref n k) d'" by (simp add: finishing_def)
  then obtain x s where s: "d' = (pair_of ref n k)(x := s)" "side_step (pair_of ref n k x) s" by (cases rule: dstep.cases) (use q in auto)
  from lift_step [OF assms(1,3) s(2) q(1)] obtain n' where
    n': "nstep ref K n n'" "pair_of ref n' k = d'" "\<forall>j \<in> K. j \<noteq> k \<longrightarrow> pair_of ref n' j = pair_of ref n j" unfolding s(1) by blast
  then have "nfinish ref K n n'" using d'(1) unfolding nfinish_def by metis
  moreover have "net_distance ref K n' < net_distance ref K n"
    by (rule net_lowers [OF assms(2,3)]) (use d'(2) n' in auto)
  ultimately show ?thesis by blast
qed

lemma nfinish_inv: "(nfinish ref K)\<^sup>*\<^sup>* n n' \<Longrightarrow> net_inv ref K n \<Longrightarrow> net_inv ref K n'"
  by (induction rule: rtranclp_induct) (use nstep_pairs in \<open>auto simp: nfinish_def\<close>)

lemma net_can_finish:
  assumes "net_inv ref K n" and "finite K"
  shows "\<exists>n'. (nfinish ref K)\<^sup>*\<^sup>* n n' \<and> net_inv ref K n' \<and> (\<forall>k \<in> K. duplex_drained (pair_of ref n' k))"
  using assms(1)
proof (induction "net_distance ref K n" arbitrary: n rule: less_induct)
  case less
  show ?case
  proof (cases "\<forall>k \<in> K. duplex_drained (pair_of ref n k)")
    case False
    then obtain k where "k \<in> K" "\<not> duplex_drained (pair_of ref n k)" by blast
    from nfinish_step [OF less.prems assms(2) this] obtain n1 where
      n1: "(nfinish ref K)\<^sup>*\<^sup>* n n1" "net_distance ref K n1 < net_distance ref K n" by blast
    from less.hyps [OF n1(2) nfinish_inv [OF n1(1) less.prems]] n1(1) show ?thesis by (meson rtranclp_trans)
  qed (use less.prems in blast)
qed

section \<open>The start\<close>

text \<open>Two sessions after the handshakes of their channels, with nothing else on the transport.\<close>

definition linked :: "(bool \<Rightarrow> nat \<Rightarrow> nat) \<Rightarrow> nat set \<Rightarrow> (bool \<Rightarrow> session) \<Rightarrow> bool" where
  "linked ref K S \<longleftrightarrow> (\<forall>x. inj_on (ref x) K \<and> wr_fail (enc (S x)) = None \<and> dec (S x) = \<lparr>rd_buf = [], rd_end = None\<rparr>
     \<and> (\<forall>k \<in> K. heap (S x) (ref x k) \<noteq> None \<and> chanList_getChan (localId (the (heap (S x) (ref x k)))) (chans (S x)) = Some (ref x k)
          \<and> paired (the (heap (S x) (ref x k))) (the (heap (S (\<not> x)) (ref (\<not> x) k)))))"

definition net_start :: "(bool \<Rightarrow> session) \<Rightarrow> net" where
  "net_start S = (\<lambda>x. \<lparr>sess = S x, moved = length (wr_buf (enc (S x))), queue = [], marks = (\<lambda>r. side_start (the (heap (S x) r))), loop_err = None\<rparr>)"

lemma start_pair: "pair_of ref (net_start S) k = duplex_start (the (heap (S True) (ref True k))) (the (heap (S False) (ref False k)))"
  by (auto simp: fun_eq_iff pair_of_def view_def net_start_def duplex_start_def side_start_def frames_for_def)

lemma net_start_inv:
  assumes "linked ref K S"
  shows "net_inv ref K (net_start S)"
proof -
  have p: "paired (the (heap (S x) (ref x k))) (the (heap (S (\<not> x)) (ref (\<not> x) k)))" if "k \<in> K" for x k using assms that by (simp add: linked_def)
  have "duplex_inv (pair_of ref (net_start S) k)" if "k \<in> K" for k
    unfolding start_pair using start_inv p [OF that, of True] p [OF that, of False] by simp
  moreover have "remoteId (chn (pair_of ref (net_start S) k x)) = localId (chn (pair_of ref (net_start S) k (\<not> x)))" if "k \<in> K" for k x
    using p [OF that, of x] by (cases x) (simp_all add: start_pair duplex_start_def side_start_def paired_def)
  moreover have "chn (pair_of ref (net_start S) k x) = the (heap (S x) (ref x k))" for k x
    by (cases x) (simp_all add: start_pair duplex_start_def side_start_def)
  ultimately show ?thesis using assms by (simp add: net_inv_def net_start_def linked_def)
qed

lemma net_run_pairs:
  assumes "(nstep ref K)\<^sup>*\<^sup>* n n'" and "net_inv ref K n"
  shows "net_inv ref K n' \<and> (\<forall>k \<in> K. dstep\<^sup>*\<^sup>* (pair_of ref n k) (pair_of ref n' k))"
  using assms
proof (induction rule: rtranclp_induct)
  case (step n1 n2)
  with nstep_pairs [OF step.hyps(2)] show ?case by (metis rtranclp.rtrancl_into_rtrancl)
qed simp

lemma dsteps_reach: "dstep\<^sup>*\<^sup>* (duplex_start a b) d \<Longrightarrow> dreach a b d"
  by (induction rule: rtranclp_induct) (auto intro: dreach.intros)

lemma drained_queue:
  assumes "net_inv ref K n" and "\<And>k. k \<in> K \<Longrightarrow> duplex_drained (pair_of ref n k)"
  shows "queue (n x) = []"
proof (rule ccontr)
  assume "queue (n x) \<noteq> []"
  then obtain m where m: "m \<in> set (queue (n x))" by (cases "queue (n x)") auto
  with net_invD(7) [OF assms(1)] obtain k where k: "k \<in> K" "fst (Channel m) = localId (chn (pair_of ref n k (\<not> x)))" by blast
  with net_invD(11) [OF assms(1) k(1), of x] m have "m \<in> set (s_out (pair_of ref n k x))" by (simp add: pair_of_def view_def frames_for_def)
  moreover have "drained (direction_of (pair_of ref n k) x)" "drained (direction_of (pair_of ref n k) (\<not> x))"
    using assms(2) [OF k(1)] by (simp_all add: duplex_drained_def)
  then have "filter forward (s_out (pair_of ref n k x)) = []" "filter adjust_ok (s_out (pair_of ref n k x)) = []" by (simp_all add: drained_def)
  moreover have "list_all (\<lambda>m. forward m \<or> adjust_ok m) (s_out (pair_of ref n k x))" by (rule duplex_invD(3) [OF net_invD(8) [OF assms(1) k(1)]])
  ultimately show False by (auto simp: filter_empty_conv list_all_iff)
qed

text \<open>Two sessions with two channels, for the witnesses.\<close>

definition link_sessions :: "bool \<Rightarrow> session" where
  "link_sessions x = (New \<lparr>rd_buf = [], rd_end = None\<rparr> idle_writer)\<lparr>chans := [Some 0, Some 1],
     heap := (\<lambda>r. if r < 2 then Some (if x then (requested (of_nat r))\<lparr>remoteId := of_nat r, maxRemotePayload := channelMaxPacket, remoteWin := full_window\<rparr>
                                      else offered (of_nat r) (of_nat r)) else None)\<rparr>"

definition same_ref :: "bool \<Rightarrow> nat \<Rightarrow> nat" where
  "same_ref x k = k"

lemma linked_sample: "linked same_ref {0, 1} link_sessions"
  using paired_handshake [of 0 0] paired_handshake [of 1 1]
  by (auto simp: linked_def same_ref_def link_sessions_def New_def idle_writer_def chanList_getChan_def requested_def offered_def)

section \<open>Properties\<close>

text \<open>
  C3: any number of channels between two sessions over one transport. The goroutines of all channels write and read as they like, the encoders put the frames of the channels on the transport in the order in which
  they come, the bytes arrive in pieces, and the two packet loops decode and dispatch them. Then neither loop ends, and every channel behaves as if it had two wires of its own: its two channel objects, with the frames on the
  transport that are addressed to it, are a state that the two peers of one channel can reach. In particular what is read on a channel is a beginning of what was written to it.
\<close>

theorem channels_independent:
  assumes "linked ref K S" and "(nstep ref K)\<^sup>*\<^sup>* (net_start S) n" and "k \<in> K"
    and "a = the (heap (S True) (ref True k))" and "b = the (heap (S False) (ref False k))"
  shows "loop_err (n x) = None \<and> dreach a b (pair_of ref n k) \<and> prefix (s_got (pair_of ref n k (\<not> x))) (s_put (pair_of ref n k x))"
proof -
  from net_run_pairs [OF assms(2) net_start_inv [OF assms(1)]] have i: "net_inv ref K n" "dstep\<^sup>*\<^sup>* (pair_of ref (net_start S) k) (pair_of ref n k)"
    using assms(3) by blast+
  from i(2) have "dreach a b (pair_of ref n k)" using dsteps_reach start_pair assms(4,5) by metis
  moreover have "s_got (pair_of ref n k (\<not> x)) @ unread (direction_of (pair_of ref n k) x) = s_put (pair_of ref n k x)"
    using unread_bytes [OF duplex_invD(1) [OF net_invD(8) [OF i(1) assms(3)]], of x] by simp
  then have "prefix (s_got (pair_of ref n k (\<not> x))) (s_put (pair_of ref n k x))" by (metis prefix_def)
  ultimately show ?thesis using net_invD(2) [OF i(1), of x] by blast
qed

theorem channels_independent_witness:
  "\<exists>n. (nstep same_ref {0, 1})\<^sup>*\<^sup>* (net_start link_sessions) n \<and> s_hand (pair_of same_ref n 1 True) = [[7]] \<and> loop_err (n True) = None
     \<and> dreach (the (heap (link_sessions True) 1)) (the (heap (link_sessions False) 1)) (pair_of same_ref n 1)"
proof -
  let ?n = "net_start link_sessions" let ?d = "pair_of same_ref ?n 1"
  note i = net_start_inv [OF linked_sample]
  have k: "(1 :: nat) \<in> {0, 1}" by simp
  have "duplex_drained ?d"
    by (auto simp: start_pair duplex_drained_def drained_def duplex_start_def side_start_def link_sessions_def same_ref_def requested_def offered_def)
  moreover have "can_send (chn (?d True))"
    by (simp add: start_pair duplex_start_def side_start_def link_sessions_def same_ref_def can_send_def channelMaxPacket_def full_window_def)
  ultimately obtain s where s: "side_step (?d True) s" "s_hand s = [[7]]" using can_reserve [OF net_invD(8) [OF i k], of True 7] by blast
  have "queue (?n True) = []" by (simp add: net_start_def)
  from lift_step [OF i k s(1) this] obtain n where n: "nstep same_ref {0, 1} ?n n" "pair_of same_ref n 1 = ?d(True := s)" by blast
  from channels_independent [OF linked_sample r_into_rtranclp [where r = "nstep same_ref {0, 1}", OF n(1)] k refl refl, of True] n s(2) show ?thesis
    by (intro exI [of _ n]) (auto simp: same_ref_def)
qed

end
