(* ===== verification/Mux_Connect.thy ===== *)
theory Mux_Connect
  imports Mux_Peers
begin

text \<open>
  How the channels of \<^theory_text>\<open>Mux_Peers\<close> come about: from two new sessions, one exchange of \<^verbatim>\<open>Open\<close>, \<^verbatim>\<open>handleOpen\<close> and \<^verbatim>\<open>Accept\<close> after the other. The lemmas follow the exchange through both sessions, with their tables
  and heaps, and show that each one adds a channel and leaves the others as they are, so that any number of them gives two sessions that are linked by as many channels.
\<close>

section \<open>One exchange\<close>

text \<open>
  \<^verbatim>\<open>Open\<close> of the first session up to its end, with the packets in between: the request goes to the second session, whose loop offers a channel; it is accepted and confirmed, and the confirmation goes back.
\<close>

definition open_exchange :: "(bool \<Rightarrow> session) \<Rightarrow> nat \<Rightarrow> nat \<Rightarrow> (bool \<Rightarrow> session) \<Rightarrow> bool" where
  "open_exchange S r q S' \<longleftrightarrow> (\<exists>sa request sb cb sb2 reply sa1 ca.
     Open_send (S True) = (None, r, sa) \<and> wr_buf (enc sa) = wr_buf (enc (S True)) @ request
     \<and> onePacket ((S False)\<lparr>dec := \<lparr>rd_buf = request, rd_end = None\<rparr>\<rparr>) = POffer q sb \<and> heap sb q = Some cb
     \<and> handleOpen_accepted cb sb = (None, sb2) \<and> wr_buf (enc sb2) = wr_buf (enc (S False)) @ reply
     \<and> onePacket (sa\<lparr>dec := \<lparr>rd_buf = reply, rd_end = None\<rparr>\<rparr>) = PRet None sa1 \<and> heap sa1 r = Some ca
     \<and> Open_recv r ca sa1 = Some (Inr r, S' True) \<and> S' False = sb2)"

definition confirmed :: "u32 \<Rightarrow> u32 \<Rightarrow> channel" where
  "confirmed lid rid = (requested lid)\<lparr>remoteId := rid, maxRemotePayload := channelMaxPacket, remoteWin := full_window\<rparr>"

definition new_chan :: "nat \<Rightarrow> nat chanList \<Rightarrow> channel \<Rightarrow> session \<Rightarrow> session" where
  "new_chan r cs c s = s\<lparr>chans := cs, next_ref := Suc r, heap := (heap s)(r \<mapsto> c)\<rparr>"

lemma open_request:
  assumes "chanList_add (next_ref s) (chans s) = (lid, cs)" and "wr_fail (enc s) = None"
  shows "Open_send s = (None, next_ref s, (new_chan (next_ref s) cs (requested lid) s)\<lparr>enc := (enc s)\<lparr>wr_buf := wr_buf (enc s) @ Bytes (OpenMessage lid channelWindowSize channelMaxPacket)\<rparr>\<rparr>)"
  using assms by (simp add: Open_send_def newChannel_def requested_def new_chan_def put_chan_def Encode_def go_simps Let_def)

lemma open_offer:
  assumes "chanList_add (next_ref s) (chans s) = (lid, cs)" and "dec s = \<lparr>rd_buf = Bytes (OpenMessage rid channelWindowSize channelMaxPacket), rd_end = None\<rparr>"
  shows "onePacket s = POffer (next_ref s) ((new_chan (next_ref s) cs (offered lid rid) s)\<lparr>dec := \<lparr>rd_buf = [], rd_end = None\<rparr>\<rparr>)"
proof -
  have "Decode (dec s) = RdOk (OpenMessage rid channelWindowSize channelMaxPacket) \<lparr>rd_buf = [], rd_end = None\<rparr>"
    using Decode_Bytes [of "OpenMessage rid channelWindowSize channelMaxPacket" "[]" None] assms(2) by (simp add: frame_ok_def)
  with assms(1) window_add_new show ?thesis
    by (simp add: onePacket_def handleOpen_def newChannel_def offered_def requested_def new_chan_def put_chan_def Let_def)
qed

lemma open_confirmed:
  assumes "chanList_getChan lid (chans s) = Some r" and "heap s r = Some (requested lid)"
    and "dec s = \<lparr>rd_buf = Bytes (OpenConfirmMessage lid rid channelWindowSize channelMaxPacket), rd_end = None\<rparr>"
  shows "\<exists>s1 c. onePacket s = PRet None s1 \<and> heap s1 r = Some c \<and> Open_recv r c s1 = Some (Inr r, (put_chan r (confirmed lid rid) s)\<lparr>dec := \<lparr>rd_buf = [], rd_end = None\<rparr>\<rparr>)"
proof -
  have "Decode (dec s) = RdOk (OpenConfirmMessage lid rid channelWindowSize channelMaxPacket) \<lparr>rd_buf = [], rd_end = None\<rparr>"
    using Decode_Bytes [of "OpenConfirmMessage lid rid channelWindowSize channelMaxPacket" "[]" None] assms(3) by (simp add: frame_ok_def)
  with assms(1,2) window_add_new show ?thesis
    by (simp add: onePacket_def handle_def responseMessageReceived_def msg_send_def chanSize_def after_handle_def
        Open_recv_def open_verdict_def requested_def confirmed_def put_chan_def)
qed

text \<open>The whole exchange, with the two sessions that it leaves.\<close>

lemma exchange_result:
  assumes "\<And>x. sess_inv (S x)" and "\<And>x. wr_fail (enc (S x)) = None"
    and "\<And>x. chanList_add (next_ref (S x)) (chans (S x)) = (lid x, cs x)"
  obtains S' where "open_exchange S (next_ref (S True)) (next_ref (S False)) S'"
    and "\<And>x. chans (S' x) = cs x \<and> heap (S' x) = (heap (S x))(next_ref (S x) \<mapsto> if x then confirmed (lid True) (lid False) else offered (lid False) (lid True))
      \<and> next_ref (S' x) = Suc (next_ref (S x)) \<and> wr_fail (enc (S' x)) = None \<and> dec (S' x) = \<lparr>rd_buf = [], rd_end = None\<rparr>"
proof -
  let ?r = "next_ref (S True)" and ?q = "next_ref (S False)"
  let ?req = "Bytes (OpenMessage (lid True) channelWindowSize channelMaxPacket)"
  let ?sa = "(new_chan ?r (cs True) (requested (lid True)) (S True))\<lparr>enc := (enc (S True))\<lparr>wr_buf := wr_buf (enc (S True)) @ ?req\<rparr>\<rparr>"
  let ?cb = "offered (lid False) (lid True)"
  let ?sb = "(new_chan ?q (cs False) ?cb ((S False)\<lparr>dec := \<lparr>rd_buf = ?req, rd_end = None\<rparr>\<rparr>))\<lparr>dec := \<lparr>rd_buf = [], rd_end = None\<rparr>\<rparr>"
  let ?rep = "Bytes (OpenConfirmMessage (lid True) (lid False) channelWindowSize channelMaxPacket)"
  let ?sb2 = "?sb\<lparr>enc := (enc (S False))\<lparr>wr_buf := wr_buf (enc (S False)) @ ?rep\<rparr>\<rparr>"
  let ?sa1 = "?sa\<lparr>dec := \<lparr>rd_buf = ?rep, rd_end = None\<rparr>\<rparr>"
  let ?sa2 = "(put_chan ?r (confirmed (lid True) (lid False)) ?sa1)\<lparr>dec := \<lparr>rd_buf = [], rd_end = None\<rparr>\<rparr>"
  let ?S = "\<lambda>x. if x then ?sa2 else ?sb2"
  have o: "Open_send (S True) = (None, ?r, ?sa)" by (rule open_request [OF assms(3,2)])
  have f: "onePacket ((S False)\<lparr>dec := \<lparr>rd_buf = ?req, rd_end = None\<rparr>\<rparr>) = POffer ?q ?sb"
    using open_offer [of "(S False)\<lparr>dec := \<lparr>rd_buf = ?req, rd_end = None\<rparr>\<rparr>"] assms(3) by simp
  have a: "handleOpen_accepted ?cb ?sb = (None, ?sb2)"
    using assms(2) by (simp add: handleOpen_accepted_def new_chan_def offered_def requested_def Encode_def go_simps)
  have "has_room (chans (S True))" by (rule sess_invD(1) [OF assms(1)])
  from ct.add_then_get [OF this assms(3)] obtain s1 c where
    c: "onePacket ?sa1 = PRet None s1" "heap s1 ?r = Some c" "Open_recv ?r c s1 = Some (Inr ?r, ?sa2)"
    using open_confirmed [of "lid True" ?sa1 ?r "lid False"] by (auto simp: new_chan_def)
  have "open_exchange S ?r ?q ?S" unfolding open_exchange_def
    by (intro exI [of _ ?sa] exI [of _ ?req] exI [of _ ?sb] exI [of _ ?cb] exI [of _ ?sb2] exI [of _ ?rep] exI [of _ s1] exI [of _ c])
       (use o f a c in \<open>simp add: new_chan_def\<close>)
  then show thesis by (rule that) (use assms(2) in \<open>simp add: new_chan_def put_chan_def\<close>)
qed

section \<open>Many exchanges\<close>

definition add_ref :: "(bool \<Rightarrow> nat \<Rightarrow> nat) \<Rightarrow> nat \<Rightarrow> nat \<Rightarrow> nat \<Rightarrow> bool \<Rightarrow> nat \<Rightarrow> nat" where
  "add_ref ref k r q = (\<lambda>x j. if j = k then (if x then r else q) else ref x j)"

text \<open>One more channel in a session's table.\<close>

lemma new_channel_inv:
  assumes "sess_inv s" and "chanList_add (next_ref s) (chans s) = (lid, cs)" and "length (chans s) < 4294967294"
    and "chan_inv c" and "\<not> msg_closed c" and "localId c = lid"
    and "chans s' = cs" and "heap s' = (heap s)(next_ref s \<mapsto> c)" and "next_ref s' = Suc (next_ref s)"
  shows "sess_inv s'" and "length (chans s') \<le> Suc (length (chans s))"
proof -
  show len: "length (chans s') \<le> Suc (length (chans s))"
    using sess_invD(1) [OF assms(1)] assms(2) unfolding assms(7) by (rule chanList_add_cases) simp_all
  then have "has_room cs" using assms(3,7) by (simp add: has_room_def)
  then show "sess_inv s'" using assms reg.consistent_new [of "chans s" "heap s" "next_ref s" lid cs c] by (auto simp: sess_inv_def)
qed

lemma linked_insert:
  assumes "\<And>x. sess_inv (S x)" and "linked ref K S" and "k \<notin> K"
    and add: "\<And>x. chanList_add (next_ref (S x)) (chans (S x)) = (localId (c x), chans (S' x))"
    and hp: "\<And>x. heap (S' x) = (heap (S x))(next_ref (S x) \<mapsto> c x)"
    and ends: "\<And>x. wr_fail (enc (S' x)) = None" "\<And>x. dec (S' x) = \<lparr>rd_buf = [], rd_end = None\<rparr>"
    and pair: "\<And>x. paired (c x) (c (\<not> x))"
  shows "linked (add_ref ref k (next_ref (S True)) (next_ref (S False))) (insert k K) S'" (is "linked ?ref _ _")
  unfolding linked_def
proof (intro allI conjI ballI)
  note room = sess_invD(1) [OF assms(1)]
  have new: "?ref x k = next_ref (S x)" for x by (simp add: add_ref_def)
  have h: "heap (S x) (ref x j) \<noteq> None" if "j \<in> K" for x j using that assms(2) unfolding linked_def by blast
  have old: "?ref x j = ref x j" "ref x j \<noteq> next_ref (S x)" if "j \<in> K" for x j
    using that assms(3) h [OF that, of x] sess_invD(2) [OF assms(1), of x "ref x j"] by (auto simp: add_ref_def)
  fix x
  show "inj_on (?ref x) (insert k K)" using assms(2) old [of _ x] new unfolding inj_on_def linked_def by (metis insertE)
  show "wr_fail (enc (S' x)) = None" "dec (S' x) = \<lparr>rd_buf = [], rd_end = None\<rparr>" using ends by auto
  fix j assume j: "j \<in> insert k K"
  show "heap (S' x) (?ref x j) \<noteq> None" using j old new h hp by (cases "j = k") auto
  show "chanList_getChan (localId (the (heap (S' x) (?ref x j)))) (chans (S' x)) = Some (?ref x j)"
  proof (cases "j = k")
    case True
    with new hp ct.add_then_get [OF room add] show ?thesis by simp
  next
    case False
    with j old hp assms(2) ct.add_keeps_others [OF room add] show ?thesis by (simp add: linked_def)
  qed
  show "paired (the (heap (S' x) (?ref x j))) (the (heap (S' (\<not> x)) (?ref (\<not> x) j)))"
    using j old hp new pair assms(2) by (cases "j = k") (simp_all add: linked_def)
qed

lemma exchange_links:
  assumes "\<And>x. sess_inv (S x)" and "linked ref K S" and "k \<notin> K" and "\<And>x. length (chans (S x)) < 4294967294"
  shows "\<exists>r q S'. open_exchange S r q S' \<and> linked (add_ref ref k r q) (insert k K) S' \<and> (\<forall>x. sess_inv (S' x) \<and> length (chans (S' x)) \<le> Suc (length (chans (S x))))"
proof -
  define lid where "lid x = fst (chanList_add (next_ref (S x)) (chans (S x)))" for x
  define cs where "cs x = snd (chanList_add (next_ref (S x)) (chans (S x)))" for x
  have add: "chanList_add (next_ref (S x)) (chans (S x)) = (lid x, cs x)" for x by (simp add: lid_def cs_def)
  have w: "wr_fail (enc (S x)) = None" for x using assms(2) by (simp add: linked_def)
  define c where "c x = (if x then confirmed (lid True) (lid False) else offered (lid False) (lid True))" for x
  from exchange_result [of S lid cs, OF assms(1) w add, folded c_def] obtain S' where S': "open_exchange S (next_ref (S True)) (next_ref (S False)) S'"
    "\<And>x. chans (S' x) = cs x" "\<And>x. heap (S' x) = (heap (S x))(next_ref (S x) \<mapsto> c x)" "\<And>x. next_ref (S' x) = Suc (next_ref (S x))"
    "\<And>x. wr_fail (enc (S' x)) = None" "\<And>x. dec (S' x) = \<lparr>rd_buf = [], rd_end = None\<rparr>" by metis
  have c: "chan_inv (c x)" "\<not> msg_closed (c x)" "localId (c x) = lid x" for x
    by (simp_all add: c_def confirmed_def offered_def requested_def chan_inv_def)
  have "paired (c x) (c (\<not> x))" for x using paired_handshake by (cases x) (simp_all add: c_def confirmed_def)
  with S'(2,3,5,6) add c(3) have "linked (add_ref ref k (next_ref (S True)) (next_ref (S False))) (insert k K) S'"
    by (intro linked_insert [where c = c, OF assms(1-3)]) simp_all
  with S'(1) new_channel_inv [OF assms(1) add assms(4) c S'(2-4)] show ?thesis by blast
qed

lemma exchange_unique:
  assumes "open_exchange S r q S'" and "open_exchange S r1 q1 S1"
  shows "r1 = r \<and> q1 = q \<and> S1 = S'"
proof -
  have "r1 = r \<and> q1 = q \<and> S1 True = S' True \<and> S1 False = S' False" using assms by (auto simp: open_exchange_def)
  moreover have "S1 = S'" if "S1 True = S' True" "S1 False = S' False" using that by (metis (full_types) ext)
  ultimately show ?thesis by blast
qed

text \<open>Two new sessions and \<open>n\<close> exchanges; the channels are numbered in the order in which they are opened.\<close>

inductive opened :: "nat \<Rightarrow> (bool \<Rightarrow> nat \<Rightarrow> nat) \<Rightarrow> (bool \<Rightarrow> session) \<Rightarrow> bool" where
  none: "opened 0 ref (\<lambda>x. New \<lparr>rd_buf = [], rd_end = None\<rparr> \<lparr>wr_buf = [], wr_fail = None\<rparr>)"
| more: "opened n ref S \<Longrightarrow> open_exchange S r q S' \<Longrightarrow> opened (Suc n) (add_ref ref n r q) S'"

lemma opened_inv:
  assumes "opened n ref S" and "n < 4294967295"
  shows "linked ref {..<n} S \<and> (\<forall>x. sess_inv (S x) \<and> length (chans (S x)) \<le> n)"
  using assms
proof (induction rule: opened.induct)
  case (none ref)
  then show ?case using New_inv by (simp add: linked_def) (simp add: New_def)
next
  case (more n ref S r q S')
  then have i: "linked ref {..<n} S" "\<And>x. sess_inv (S x)" "\<And>x. length (chans (S x)) \<le> n" by simp_all
  from i(3) more.prems have "length (chans (S x)) < 4294967294" for x using le_less_trans [OF i(3)] by simp
  from exchange_links [OF i(2,1) _ this, of n] obtain r1 q1 S1 where
    o: "open_exchange S r1 q1 S1" "linked (add_ref ref n r1 q1) (insert n {..<n}) S1" "\<forall>x. sess_inv (S1 x) \<and> length (chans (S1 x)) \<le> Suc (length (chans (S x)))" by auto
  from exchange_unique [OF more.hyps(2) o(1)] o(2,3) i(3) show ?case by (simp add: lessThan_Suc) (meson Suc_le_mono le_trans)
qed

lemma opened_exists: "n < 4294967295 \<Longrightarrow> \<exists>ref S. opened n ref S"
proof (induction n)
  case 0
  show ?case using opened.none by blast
next
  case (Suc n)
  then obtain ref S where o: "opened n ref S" by auto
  from opened_inv [OF o] Suc.prems have i: "linked ref {..<n} S" "\<And>x. sess_inv (S x)" "\<And>x. length (chans (S x)) \<le> n" by simp_all
  from i(3) Suc.prems have "length (chans (S x)) < 4294967294" for x using le_less_trans [OF i(3)] by simp
  from exchange_links [OF i(2,1) _ this, of n] opened.more [OF o] show ?case by fastforce
qed

section \<open>Properties\<close>

text \<open>
  C9: opening channels. From two new sessions, any number of channels below 2^32 - 1 can be opened one after the other, and each time all of the handshake succeeds. However many were opened: every one of them has an object in both heaps that its id leads to, the two objects name each other and have full
  windows, different channels have different objects, and nothing is left over on the transport. This is the state that many channels and the calls on them start from.
\<close>

theorem opened_linked:
  assumes "n < 4294967295"
  shows "(\<exists>ref S. opened n ref S) \<and> (\<forall>ref S. opened n ref S \<longrightarrow> linked ref {..<n} S \<and> (\<forall>x. sess_inv (S x)))"
  using opened_exists [OF assms] opened_inv [OF _ assms] by blast

theorem opened_linked_witness:
  "\<exists>ref S. opened 3 ref S \<and> linked ref {..<3} S"
  using opened_linked [of 3] by auto

end
