(* ===== verification/Mux_Listen.thy ===== *)
theory Mux_Listen
  imports Mux_Session "HOL-Library.Multiset"
begin

text \<open>
  Dialers and listeners (\<^verbatim>\<open>src/mux/dial_*.go\<close>, \<^verbatim>\<open>listen_*.go\<close>). Connections come from the packages \<^verbatim>\<open>net\<close> and \<^verbatim>\<open>websocket\<close>: what their functions return is a
  parameter, a connection being the stream read from it and the stream written to it. The WebSocket listener is a server whose handler runs in a goroutine per
  connection and hands its session to \<^verbatim>\<open>Accept\<close> over an unbuffered channel; handlers, calls of \<^verbatim>\<open>Accept\<close> and of \<^verbatim>\<open>Close\<close> interleave in the step
  relation \<open>ws_step\<close>. A handler that panics is recovered by the HTTP server, after its deferred calls.

  The lemmas show that the WebSocket listener gives every session to one \<^verbatim>\<open>Accept\<close> or closes it, and leaves no caller waiting once it is closed.
\<close>

section \<open>Dialing\<close>

type_synonym conn = "reader \<times> writer"

definition New_conn :: "conn \<Rightarrow> session" where
  "New_conn c = New (fst c) (snd c)"

definition dialNet :: "(string \<Rightarrow> string \<Rightarrow> go_error + conn) \<Rightarrow> string \<Rightarrow> string \<Rightarrow> go_error + session" where
  "dialNet net_Dial proto addr = (case net_Dial proto addr of Inl e \<Rightarrow> Inl e | Inr c \<Rightarrow> Inr (New_conn c))"

definition DialTCP :: "(string \<Rightarrow> string \<Rightarrow> go_error + conn) \<Rightarrow> string \<Rightarrow> go_error + session" where
  "DialTCP net_Dial addr = dialNet net_Dial ''tcp'' addr"

definition DialUnix :: "(string \<Rightarrow> string \<Rightarrow> go_error + conn) \<Rightarrow> string \<Rightarrow> go_error + session" where
  "DialUnix net_Dial path = dialNet net_Dial ''unix'' path"

definition DialWS :: "(string \<Rightarrow> string \<Rightarrow> string \<Rightarrow> go_error + conn) \<Rightarrow> string \<Rightarrow> go_error + session" where
  "DialWS ws_Dial addr =
     (case ws_Dial (''ws://'' @ addr @ ''/'') [] (''http://'' @ addr @ ''/'') of
        Inl e \<Rightarrow> Inl e
      | Inr c \<Rightarrow> Inr (New_conn c))"

text \<open>A writer and a reader as one transport, with what closing each returns.\<close>

record ioduplex =
  d_out :: writer
  d_in :: reader
  d_out_err :: "go_error option"
  d_in_err :: "go_error option"
  d_out_closed :: bool
  d_in_closed :: bool

definition ioduplex_Close :: "ioduplex \<Rightarrow> go_error option \<times> ioduplex" where
  "ioduplex_Close d =
     (let d1 = d\<lparr>d_out_closed := True\<rparr>
      in case d_out_err d of
           Some e \<Rightarrow> (Some e, d1)
         | None \<Rightarrow> (d_in_err d, d1\<lparr>d_in_closed := True\<rparr>))"

definition DialIO :: "writer \<Rightarrow> reader \<Rightarrow> go_error + session" where
  "DialIO w r = Inr (New r w)"

definition DialStdio :: "writer \<Rightarrow> reader \<Rightarrow> go_error + session" where
  "DialStdio os_Stdout os_Stdin = DialIO os_Stdout os_Stdin"

section \<open>Listeners on connections\<close>

text \<open>\<^verbatim>\<open>ioListener.Accept\<close>: always a new session on the one transport.\<close>

definition ioListener_Accept :: "ioduplex \<Rightarrow> go_error + session" where
  "ioListener_Accept l = Inr (New (d_in l) (d_out l))"

definition ListenIO :: "writer \<Rightarrow> reader \<Rightarrow> go_error option \<Rightarrow> go_error option \<Rightarrow> ioduplex" where
  "ListenIO w r werr rerr =
     \<lparr>d_out = w, d_in = r, d_out_err = werr, d_in_err = rerr, d_out_closed = False, d_in_closed = False\<rparr>"

text \<open>\<^verbatim>\<open>netListener\<close> wraps a \<^verbatim>\<open>net.Listener\<close>, here its methods on a state of its own.\<close>

record 'l net_listener =
  nl_Accept :: "'l \<Rightarrow> (go_error + conn) \<times> 'l"
  nl_Close :: "'l \<Rightarrow> go_error option \<times> 'l"
  nl_state :: 'l

definition ListenerFrom :: "'l net_listener \<Rightarrow> 'l net_listener" where
  "ListenerFrom l = l"

definition netListener_Accept :: "'l net_listener \<Rightarrow> (go_error + session) \<times> 'l net_listener" where
  "netListener_Accept l =
     (case nl_Accept l (nl_state l) of
        (Inl e, x) \<Rightarrow> (Inl e, l\<lparr>nl_state := x\<rparr>)
      | (Inr c, x) \<Rightarrow> (Inr (New_conn c), l\<lparr>nl_state := x\<rparr>))"

definition netListener_Close :: "'l net_listener \<Rightarrow> go_error option \<times> 'l net_listener" where
  "netListener_Close l = (case nl_Close l (nl_state l) of (e, x) \<Rightarrow> (e, l\<lparr>nl_state := x\<rparr>))"

definition ListenTCP :: "(string \<Rightarrow> string \<Rightarrow> go_error + 'l net_listener) \<Rightarrow> string \<Rightarrow> go_error + 'l net_listener" where
  "ListenTCP net_Listen addr = (case net_Listen ''tcp'' addr of Inl e \<Rightarrow> Inl e | Inr l \<Rightarrow> Inr (ListenerFrom l))"

definition ListenUnix :: "(string \<Rightarrow> string \<Rightarrow> go_error + 'l net_listener) \<Rightarrow> string \<Rightarrow> go_error + 'l net_listener" where
  "ListenUnix net_Listen path = (case net_Listen ''unix'' path of Inl e \<Rightarrow> Inl e | Inr l \<Rightarrow> Inr (ListenerFrom l))"

section \<open>The WebSocket listener\<close>

text \<open>The sessions, by number, where their handlers are; the calls of \<^verbatim>\<open>Accept\<close> that wait, and what the others returned.\<close>

record wsListener =
  accepted_closed :: bool        \<comment> \<open>the channel \<^verbatim>\<open>accepted\<close> is closed\<close>
  net_closed :: bool             \<comment> \<open>the wrapped listener is closed\<close>
  next_sess :: nat
  sending :: "nat list"          \<comment> \<open>handlers at \<^verbatim>\<open>wsl.accepted <- sess\<close>\<close>
  ws_waiting :: "nat list"          \<comment> \<open>handlers at \<^verbatim>\<open>sess.Wait()\<close>\<close>
  ws_closed :: "nat list"        \<comment> \<open>sessions whose deferred \<^verbatim>\<open>Close\<close> has run\<close>
  receivers :: nat               \<comment> \<open>calls of \<^verbatim>\<open>Accept\<close> that wait\<close>
  given :: "nat list"            \<comment> \<open>the sessions that \<^verbatim>\<open>Accept\<close> has returned\<close>
  eofs :: nat                    \<comment> \<open>calls of \<^verbatim>\<open>Accept\<close> that returned \<^verbatim>\<open>io.EOF\<close>\<close>
  close_panics :: nat

definition ListenWS :: wsListener where
  "ListenWS = \<lparr>accepted_closed = False, net_closed = False, next_sess = 0, sending = [], ws_waiting = [], ws_closed = [],
     receivers = 0, given = [], eofs = 0, close_panics = 0\<rparr>"

text \<open>
  \<^verbatim>\<open>Close\<close> of a channel wakes everybody: waiting receivers get \<^verbatim>\<open>io.EOF\<close>, waiting senders panic. A second \<^verbatim>\<open>close\<close> panics before the
  wrapped listener is closed.
\<close>

definition wsListener_Close :: "wsListener \<Rightarrow> wsListener" where
  "wsListener_Close l =
     (if accepted_closed l then l\<lparr>close_panics := close_panics l + 1\<rparr>
      else l\<lparr>accepted_closed := True, net_closed := True, eofs := eofs l + receivers l, receivers := 0,
             ws_closed := ws_closed l @ sending l, sending := []\<rparr>)"

definition wsListener_Accept :: "wsListener \<Rightarrow> wsListener" where
  "wsListener_Accept l =
     (if accepted_closed l then l\<lparr>eofs := eofs l + 1\<rparr> else l\<lparr>receivers := receivers l + 1\<rparr>)"

text \<open>The handler of a new connection, up to the send; on a closed channel the send panics and the session is closed.\<close>

definition ws_handler :: "wsListener \<Rightarrow> wsListener" where
  "ws_handler l =
     (let l1 = l\<lparr>next_sess := next_sess l + 1\<rparr>
      in if accepted_closed l then l1\<lparr>ws_closed := ws_closed l @ [next_sess l]\<rparr>
         else l1\<lparr>sending := sending l @ [next_sess l]\<rparr>)"

inductive ws_step :: "wsListener \<Rightarrow> wsListener \<Rightarrow> bool" where
  connect: "ws_step l (ws_handler l)"
| accept: "ws_step l (wsListener_Accept l)"
| close: "ws_step l (wsListener_Close l)"
| meet: "sending l = s # rest \<Longrightarrow> receivers l = Suc n
    \<Longrightarrow> ws_step l (l\<lparr>sending := rest, receivers := n, given := given l @ [s], ws_waiting := ws_waiting l @ [s]\<rparr>)"
| ended: "s \<in> set (ws_waiting l) \<Longrightarrow> ws_step l (l\<lparr>ws_waiting := remove1 s (ws_waiting l), ws_closed := ws_closed l @ [s]\<rparr>)"

section \<open>The invariant\<close>

definition ws_inv :: "wsListener \<Rightarrow> bool" where
  "ws_inv l \<longleftrightarrow>
     mset (sending l) + mset (ws_waiting l) + mset (ws_closed l) = mset [0..<next_sess l]
     \<and> distinct (given l @ sending l) \<and> set (given l) \<subseteq> {0..<next_sess l} \<and> set (ws_waiting l) \<subseteq> set (given l)
     \<and> (accepted_closed l \<longrightarrow> sending l = [] \<and> receivers l = 0)
     \<and> accepted_closed l = net_closed l"

lemma ws_places:
  assumes "mset xs + mset ys + mset zs = mset [0..<n]"
  shows "set xs \<union> set ys \<union> set zs = {0..<n}" and "distinct (xs @ ys @ zs)"
proof -
  have m: "mset (xs @ ys @ zs) = mset [0..<n]" using assms by (simp add: ac_simps)
  then have "set (xs @ ys @ zs) = set [0..<n]" by (rule mset_eq_setD)
  then show "set xs \<union> set ys \<union> set zs = {0..<n}" by auto
  show "distinct (xs @ ys @ zs)" using mset_eq_imp_distinct_iff [OF m] by simp
qed

lemma upt_mset_Suc [simp]: "mset_set {0..<Suc n} = add_mset n (mset_set {0..<n})"
  by (simp add: atLeast0_lessThan_Suc)

lemma ws_step_inv:
  assumes "ws_step l l'" and "ws_inv l"
  shows "ws_inv l'"
  using assms
proof (induction rule: ws_step.induct)
  case (connect l)
  then have "set (sending l) \<subseteq> {0..<next_sess l}" using ws_places(1) [of "sending l" "ws_waiting l" "ws_closed l"] by (auto simp: ws_inv_def)
  with connect show ?case by (auto simp: ws_inv_def ws_handler_def Let_def)
next
  case (accept l)
  then show ?case by (auto simp: ws_inv_def wsListener_Accept_def)
next
  case (close l)
  then show ?case by (auto simp: ws_inv_def wsListener_Close_def ac_simps)
next
  case (meet l s rest n)
  then have "mset (sending l) + mset (ws_waiting l) + mset (ws_closed l) = mset [0..<next_sess l]" by (simp add: ws_inv_def)
  from ws_places(1) [OF this] meet(1) have "s \<in> {0..<next_sess l}" by auto
  with meet show ?case by (auto simp: ws_inv_def)
next
  case (ended s l)
  then have "mset (remove1 s (ws_waiting l)) + {#s#} = mset (ws_waiting l)" by simp
  with ended show ?case by (auto simp: ws_inv_def dest: set_mp [OF set_remove1_subset])
qed

lemma ws_reachable_inv: "ws_step\<^sup>*\<^sup>* ListenWS l \<Longrightarrow> ws_inv l"
proof (induction rule: rtranclp_induct)
  case base
  then show ?case by (simp add: ws_inv_def ListenWS_def)
next
  case (step l l')
  then show ?case by (blast intro: ws_step_inv)
qed

section \<open>Properties\<close>

text \<open>
  C40: the WebSocket listener in any interleaving of connections, \<^verbatim>\<open>Accept\<close>, \<^verbatim>\<open>Close\<close> and ending sessions. No session is given to two calls of \<^verbatim>\<open>Accept\<close>; every session is
  in exactly one place: its handler waits for an \<^verbatim>\<open>Accept\<close>, or for the end of the session after one, or has closed it. Once \<^verbatim>\<open>Close\<close> has been called no \<^verbatim>\<open>Accept\<close> and no handler is
  left waiting for the other, and every session that no \<^verbatim>\<open>Accept\<close> returned is closed.
\<close>

theorem ws_listener_no_leak:
  assumes "ws_step\<^sup>*\<^sup>* ListenWS l"
  shows "distinct (given l) \<and> distinct (sending l @ ws_waiting l @ ws_closed l)
    \<and> set (sending l) \<union> set (ws_waiting l) \<union> set (ws_closed l) = {0..<next_sess l} \<and> set (given l) \<inter> set (sending l) = {}
    \<and> (accepted_closed l \<longrightarrow> sending l = [] \<and> receivers l = 0 \<and> {0..<next_sess l} - set (given l) \<subseteq> set (ws_closed l))"
proof -
  have inv: "ws_inv l" by (rule ws_reachable_inv [OF assms])
  then have "mset (sending l) + mset (ws_waiting l) + mset (ws_closed l) = mset [0..<next_sess l]" by (simp add: ws_inv_def)
  from ws_places [OF this] inv show ?thesis by (auto simp: ws_inv_def)
qed

theorem ws_listener_no_leak_witness:
  "\<exists>l. ws_step\<^sup>*\<^sup>* ListenWS l \<and> accepted_closed l \<and> next_sess l = 1 \<and> given l = [] \<and> ws_closed l = [0] \<and> sending l = []"
proof -
  let ?l = "wsListener_Close (ws_handler ListenWS)"
  have r: "ws_step\<^sup>*\<^sup>* ListenWS ?l" by (meson ws_step.connect ws_step.close converse_rtranclp_into_rtranclp rtranclp.rtrancl_refl)
  from ws_listener_no_leak [OF r] r show ?thesis
    by (intro exI [of _ ?l]) (simp add: wsListener_Close_def ws_handler_def ListenWS_def)
qed

end
