(* ===== verification/Rpc_Frame.thy ===== *)
theory Rpc_Frame
  imports Qtalk_Prelude
begin

text \<open>
  The values of the RPC protocol and the length-prefixed frames that carry them
  (\<^verbatim>\<open>src/rpc/frame.go\<close>, \<^verbatim>\<open>src/codec/codec.go\<close>). The interface \<^verbatim>\<open>codec.Codec\<close> is implemented outside the
  repository (the standard library's JSON, a CBOR package): a codec is a parameter, a record of its
  two functions. Encoding can fail; decoding depends on the type of the variable it decodes into,
  which the source passes as a pointer and the model as a \<open>target\<close>.

  The lemmas show that frames are self-delimiting for every codec, so that the values of a
  conversation are read back one by one, and what a cut stream gives.
\<close>

section \<open>Values and codecs\<close>

text \<open>
  The dynamic types that \<^verbatim>\<open>src/rpc\<close> itself distinguishes in an \<^verbatim>\<open>interface{}\<close>; \<open>'d\<close> stands for all others.
\<close>

datatype 'd any =
    ANil
  | ACallHeader string                    \<comment> \<open>CallHeader: Selector\<close>
  | AResponseHeader "string option" bool  \<comment> \<open>ResponseHeader: Error, Continue\<close>
  | AError go_error                       \<comment> \<open>a value that implements error\<close>
  | AData 'd

datatype 't target =
    TCall        \<comment> \<open>a Call or CallHeader\<close>
  | TResponse    \<comment> \<open>a ResponseHeader\<close>
  | TDiscard     \<comment> \<open>a byte slice that is thrown away\<close>
  | TVar 't      \<comment> \<open>a variable of the program\<close>

record ('d, 't) codec =
  c_enc :: "'d any \<Rightarrow> go_error + bytes"
  c_dec :: "'t target \<Rightarrow> bytes \<Rightarrow> go_error + 'd any"

section \<open>Frames\<close>

definition frame_Encode :: "('d, 't) codec \<Rightarrow> 'd any \<Rightarrow> writer \<Rightarrow> go_error option \<times> writer" where
  "frame_Encode C v w =
     (case c_enc C v of
        Inl e \<Rightarrow> (Some e, w)
      | Inr b \<Rightarrow>
          (case Write (put_u32 (of_nat (length b)) @ b) w of
             (Some e, w1) \<Rightarrow> (Some e, w1)
           | (None, w1) \<Rightarrow> (None, w1)))"

definition frame_Decode :: "('d, 't) codec \<Rightarrow> 't target \<Rightarrow> reader \<Rightarrow> 'd any rd_result" where
  "frame_Decode C t r =
     rd_bind (ReadFull 4 r) (\<lambda>prefix r1.
       let size = hd (split_u32s prefix) in
       rd_bind (ReadFull (unat size) r1) (\<lambda>buf r2.
         (case c_dec C t buf of Inl e \<Rightarrow> RdErr e r2 | Inr v \<Rightarrow> RdOk v r2)))"

text \<open>The bytes of a frame, and the values a codec carries into a given type of variable.\<close>

definition frame_bytes :: "('d, 't) codec \<Rightarrow> 'd any \<Rightarrow> bytes" where
  "frame_bytes C v = (case c_enc C v of Inl e \<Rightarrow> [] | Inr b \<Rightarrow> put_u32 (of_nat (length b)) @ b)"

definition carries :: "('d, 't) codec \<Rightarrow> 't target \<Rightarrow> 'd any \<Rightarrow> bool" where
  "carries C t v \<longleftrightarrow> (case c_enc C v of Inl e \<Rightarrow> False
     | Inr b \<Rightarrow> length b < 2 ^ 32 \<and> c_dec C t b = Inr v)"

lemma carriesE:
  assumes "carries C t v"
  obtains b where "c_enc C v = Inr b" and "length b < 2 ^ 32" and "c_dec C t b = Inr v"
  using assms by (auto simp: carries_def split: sum.splits)

lemma frame_Encode_ok:
  assumes "carries C t v" and "wr_fail w = None"
  shows "frame_Encode C v w = (None, w\<lparr>wr_buf := wr_buf w @ frame_bytes C v\<rparr>)"
  using assms by (auto simp: frame_Encode_def frame_bytes_def go_simps elim!: carriesE)

text \<open>A whole frame is decoded, or refused, by the codec; either way it is taken off the stream.\<close>

lemma frame_Decode_any:
  assumes "c_enc C v = Inr b" and "length b < 2 ^ 32"
  shows "frame_Decode C t \<lparr>rd_buf = frame_bytes C v @ rest, rd_end = e\<rparr>
    = (case c_dec C t b of Inl x \<Rightarrow> RdErr x \<lparr>rd_buf = rest, rd_end = e\<rparr> | Inr w \<Rightarrow> RdOk w \<lparr>rd_buf = rest, rd_end = e\<rparr>)"
proof -
  let ?p = "put_u32 (of_nat (length b))"
  have "ReadFull 4 \<lparr>rd_buf = ?p @ b @ rest, rd_end = e\<rparr> = RdOk ?p \<lparr>rd_buf = b @ rest, rd_end = e\<rparr>"
    using ReadFull_append [of ?p "b @ rest" e] by simp
  with assms show ?thesis by (simp add: frame_Decode_def frame_bytes_def unat_of_nat_u32)
qed

lemma frame_Decode_bytes:
  assumes "carries C t v"
  shows "frame_Decode C t \<lparr>rd_buf = frame_bytes C v @ rest, rd_end = e\<rparr> = RdOk v \<lparr>rd_buf = rest, rd_end = e\<rparr>"
  using assms frame_Decode_any [of C v] by (auto elim!: carriesE)

text \<open>A proper prefix of a frame that holds the length: the length is read and the value is short.\<close>

lemma frame_cut:
  assumes "carries C t v" and "frame_bytes C v = p @ q" and "q \<noteq> []" and "c_enc C v = Inr b" and "\<not> length p < 4"
  shows "ReadFull 4 \<lparr>rd_buf = p, rd_end = e\<rparr>
      = RdOk (put_u32 (of_nat (length b))) \<lparr>rd_buf = drop 4 p, rd_end = e\<rparr> \<and> length (drop 4 p) < length b"
proof -
  let ?p = "put_u32 (of_nat (length b))"
  have pq: "?p @ b = p @ q" using assms(2,4) by (simp add: frame_bytes_def)
  have "take 4 (?p @ b) = ?p" by simp
  then have p: "p = ?p @ drop 4 p" using pq assms(5) by (metis append_take_drop_id not_less take_append take_all
        append_Nil2 diff_is_0_eq take0)
  with pq have "b = drop 4 p @ q" by (metis append.assoc same_append_eq)
  then have "length (drop 4 p) < length b" using assms(3) by simp
  then show ?thesis using ReadFull_append [of ?p "drop 4 p" e] p by simp
qed

lemma frame_Decode_partial:
  assumes "carries C t v" and "frame_bytes C v = p @ q" and "q \<noteq> []"
  shows "frame_Decode C t \<lparr>rd_buf = p, rd_end = None\<rparr> = RdBlock"
proof -
  from assms(1) obtain b where b: "c_enc C v = Inr b" "length b < 2 ^ 32" by (rule carriesE)
  show ?thesis
  proof (cases "length p < 4")
    case True
    then show ?thesis by (simp add: frame_Decode_def ReadFull_short)
  next
    case False
    with frame_cut [OF assms b(1), of None] b(2) show ?thesis by (simp add: frame_Decode_def unat_of_nat_u32 ReadFull_short)
  qed
qed

interpretation rf: byte_framing "frame_bytes C" "frame_Decode C t" "carries C t"
  for C :: "('d, 't) codec" and t :: "'t target"
  by unfold_locales (rule frame_Decode_bytes, assumption, rule frame_Decode_partial)

section \<open>A codec for the witnesses\<close>

text \<open>A tag and then the raw bytes.\<close>

definition char_byte :: "char \<Rightarrow> u8" where "char_byte c = of_nat (of_char c)"

definition byte_char :: "u8 \<Rightarrow> char" where "byte_char b = char_of (unat b)"

fun byte_enc :: "bytes any \<Rightarrow> go_error + bytes" where
  "byte_enc ANil = Inr [0]"
| "byte_enc (ACallHeader s) = Inr (1 # map char_byte s)"
| "byte_enc (AResponseHeader None c) = Inr [2, if c then 1 else 0]"
| "byte_enc (AResponseHeader (Some s) c) = Inr (3 # (if c then 1 else 0) # map char_byte s)"
| "byte_enc (AError e) = Inl (ErrorString ''unsupported type'')"
| "byte_enc (AData d) = Inr (4 # d)"

definition byte_dec :: "unit target \<Rightarrow> bytes \<Rightarrow> go_error + bytes any" where
  "byte_dec t b =
     (case b of
        [] \<Rightarrow> Inl ErrUnexpectedEOF
      | tag # r \<Rightarrow>
          if tag = 0 then Inr ANil
          else if tag = 1 then Inr (ACallHeader (map byte_char r))
          else if tag = 2 \<and> r \<noteq> [] then Inr (AResponseHeader None (hd r = 1))
          else if tag = 3 \<and> r \<noteq> [] then Inr (AResponseHeader (Some (map byte_char (tl r))) (hd r = 1))
          else if tag = 4 then Inr (AData r)
          else Inl (ErrorString ''unknown tag''))"

definition byte_codec :: "(bytes, unit) codec" where
  "byte_codec = \<lparr>c_enc = byte_enc, c_dec = byte_dec\<rparr>"

lemma byte_char_inverse [simp]: "byte_char (char_byte c) = c"
  using nat_of_char_less_256 [of c]
  by (simp add: byte_char_def char_byte_def unat_of_nat take_bit_nat_eq_self)

lemma map_byte_char [simp]: "map (byte_char \<circ> char_byte) s = s"
  by (induction s) simp_all

lemma byte_codec_carries:
  "carries byte_codec t ANil"
  "length s < 1000 \<Longrightarrow> carries byte_codec t (ACallHeader s)"
  "carries byte_codec t (AResponseHeader None c)"
  "length s < 1000 \<Longrightarrow> carries byte_codec t (AResponseHeader (Some s) c)"
  "length d < 1000 \<Longrightarrow> carries byte_codec t (AData d)"
  by (simp_all add: carries_def byte_codec_def byte_dec_def)

section \<open>Properties\<close>

text \<open>
  For every codec, the values of a conversation, each decoded into a variable of a type the codec
  carries it to, come back one by one from the frames written back to back, with the bytes behind
  them left alone; and two values never have frames of which one begins with the other.
\<close>

theorem rpc_frames_roundtrip:
  assumes "list_all (carries C t) vs"
  shows "read_many (frame_Decode C t) (length vs) \<lparr>rd_buf = concat (map (frame_bytes C) vs) @ rest, rd_end = e\<rparr>
      = RdOk vs \<lparr>rd_buf = rest, rd_end = e\<rparr>
    \<and> (\<forall>v \<in> set vs. \<forall>v' \<in> set vs. \<forall>r. frame_bytes C v @ r = frame_bytes C v' \<longrightarrow> v = v')"
proof -
  have "v = v'" if "v \<in> set vs" "v' \<in> set vs" "frame_bytes C v @ r = frame_bytes C v'" for v v' r
    using rf.prefix_free [of C t v v' r "[]"] that assms by (simp add: list_all_iff)
  then show ?thesis using rf.read_many_enc [OF assms] by blast
qed

theorem rpc_frames_roundtrip_witness:
  "read_many (frame_Decode byte_codec (TVar ())) 2
     \<lparr>rd_buf = [0, 0, 0, 3, 4, 7, 8, 0, 0, 0, 1, 0, 9], rd_end = None\<rparr>
   = RdOk [AData [7, 8], ANil] \<lparr>rd_buf = [9], rd_end = None\<rparr>"
proof -
  let ?vs = "[AData [7, 8], ANil] :: bytes any list"
  have "list_all (carries byte_codec (TVar ())) ?vs"
    by (simp add: carries_def byte_codec_def byte_dec_def)
  moreover have "concat (map (frame_bytes byte_codec) ?vs) @ [9] = [0, 0, 0, 3, 4, 7, 8, 0, 0, 0, 1, 0, 9]"
    by code_simp
  ultimately show ?thesis
    using rpc_frames_roundtrip [of byte_codec "TVar ()" ?vs "[9]" None] by (simp add: eval_nat_numeral)
qed

text \<open>
  A stream that ends in the middle of a frame. The decoder returns \<^verbatim>\<open>io.EOF\<close>, as for a clean end, when
  the cut is before the frame or right after its length; anywhere else it returns \<^verbatim>\<open>io.ErrUnexpectedEOF\<close>.
\<close>

theorem rpc_frame_truncated:
  assumes "carries C t v" and "frame_bytes C v = p @ q" and "q \<noteq> []"
  shows "\<exists>r. frame_Decode C t \<lparr>rd_buf = p, rd_end = Some EOF\<rparr>
      = RdErr (if length p = 0 \<or> length p = 4 then EOF else ErrUnexpectedEOF) r"
proof -
  from assms(1) obtain b where b: "c_enc C v = Inr b" "length b < 2 ^ 32" by (rule carriesE)
  show ?thesis
  proof (cases "length p < 4")
    case True
    then show ?thesis by (auto simp: frame_Decode_def ReadFull_def)
  next
    case False
    with frame_cut [OF assms b(1), of "Some EOF"] b(2) show ?thesis by (auto simp: frame_Decode_def unat_of_nat_u32 ReadFull_def)
  qed
qed

theorem rpc_frame_truncated_witness:
  "\<exists>r. frame_Decode byte_codec (TVar ()) \<lparr>rd_buf = [0, 0, 0, 3], rd_end = Some EOF\<rparr> = RdErr EOF r"
proof -
  have "carries byte_codec (TVar ()) (AData [7, 8])" by (simp add: carries_def byte_codec_def byte_dec_def)
  moreover have "frame_bytes byte_codec (AData [7, 8]) = [0, 0, 0, 3] @ [4, 7, 8]" by code_simp
  ultimately show ?thesis using rpc_frame_truncated [of byte_codec "TVar ()" "AData [7, 8]" "[0, 0, 0, 3]" "[4, 7, 8]"] by simp
qed

end
