(* ===== verification/Rpc_Handler.thy ===== *)
theory Rpc_Handler
  imports Qtalk_Prelude "HOL-Library.Sublist"
begin

text \<open>
  Selectors and the call multiplexer (\<^verbatim>\<open>src/rpc/handler.go\<close>). A \<^verbatim>\<open>RespondMux\<close> can be registered in
  another one, or in itself, so handlers refer to muxes by reference and \<^verbatim>\<open>Match\<close> works on the store of
  all muxes; it may recurse for ever and is a \<open>partial_function\<close> with \<open>None\<close> for that. The Go map is a
  map, the slice \<^verbatim>\<open>es\<close> a list. \<^verbatim>\<open>appendSorted\<close> calls the binary search of the standard
  library, which is written out. The mutex makes each method atomic.

  The lemmas show that registration keeps the entries sorted and consistent, that \<^verbatim>\<open>Match\<close> finds the exact pattern or the
  longest prefix, when it returns, and where \<^verbatim>\<open>Remove\<close> falls short.
\<close>

section \<open>Selectors\<close>

text \<open>\<^verbatim>\<open>strings.ReplaceAll(s, ".", "/")\<close>.\<close>

definition dots_to_slashes :: "string \<Rightarrow> string" where
  "dots_to_slashes s = map (\<lambda>c. if c = CHR ''.'' then CHR ''/'' else c) s"

definition cleanSelector :: "string \<Rightarrow> string" where
  "cleanSelector s =
     (if s = [] then ''/''
      else
        (let s1 = (if hd s \<noteq> CHR ''/'' then ''/'' @ s else s)
         in dots_to_slashes s1))"

section \<open>The multiplexer\<close>

text \<open>
  A handler is nil, a mux (the only implementation of \<^verbatim>\<open>matcher\<close>), or anything else, named by a number.
\<close>

datatype Handler = HNil | HFunc nat | HMux nat

record muxEntry =
  h :: Handler
  pattern :: string

record RespondMux =
  m :: "string \<rightharpoonup> muxEntry"
  es :: "muxEntry list"

type_synonym muxes = "nat \<Rightarrow> RespondMux"

definition NewRespondMux :: RespondMux where
  "NewRespondMux = \<lparr>m = Map.empty, es = []\<rparr>"

text \<open>\<^verbatim>\<open>sort.Search(n, f)\<close>.\<close>

function sort_search_loop :: "(nat \<Rightarrow> bool) \<Rightarrow> nat \<Rightarrow> nat \<Rightarrow> nat" where
  "sort_search_loop f i j =
     (if i < j then
        (let mid = (i + j) div 2 in
         if \<not> f mid then sort_search_loop f (mid + 1) j else sort_search_loop f i mid)
      else i)"
  by pat_completeness auto
termination by (relation "measure (\<lambda>(f, i, j). j - i)") auto

definition sort_Search :: "nat \<Rightarrow> (nat \<Rightarrow> bool) \<Rightarrow> nat" where
  "sort_Search n f = sort_search_loop f 0 n"

text \<open>Growing the slice by a zero entry, moving the tail down by \<^verbatim>\<open>copy\<close>, storing the entry.\<close>

definition appendSorted :: "muxEntry list \<Rightarrow> muxEntry \<Rightarrow> muxEntry list" where
  "appendSorted xs e =
     (let n = length xs;
          i = sort_Search n (\<lambda>i. length (pattern (xs ! i)) < length (pattern e))
      in if i = n then xs @ [e]
         else
           (let ys = xs @ [\<lparr>h = HNil, pattern = []\<rparr>];
                zs = take (i + 1) ys @ take (length ys - (i + 1)) (drop i ys)
            in zs[i := e]))"

datatype handle_error = NilHandler | MultipleRegistrations string

definition Handle :: "string \<Rightarrow> Handler \<Rightarrow> RespondMux \<Rightarrow> handle_error + RespondMux" where
  "Handle pat handler mx =
     (let p0 = cleanSelector pat;
          isMux = (case handler of HMux _ \<Rightarrow> True | _ \<Rightarrow> False);
          p = (if isMux \<and> last p0 \<noteq> CHR ''/'' then p0 @ ''/'' else p0)
      in if handler = HNil then Inl NilHandler
         else if m mx p \<noteq> None then Inl (MultipleRegistrations p)
         else
           (let e = \<lparr>h = handler, pattern = p\<rparr>;
                mx1 = mx\<lparr>m := (m mx)(p \<mapsto> e)\<rparr>
            in Inr (if last p = CHR ''/'' then mx1\<lparr>es := appendSorted (es mx1) e\<rparr> else mx1)))"

definition Remove :: "string \<Rightarrow> RespondMux \<Rightarrow> Handler \<times> RespondMux" where
  "Remove sel mx =
     (let s = cleanSelector sel
      in ((case m mx s of Some e \<Rightarrow> h e | None \<Rightarrow> HNil), mx\<lparr>m := (m mx)(s := None)\<rparr>))"

text \<open>The loop over \<^verbatim>\<open>m.es\<close>: the first entry whose pattern begins the selector.\<close>

fun find_prefix :: "string \<Rightarrow> muxEntry list \<Rightarrow> muxEntry option" where
  "find_prefix s [] = None"
| "find_prefix s (e # xs) = (if prefix (pattern e) s then Some e else find_prefix s xs)"

partial_function (option) Match :: "muxes \<Rightarrow> nat \<Rightarrow> string \<Rightarrow> (Handler \<times> string) option" where
  "Match st r sel =
     (let s = cleanSelector sel in
      case m (st r) s of
        Some v \<Rightarrow> Some (h v, pattern v)
      | None \<Rightarrow>
          (case find_prefix s (es (st r)) of
             None \<Rightarrow> Some (HNil, [])
           | Some e \<Rightarrow>
               (case h e of
                  HMux r' \<Rightarrow> Match st r' (drop (length (pattern e)) s)
                | _ \<Rightarrow> Some (h e, pattern e))))"

text \<open>\<^verbatim>\<open>Handler\<close>: the handler to run, \<open>None\<close> standing for \<^verbatim>\<open>NotFoundHandler()\<close>.\<close>

definition mux_Handler :: "muxes \<Rightarrow> nat \<Rightarrow> string \<Rightarrow> (Handler option \<times> string) option" where
  "mux_Handler st r sel =
     map_option (\<lambda>(hn, pat). if hn = HNil then (None, []) else (Some hn, pat)) (Match st r sel)"

text \<open>\<^verbatim>\<open>RespondRPC\<close> down to the handler that is not a mux.\<close>

partial_function (option) mux_RespondRPC :: "muxes \<Rightarrow> nat \<Rightarrow> string \<Rightarrow> nat option option" where
  "mux_RespondRPC st r sel =
     (case mux_Handler st r sel of
        None \<Rightarrow> None
      | Some (hn, _) \<Rightarrow>
          (case hn of
             Some (HMux r') \<Rightarrow> mux_RespondRPC st r' sel
           | Some (HFunc k) \<Rightarrow> Some (Some k)
           | _ \<Rightarrow> Some None))"

section \<open>Selectors: lemmas\<close>

lemma cleanSelector_not_Nil [simp]: "cleanSelector s \<noteq> []"
  by (simp add: cleanSelector_def dots_to_slashes_def)

lemma cleanSelector_hd [simp]: "hd (cleanSelector s) = CHR ''/''"
  by (auto simp: cleanSelector_def dots_to_slashes_def hd_map)

lemma cleanSelector_no_dot: "CHR ''.'' \<notin> set (cleanSelector s)"
  by (auto simp: cleanSelector_def dots_to_slashes_def split: if_splits)

lemma dots_id: "CHR ''.'' \<notin> set s \<Longrightarrow> dots_to_slashes s = s"
  unfolding dots_to_slashes_def by (induction s) auto

lemma cleanSelector_id: "s \<noteq> [] \<Longrightarrow> hd s = CHR ''/'' \<Longrightarrow> CHR ''.'' \<notin> set s \<Longrightarrow> cleanSelector s = s"
  by (simp add: cleanSelector_def dots_id)

lemma cleanSelector_relative:
  assumes "s \<noteq> []" and "hd s \<noteq> CHR ''/''" and "CHR ''.'' \<notin> set s"
  shows "cleanSelector s = CHR ''/'' # s"
  using assms dots_id [of "CHR ''/'' # s"] by (simp add: cleanSelector_def)

section \<open>Sorted insertion\<close>

declare sort_search_loop.simps [simp del]

lemma sort_search_loop_spec:
  assumes "\<And>a b. a \<le> b \<Longrightarrow> b < n \<Longrightarrow> f a \<Longrightarrow> f b" and "i \<le> j" and "j \<le> n"
    and "\<forall>a < i. \<not> f a" and "\<forall>b. j \<le> b \<and> b < n \<longrightarrow> f b"
  shows "sort_search_loop f i j \<le> n \<and> (\<forall>a < sort_search_loop f i j. \<not> f a)
    \<and> (\<forall>b. sort_search_loop f i j \<le> b \<and> b < n \<longrightarrow> f b)"
  using assms(2-5)
proof (induction "j - i" arbitrary: i j rule: less_induct)
  case less
  show ?case
  proof (cases "i < j")
    case True
    let ?mid = "(i + j) div 2"
    have mid: "i \<le> ?mid" "?mid < j" using True by auto
    show ?thesis
    proof (cases "f ?mid")
      case fm: True
      then have "\<forall>b. ?mid \<le> b \<and> b < n \<longrightarrow> f b" using assms(1) by blast
      with less.hyps [of ?mid i] less.prems mid True fm show ?thesis
        by (subst (1 2 3) sort_search_loop.simps) simp
    next
      case False
      then have "\<forall>a < ?mid + 1. \<not> f a" using assms(1) mid less.prems(2)
        by (metis less_Suc_eq_le Suc_eq_plus1 less_le_trans)
      with less.hyps [of j "?mid + 1"] less.prems mid True False show ?thesis
        by (subst (1 2 3) sort_search_loop.simps) simp
    qed
  next
    case False
    with less.prems show ?thesis by (subst (1 2 3) sort_search_loop.simps) simp
  qed
qed

definition longer :: "muxEntry \<Rightarrow> muxEntry \<Rightarrow> bool" where
  "longer a b \<longleftrightarrow> length (pattern b) \<le> length (pattern a)"

lemma appendSorted_split:
  assumes "sorted_wrt longer xs"
  shows "\<exists>ys zs. xs = ys @ zs \<and> appendSorted xs e = ys @ e # zs
    \<and> (\<forall>y \<in> set ys. longer y e) \<and> (\<forall>z \<in> set zs. length (pattern z) < length (pattern e))"
proof -
  let ?f = "\<lambda>i. length (pattern (xs ! i)) < length (pattern e)"
  have mono: "?f b" if "a \<le> b" "b < length xs" "?f a" for a b
    using sorted_wrt_nth_less [OF assms, of a b] that by (cases "a = b") (auto simp: longer_def)
  obtain i where i_def: "sort_Search (length xs) ?f = i" by blast
  have "i \<le> length xs \<and> (\<forall>a < i. \<not> ?f a) \<and> (\<forall>b. i \<le> b \<and> b < length xs \<longrightarrow> ?f b)"
    unfolding i_def [symmetric] sort_Search_def
    by (rule sort_search_loop_spec [where n = "length xs"]) (use mono in simp_all)
  then have i: "i \<le> length xs" "\<And>a. a < i \<Longrightarrow> \<not> ?f a" "\<And>b. i \<le> b \<Longrightarrow> b < length xs \<Longrightarrow> ?f b" by blast+
  let ?ys = "take i xs" and ?zs = "drop i xs"
  have "appendSorted xs e = ?ys @ e # ?zs"
  proof (cases "i = length xs")
    case True
    then show ?thesis by (simp add: appendSorted_def i_def Let_def)
  next
    case False
    with i(1) have lt: "i < length xs" by simp
    have "take (i + 1) (xs @ [x]) = ?ys @ [xs ! i]" for x
      using lt by (simp add: take_Suc_conv_app_nth)
    moreover have "take (length (xs @ [x]) - (i + 1)) (drop i (xs @ [x])) = ?zs" for x
      using lt by simp
    ultimately show ?thesis using False lt
      by (simp add: appendSorted_def i_def Let_def list_update_append)
  qed
  moreover have "longer y e" if "y \<in> set ?ys" for y
  proof -
    from that obtain k where "k < length ?ys" "y = ?ys ! k" by (metis in_set_conv_nth)
    then have "y = xs ! k" "k < i" by simp_all
    with i(2) [of k] show ?thesis by (simp add: longer_def not_less)
  qed
  moreover have "length (pattern z) < length (pattern e)" if "z \<in> set ?zs" for z
  proof -
    from that obtain k where "k < length ?zs" "z = ?zs ! k" by (metis in_set_conv_nth)
    then have "z = xs ! (i + k)" "i + k < length xs" using i(1) by simp_all
    with i(3) [of "i + k"] show ?thesis by simp
  qed
  ultimately show ?thesis by (metis append_take_drop_id)
qed

section \<open>The interface of the pattern table\<close>

text \<open>A table of patterns in which the longest pattern that begins a selector is found.\<close>

locale longest_prefix =
  fixes pat :: "'e \<Rightarrow> string"
    and entries :: "'t \<Rightarrow> 'e set"
    and ins :: "'t \<Rightarrow> 'e \<Rightarrow> 't"
    and find :: "string \<Rightarrow> 't \<Rightarrow> 'e option"
    and ok :: "'t \<Rightarrow> bool"
  assumes ins_ok: "ok t \<Longrightarrow> ok (ins t e)"
    and ins_entries: "ok t \<Longrightarrow> entries (ins t e) = insert e (entries t)"
    and find_Some: "ok t \<Longrightarrow> find s t = Some e \<Longrightarrow> e \<in> entries t \<and> prefix (pat e) s
        \<and> (\<forall>e' \<in> entries t. prefix (pat e') s \<longrightarrow> length (pat e') \<le> length (pat e))"
    and find_None: "find s t = None \<longleftrightarrow> (\<forall>e \<in> entries t. \<not> prefix (pat e) s)"
begin

lemma find_longest:
  assumes "ok t" and "e \<in> entries t" and "prefix (pat e) s"
    and "\<And>e'. e' \<in> entries t \<Longrightarrow> e' \<noteq> e \<Longrightarrow> prefix (pat e') s \<Longrightarrow> length (pat e') < length (pat e)"
  shows "find s t = Some e"
proof (cases "find s t")
  case None
  with find_None [of s t] assms(2,3) show ?thesis by blast
next
  case (Some e')
  from find_Some [OF assms(1) Some] assms(2-4) have "e' = e" by (metis not_le)
  with Some show ?thesis by simp
qed

lemma find_after_longer:
  assumes "ok t" and "prefix (pat e) s" and "\<And>e'. e' \<in> entries t \<Longrightarrow> prefix (pat e') s \<Longrightarrow> length (pat e') < length (pat e)"
  shows "find s (ins t e) = Some e"
  using assms by (intro find_longest) (auto simp: ins_ok ins_entries)

lemma find_other:
  assumes "ok t" and "\<not> prefix (pat e) s" and "find s t = None"
  shows "find s (ins t e) = None"
  using assms by (simp add: find_None ins_entries)

end

lemma find_prefix_None: "find_prefix s xs = None \<longleftrightarrow> (\<forall>e \<in> set xs. \<not> prefix (pattern e) s)"
  by (induction xs) auto

lemma find_prefix_Some:
  "sorted_wrt longer xs \<Longrightarrow> find_prefix s xs = Some e \<Longrightarrow> e \<in> set xs \<and> prefix (pattern e) s
     \<and> (\<forall>e' \<in> set xs. prefix (pattern e') s \<longrightarrow> length (pattern e') \<le> length (pattern e))"
  by (induction xs) (auto simp: longer_def split: if_splits)

lemma find_prefix_append:
  "find_prefix s (xs @ ys) = (case find_prefix s xs of Some e \<Rightarrow> Some e | None \<Rightarrow> find_prefix s ys)"
  by (induction xs) auto

lemma appendSorted_sorted:
  assumes "sorted_wrt longer xs"
  shows "sorted_wrt longer (appendSorted xs e)"
proof -
  from appendSorted_split [OF assms, of e] obtain ys zs where
    "xs = ys @ zs" "appendSorted xs e = ys @ e # zs" "\<forall>y \<in> set ys. longer y e"
    "\<forall>z \<in> set zs. length (pattern z) < length (pattern e)" by blast
  with assms show ?thesis by (auto simp: sorted_wrt_append longer_def)
qed

lemma appendSorted_set:
  assumes "sorted_wrt longer xs"
  shows "set (appendSorted xs e) = insert e (set xs)"
proof -
  from appendSorted_split [OF assms, of e] obtain ys zs where
    "xs = ys @ zs" "appendSorted xs e = ys @ e # zs" by blast
  then show ?thesis by auto
qed

text \<open>An entry whose pattern is already there does not change what is found.\<close>

lemma find_prefix_older:
  assumes "sorted_wrt longer xs" and "e \<in> set xs" and "pattern e' = pattern e"
  shows "find_prefix s (appendSorted xs e') = find_prefix s xs"
proof -
  from appendSorted_split [OF assms(1), of e'] obtain ys zs where
    x: "xs = ys @ zs" "appendSorted xs e' = ys @ e' # zs"
    and z: "\<forall>z \<in> set zs. length (pattern z) < length (pattern e')" by blast
  have "e \<in> set ys" using assms(2,3) x z by auto
  then have "prefix (pattern e') s \<Longrightarrow> find_prefix s ys \<noteq> None" using assms(3) by (auto simp: find_prefix_None)
  then show ?thesis unfolding x(2) by (auto simp: x(1) find_prefix_append split: option.splits)
qed

interpretation lp: longest_prefix pattern set appendSorted find_prefix "sorted_wrt longer"
  by unfold_locales (auto simp: appendSorted_sorted appendSorted_set find_prefix_None dest: find_prefix_Some)

section \<open>The invariant of a mux\<close>

definition pattern_ok :: "string \<Rightarrow> bool" where
  "pattern_ok p \<longleftrightarrow> p \<noteq> [] \<and> hd p = CHR ''/'' \<and> CHR ''.'' \<notin> set p"

definition entry_ok :: "muxEntry \<Rightarrow> bool" where
  "entry_ok e \<longleftrightarrow> pattern_ok (pattern e) \<and> h e \<noteq> HNil"

definition mux_inv :: "RespondMux \<Rightarrow> bool" where
  "mux_inv mx \<longleftrightarrow> sorted_wrt longer (es mx)
     \<and> (\<forall>p e. m mx p = Some e \<longrightarrow> pattern e = p \<and> entry_ok e \<and> (last p = CHR ''/'' \<longrightarrow> e \<in> set (es mx)))
     \<and> (\<forall>e \<in> set (es mx). entry_ok e \<and> last (pattern e) = CHR ''/'')"

lemma cleanSelector_ok: "pattern_ok (cleanSelector s)"
  by (simp add: pattern_ok_def cleanSelector_no_dot)

lemma pattern_ok_clean: "pattern_ok p \<Longrightarrow> cleanSelector p = p"
  by (simp add: pattern_ok_def cleanSelector_id)

text \<open>The pattern under which \<^verbatim>\<open>Handle\<close> registers.\<close>

definition registered :: "string \<Rightarrow> Handler \<Rightarrow> string" where
  "registered pat hn = (let p = cleanSelector pat in
     case hn of HMux _ \<Rightarrow> if last p = CHR ''/'' then p else p @ ''/'' | _ \<Rightarrow> p)"

lemma registered_ok: "pattern_ok (registered pat hn)"
  using cleanSelector_ok [of pat] by (auto simp: registered_def pattern_ok_def Let_def split: Handler.splits)

lemma Handle_cases:
  "Handle pat hn mx =
     (if hn = HNil then Inl NilHandler
      else if m mx (registered pat hn) \<noteq> None then Inl (MultipleRegistrations (registered pat hn))
      else let e = \<lparr>h = hn, pattern = registered pat hn\<rparr> in
        Inr (mx\<lparr>m := (m mx)(pattern e \<mapsto> e),
                es := (if last (pattern e) = CHR ''/'' then appendSorted (es mx) e else es mx)\<rparr>))"
  by (cases hn) (auto simp: Handle_def registered_def Let_def)

lemma Handle_inv:
  assumes "mux_inv mx" and "Handle pat hn mx = Inr mx'"
  shows "mux_inv mx'"
proof -
  let ?e = "\<lparr>h = hn, pattern = registered pat hn\<rparr>"
  from assms have mx': "mx' = mx\<lparr>m := (m mx)(pattern ?e \<mapsto> ?e),
      es := (if last (pattern ?e) = CHR ''/'' then appendSorted (es mx) ?e else es mx)\<rparr>" and "hn \<noteq> HNil"
    by (auto simp: Handle_cases Let_def split: if_splits)
  moreover have "entry_ok ?e" using registered_ok \<open>hn \<noteq> HNil\<close> by (simp add: entry_ok_def)
  moreover from assms(1) have "sorted_wrt longer (es mx)" by (simp add: mux_inv_def)
  ultimately show ?thesis using assms(1)
    by (auto simp: mux_inv_def appendSorted_sorted appendSorted_set split: if_splits)
qed

lemma Remove_inv: "mux_inv mx \<Longrightarrow> Remove sel mx = (hn, mx') \<Longrightarrow> mux_inv mx'"
  by (auto simp: Remove_def Let_def mux_inv_def split: if_splits)

lemma New_mux_inv: "mux_inv NewRespondMux"
  by (simp add: mux_inv_def NewRespondMux_def)

section \<open>Matching\<close>

text \<open>What is left of a selector in a sub-mux is not longer, and shorter unless the pattern was the root.\<close>

lemma cleanSelector_length: "length (cleanSelector s) \<le> length s + 1"
  by (simp add: cleanSelector_def dots_to_slashes_def)

lemma trimmed_length:
  assumes "prefix p s" and "pattern_ok p"
  shows "length (cleanSelector (drop (length p) s)) \<le> length s
    \<and> (p \<noteq> ''/'' \<longrightarrow> length (cleanSelector (drop (length p) s)) < length s)"
proof -
  have "length (cleanSelector (drop (length p) s)) \<le> length s - length p + 1" "length p \<le> length s"
    using cleanSelector_length [of "drop (length p) s"] prefix_length_le [OF assms(1)] by simp_all
  moreover have "0 < length p" "p \<noteq> ''/'' \<Longrightarrow> 1 < length p"
    using assms(2) by (auto simp: pattern_ok_def) (cases p; cases "tl p"; simp)
  ultimately show ?thesis by linarith
qed

lemma Match_step:
  assumes "s = cleanSelector sel"
  shows "Match st r sel =
     (case m (st r) s of
        Some v \<Rightarrow> Some (h v, pattern v)
      | None \<Rightarrow>
          (case find_prefix s (es (st r)) of
             None \<Rightarrow> Some (HNil, [])
           | Some e \<Rightarrow> (case h e of HMux r' \<Rightarrow> Match st r' (drop (length (pattern e)) s) | _ \<Rightarrow> Some (h e, pattern e))))"
  unfolding assms by (subst Match.simps) (simp add: Let_def)

lemma Match_total:
  assumes inv: "\<And>r. mux_inv (st r)"
    and root: "\<And>r e r'. e \<in> set (es (st r)) \<Longrightarrow> h e = HMux r' \<Longrightarrow> pattern e = ''/'' \<Longrightarrow> rank r' < (rank r :: nat)"
  shows "\<exists>res. Match st r sel = Some res"
proof (induction "(length (cleanSelector sel), rank r)" arbitrary: sel r
    rule: wf_induct_rule [OF wf_lex_prod [OF wf_less_than wf_less_than]])
  case 1
  let ?s = "cleanSelector sel"
  have "\<exists>res. Match st r' (drop (length (pattern e)) ?s) = Some res"
    if "find_prefix ?s (es (st r)) = Some e" "h e = HMux r'" for e r'
  proof (rule 1)
    from inv [of r] have "sorted_wrt longer (es (st r))" by (simp add: mux_inv_def)
    from lp.find_Some [OF this that(1)] have e: "e \<in> set (es (st r))" "prefix (pattern e) ?s" by auto
    with inv [of r] have "pattern_ok (pattern e)" by (simp add: mux_inv_def entry_ok_def)
    from trimmed_length [OF e(2) this] root [OF e(1) that(2)]
    show "((length (cleanSelector (drop (length (pattern e)) ?s)), rank r'), length ?s, rank r) \<in> less_than <*lex*> less_than"
      by (cases "pattern e = ''/''") auto
  qed
  then show ?case by (subst Match_step [OF refl]) (auto split: option.splits Handler.splits)
qed

lemma Match_not_self_root:
  assumes "Match st r sel = Some res"
  shows "\<not> (m (st r) (cleanSelector sel) = None \<and> find_prefix (cleanSelector sel) (es (st r)) = Some \<lparr>h = HMux r, pattern = ''/''\<rparr>
           \<and> cleanSelector (tl (cleanSelector sel)) = cleanSelector sel)"
proof (rule Match.raw_induct [where P = "\<lambda>st r sel res. \<not> (m (st r) (cleanSelector sel) = None
    \<and> find_prefix (cleanSelector sel) (es (st r)) = Some \<lparr>h = HMux r, pattern = ''/''\<rparr>
    \<and> cleanSelector (tl (cleanSelector sel)) = cleanSelector sel)", OF _ assms], rule notI)
  fix f st r sel res
  assume IH: "\<And>st r sel res. f st r sel = Some res \<Longrightarrow> \<not> (m (st r) (cleanSelector sel) = None
      \<and> find_prefix (cleanSelector sel) (es (st r)) = Some \<lparr>h = HMux r, pattern = ''/''\<rparr>
      \<and> cleanSelector (tl (cleanSelector sel)) = cleanSelector sel)"
    and body: "(let s = cleanSelector sel in case m (st r) s of Some v \<Rightarrow> Some (h v, pattern v)
      | None \<Rightarrow> (case find_prefix s (es (st r)) of None \<Rightarrow> Some (HNil, [])
          | Some e \<Rightarrow> (case h e of HMux r' \<Rightarrow> f st r' (drop (length (pattern e)) s) | _ \<Rightarrow> Some (h e, pattern e)))) = Some res"
    and loop: "m (st r) (cleanSelector sel) = None
      \<and> find_prefix (cleanSelector sel) (es (st r)) = Some \<lparr>h = HMux r, pattern = ''/''\<rparr>
      \<and> cleanSelector (tl (cleanSelector sel)) = cleanSelector sel"
  from body loop have "f st r (tl (cleanSelector sel)) = Some res" by (simp add: drop_Suc)
  with IH loop show False by metis
qed

text \<open>A mux with handlers for \<^verbatim>\<open>foo.\<close> and \<^verbatim>\<open>foo.bar.\<close>, for the witnesses.\<close>

definition sample_mux :: RespondMux where
  "sample_mux = (case Handle ''foo.'' (HFunc 1) NewRespondMux of
     Inr mx \<Rightarrow> (case Handle ''foo.bar.'' (HFunc 2) mx of Inr mx' \<Rightarrow> mx' | Inl e \<Rightarrow> mx) | Inl e \<Rightarrow> NewRespondMux)"

lemma sample_mux_es: "es sample_mux = [\<lparr>h = HFunc 2, pattern = ''/foo/bar/''\<rparr>, \<lparr>h = HFunc 1, pattern = ''/foo/''\<rparr>]"
  and sample_mux_m: "m sample_mux = [''/foo/'' \<mapsto> \<lparr>h = HFunc 1, pattern = ''/foo/''\<rparr>, ''/foo/bar/'' \<mapsto> \<lparr>h = HFunc 2, pattern = ''/foo/bar/''\<rparr>]"
  by (simp_all add: sample_mux_def Handle_def cleanSelector_def dots_to_slashes_def NewRespondMux_def appendSorted_def
      sort_Search_def sort_search_loop.simps Let_def)

lemma sample_mux_inv: "mux_inv sample_mux"
  by (auto simp: mux_inv_def sample_mux_es sample_mux_m longer_def entry_ok_def pattern_ok_def split: if_splits)

section \<open>Properties\<close>

text \<open>
  \<^verbatim>\<open>cleanSelector\<close> is a normal form: the result begins with a slash and has no dot, cleaning it again
  changes nothing, and the dot form and the path form of a selector have the same result.
\<close>

theorem cleanSelector_canonical:
  "cleanSelector s \<noteq> [] \<and> hd (cleanSelector s) = CHR ''/'' \<and> CHR ''.'' \<notin> set (cleanSelector s)
   \<and> cleanSelector (cleanSelector s) = cleanSelector s
   \<and> cleanSelector (''/'' @ dots_to_slashes s) = ''/'' @ dots_to_slashes s"
proof -
  have "CHR ''.'' \<notin> set (''/'' @ dots_to_slashes s)" by (auto simp: dots_to_slashes_def split: if_splits)
  then have "cleanSelector (''/'' @ dots_to_slashes s) = ''/'' @ dots_to_slashes s" by (intro cleanSelector_id) auto
  then show ?thesis by (simp add: cleanSelector_no_dot cleanSelector_id)
qed

text \<open>
  C26: \<^verbatim>\<open>Handle\<close> panics exactly for a nil handler and for a pattern that is already registered; otherwise
  it stores the entry under the cleaned pattern (with a final slash for a sub-mux), changes no other entry, and keeps the
  invariant: the prefix entries sorted from longest to shortest, each under its own pattern.
\<close>

theorem Handle_registers:
  assumes "mux_inv mx" and "p = registered pat hn"
  shows "if hn = HNil then Handle pat hn mx = Inl NilHandler
    else if m mx p \<noteq> None then Handle pat hn mx = Inl (MultipleRegistrations p)
    else \<exists>mx'. Handle pat hn mx = Inr mx' \<and> mux_inv mx' \<and> m mx' = (m mx)(p \<mapsto> \<lparr>h = hn, pattern = p\<rparr>)
      \<and> set (es mx') = (if last p = CHR ''/'' then insert \<lparr>h = hn, pattern = p\<rparr> (set (es mx)) else set (es mx))"
proof -
  from assms(1) have "sorted_wrt longer (es mx)" by (simp add: mux_inv_def)
  then show ?thesis using assms(2) Handle_inv [OF assms(1), of pat hn] by (auto simp: Handle_cases Let_def lp.ins_entries)
qed

theorem Handle_registers_witness:
  "Handle ''foo'' HNil sample_mux = Inl NilHandler
   \<and> Handle ''foo.'' (HFunc 3) sample_mux = Inl (MultipleRegistrations ''/foo/'')
   \<and> (\<exists>mx'. Handle ''foo'' (HFunc 3) sample_mux = Inr mx' \<and> m mx' ''/foo'' = Some \<lparr>h = HFunc 3, pattern = ''/foo''\<rparr>)"
  using Handle_registers [OF sample_mux_inv refl, of HNil "''foo''"] Handle_registers [OF sample_mux_inv refl, of "HFunc 3" "''foo.''"]
    Handle_registers [OF sample_mux_inv refl, of "HFunc 3" "''foo''"]
  by (auto simp: registered_def cleanSelector_def dots_to_slashes_def sample_mux_m)

text \<open>
  C16: \<^verbatim>\<open>Match\<close> returns the handler registered for exactly the cleaned selector if there is one; else it takes
  a prefix pattern that begins the selector, and no longer one does, and either returns its handler or goes on in its
  sub-mux with the rest of the selector; else it finds nothing.
\<close>

theorem Match_longest:
  assumes "mux_inv (st r)" and "s = cleanSelector sel"
  shows "case m (st r) s of
      Some e \<Rightarrow> Match st r sel = Some (h e, s)
    | None \<Rightarrow>
        if \<exists>e \<in> set (es (st r)). prefix (pattern e) s then
          \<exists>e \<in> set (es (st r)). prefix (pattern e) s
            \<and> (\<forall>e' \<in> set (es (st r)). prefix (pattern e') s \<longrightarrow> length (pattern e') \<le> length (pattern e))
            \<and> Match st r sel = (case h e of HMux r' \<Rightarrow> Match st r' (drop (length (pattern e)) s)
                 | hn \<Rightarrow> Some (hn, pattern e))
        else Match st r sel = Some (HNil, [])"
proof (cases "m (st r) s")
  case None
  from assms(1) have so: "sorted_wrt longer (es (st r))" by (simp add: mux_inv_def)
  show ?thesis
  proof (cases "find_prefix s (es (st r))")
    case None' : None
    with None lp.find_None [of s "es (st r)"] show ?thesis by (simp add: Match_step [OF assms(2)])
  next
    case (Some e)
    have "Match st r sel = (case h e of HMux r' \<Rightarrow> Match st r' (drop (length (pattern e)) s) | hn \<Rightarrow> Some (hn, pattern e))"
      unfolding Match_step [OF assms(2)] by (simp add: None Some split: Handler.splits)
    with lp.find_Some [OF so Some] None show ?thesis by auto
  qed
next
  case (Some e)
  then have "pattern e = s" using assms(1) by (simp add: mux_inv_def)
  then show ?thesis using Some by (simp add: Match_step [OF assms(2)])
qed

theorem Match_longest_witness:
  "Match (\<lambda>_. sample_mux) 0 ''foo.bar.'' = Some (HFunc 2, ''/foo/bar/'')
   \<and> Match (\<lambda>_. sample_mux) 0 ''foo.bar.baz'' = Some (HFunc 2, ''/foo/bar/'')
   \<and> Match (\<lambda>_. sample_mux) 0 ''bar'' = Some (HNil, [])"
  using Match_longest [of "\<lambda>_. sample_mux" 0 "''/foo/bar/''" "''foo.bar.''", OF sample_mux_inv]
    Match_longest [of "\<lambda>_. sample_mux" 0 "''/foo/bar/baz''" "''foo.bar.baz''", OF sample_mux_inv]
    Match_longest [of "\<lambda>_. sample_mux" 0 "''/bar''" "''bar''", OF sample_mux_inv]
  by (auto simp: sample_mux_es sample_mux_m cleanSelector_def dots_to_slashes_def)

text \<open>
  \<^verbatim>\<open>Match\<close> always returns, even when muxes are registered in each other in a cycle, unless the cycle
  consists of registrations for the root pattern \<^verbatim>\<open>/\<close>.
\<close>

theorem Match_returns:
  assumes "\<And>r. mux_inv (st r)"
    and "\<And>r e r'. e \<in> set (es (st r)) \<Longrightarrow> h e = HMux r' \<Longrightarrow> pattern e = ''/'' \<Longrightarrow> rank r' < (rank r :: nat)"
  shows "\<exists>hn pat. Match st r sel = Some (hn, pat)"
proof -
  have "\<exists>res. Match st r sel = Some res" by (rule Match_total [where rank = rank]) (fact assms)+
  then show ?thesis by (metis surj_pair)
qed

theorem Match_returns_witness: "\<exists>hn pat. Match (\<lambda>_. sample_mux) 5 ''some.selector'' = Some (hn, pat)"
  by (rule Match_returns [where rank = "\<lambda>_. 0"]) (auto simp: sample_mux_es sample_mux_inv)

text \<open>
  A mux registered in itself for the root pattern: \<^verbatim>\<open>Handle\<close> accepts it, and \<^verbatim>\<open>Match\<close> then never returns for any
  selector that has no handler of its own.
\<close>

theorem Match_self_root_diverges:
  assumes "Handle [] (HMux r) NewRespondMux = Inr (st r)"
    and "sel \<noteq> []" and "hd sel \<noteq> CHR ''/''" and "hd sel \<noteq> CHR ''.''"
  shows "Match st r sel = None"
proof -
  let ?e = "\<lparr>h = HMux r, pattern = ''/''\<rparr>"
  from assms(1) have st: "m (st r) = [''/'' \<mapsto> ?e]" "es (st r) = [?e]"
    by (auto simp: Handle_def cleanSelector_def dots_to_slashes_def NewRespondMux_def appendSorted_def sort_Search_def
        sort_search_loop.simps Let_def dest!: sym [of _ "st r"])
  obtain c t where sel: "sel = c # t" using assms(2) by (cases sel) auto
  have s: "cleanSelector sel = CHR ''/'' # dots_to_slashes sel"
    using assms by (simp add: cleanSelector_def dots_to_slashes_def)
  have nd: "CHR ''.'' \<notin> set (dots_to_slashes sel)" by (auto simp: dots_to_slashes_def split: if_splits)
  have "hd (dots_to_slashes sel) \<noteq> CHR ''/''" "dots_to_slashes sel \<noteq> []"
    using sel assms(3,4) by (simp_all add: dots_to_slashes_def)
  from cleanSelector_relative [OF this(2,1) nd] have "cleanSelector (tl (cleanSelector sel)) = cleanSelector sel"
    unfolding s by simp
  moreover have "m (st r) (cleanSelector sel) = None" "find_prefix (cleanSelector sel) (es (st r)) = Some ?e"
    using s sel by (simp_all add: st dots_to_slashes_def)
  ultimately show ?thesis using Match_not_self_root [of st r sel] by (cases "Match st r sel") auto
qed

theorem Match_self_root_diverges_witness:
  "\<exists>mx. Handle [] (HMux 0) NewRespondMux = Inr mx \<and> Match (\<lambda>_. mx) 0 ''foo'' = None"
proof -
  obtain mx where mx: "Handle [] (HMux 0) NewRespondMux = Inr mx"
    by (simp add: Handle_def cleanSelector_def NewRespondMux_def Let_def)
  from Match_self_root_diverges [of 0 "\<lambda>_. mx" "''foo''"] mx show ?thesis by auto
qed

text \<open>
  \<^verbatim>\<open>Remove\<close> deletes the map entry but not the prefix entry. After removing a prefix pattern, selectors that
  begin with it still reach the removed handler, and a handler registered for the pattern in its place is not
  reached by them.
\<close>

theorem Remove_keeps_prefix_handler:
  assumes "mux_inv mx" and "m mx p = Some \<lparr>h = HFunc k, pattern = p\<rparr>" and "last p = CHR ''/''"
    and "find_prefix s (es mx) = Some \<lparr>h = HFunc k, pattern = p\<rparr>" and "pattern_ok s" and "m mx s = None"
    and "Remove p mx = (hn, mx1)" and "Handle p (HFunc k2) mx1 = Inr mx2"
  shows "hn = HFunc k \<and> Match (\<lambda>_. mx1) r s = Some (HFunc k, p) \<and> Match (\<lambda>_. mx2) r s = Some (HFunc k, p)"
proof -
  let ?e = "\<lparr>h = HFunc k, pattern = p\<rparr>"
  from assms(1-3) have "entry_ok ?e" and e: "?e \<in> set (es mx)" and so: "sorted_wrt longer (es mx)"
    unfolding mux_inv_def by blast+
  then have p: "pattern_ok p" by (simp add: entry_ok_def)
  have mx1: "mx1 = mx\<lparr>m := (m mx)(p := None)\<rparr>" and hn: "hn = HFunc k"
    using assms(2,7) pattern_ok_clean [OF p] by (auto simp: Remove_def)
  have mx2: "m mx2 = (m mx1)(p \<mapsto> \<lparr>h = HFunc k2, pattern = p\<rparr>)" "es mx2 = appendSorted (es mx) \<lparr>h = HFunc k2, pattern = p\<rparr>"
    using assms(3,8) pattern_ok_clean [OF p] mx1 by (auto simp: Handle_cases registered_def Let_def split: if_splits)
  have ne: "s \<noteq> p" using assms(2,6) by auto
  have s: "s = cleanSelector s" using pattern_ok_clean [OF assms(5)] by simp
  have "find_prefix s (es mx2) = Some ?e"
    using assms(4) mx2(2) find_prefix_older [OF so e, of "\<lparr>h = HFunc k2, pattern = p\<rparr>" s] by simp
  moreover have "m mx1 s = None" "m mx2 s = None" using assms(6) mx1 mx2(1) ne by simp_all
  ultimately show ?thesis using hn assms(4) mx1 Match_step [OF s, of _ r] by simp
qed

theorem Remove_keeps_prefix_handler_witness:
  "\<exists>mx1 mx2. Remove ''/foo/'' sample_mux = (HFunc 1, mx1) \<and> Handle ''/foo/'' (HFunc 9) mx1 = Inr mx2
     \<and> Match (\<lambda>_. mx2) 0 ''/foo/x'' = Some (HFunc 1, ''/foo/'')"
proof -
  obtain hn mx1 where r: "Remove ''/foo/'' sample_mux = (hn, mx1)" by (cases "Remove ''/foo/'' sample_mux")
  then have "m mx1 ''/foo/'' = None" by (auto simp: Remove_def cleanSelector_def dots_to_slashes_def Let_def)
  then obtain mx2 where h: "Handle ''/foo/'' (HFunc 9) mx1 = Inr mx2"
    by (auto simp: Handle_def cleanSelector_def dots_to_slashes_def Let_def)
  have "hn = HFunc 1 \<and> Match (\<lambda>_. mx1) 0 ''/foo/x'' = Some (HFunc 1, ''/foo/'') \<and> Match (\<lambda>_. mx2) 0 ''/foo/x'' = Some (HFunc 1, ''/foo/'')"
    by (rule Remove_keeps_prefix_handler [OF sample_mux_inv _ _ _ _ _ r h])
       (simp_all add: sample_mux_es sample_mux_m pattern_ok_def)
  with r h show ?thesis by blast
qed

end
