(* ===== verification/Mux_Proxy.thy ===== *)
theory Mux_Proxy
  imports Qtalk_Prelude
begin

text \<open>
  The interface \<^verbatim>\<open>mux.Channel\<close> (\<^verbatim>\<open>src/mux/channel.go\<close>) as its users see it, and the channel proxy (\<^verbatim>\<open>src/mux/proxy.go\<close>). A
  channel is a byte stream in each direction, \<^verbatim>\<open>CloseWrite\<close>, and \<^verbatim>\<open>Close\<close>, whose second call returns
  \<^verbatim>\<open>io.EOF\<close>. \<^verbatim>\<open>io.Copy\<close> is the loop of the standard library: it reads into a buffer of 32 KB, and a read
  returns between one byte and all that has arrived. The two goroutines of \<^verbatim>\<open>proxy\<close>, the arrival of
  bytes and the ends of the streams interleave in a step relation.

  The lemmas show that a proxied pair of channels loses, repeats and reorders no byte in either
  direction, keeps half-closed connections half-closed, and comes to an end, closing both, as soon as both sides have ended.
\<close>

section \<open>Channels\<close>

record chan_io =
  c_in :: reader
  c_out :: writer
  c_eof :: bool      \<comment> \<open>CloseWrite was called\<close>
  c_closed :: bool

definition io_Close :: "chan_io \<Rightarrow> go_error option \<times> chan_io" where
  "io_Close io = (if c_closed io then Some EOF else None, io\<lparr>c_closed := True\<rparr>)"

definition io_CloseWrite :: "chan_io \<Rightarrow> chan_io" where
  "io_CloseWrite io = io\<lparr>c_eof := True\<rparr>"

section \<open>io.Copy\<close>

definition copy_buffer :: nat where "copy_buffer = 32768"

text \<open>
  One turn of \<^verbatim>\<open>io.Copy(dst, src)\<close>: \<open>n\<close> bytes are read and written; an error of the write, or the end of the
  source, ends the copy. \<open>None\<close> while nothing has arrived.
\<close>

datatype copy_state = Copying | Copied "go_error option"

definition copy_turn :: "nat \<Rightarrow> chan_io \<Rightarrow> chan_io \<Rightarrow> (copy_state \<times> chan_io \<times> chan_io) option" where
  "copy_turn n dst src =
     (let r = c_in src in
      if rd_buf r \<noteq> [] then
        (case Write (take n (rd_buf r)) (c_out dst) of
           (e, w) \<Rightarrow> Some (case e of None \<Rightarrow> Copying | Some x \<Rightarrow> Copied (Some x),
                       dst\<lparr>c_out := w\<rparr>, src\<lparr>c_in := r\<lparr>rd_buf := drop n (rd_buf r)\<rparr>\<rparr>))
      else
        (case rd_end r of
           None \<Rightarrow> None
         | Some e \<Rightarrow> Some (Copied (if e = EOF then None else Some e), dst, src)))"

text \<open>The whole copy, reading as much as there is each time.\<close>

function io_Copy :: "chan_io \<Rightarrow> chan_io \<Rightarrow> (go_error option \<times> chan_io \<times> chan_io) option" where
  "io_Copy dst src =
     (case copy_turn copy_buffer dst src of
        None \<Rightarrow> None
      | Some (Copied e, dst1, src1) \<Rightarrow> Some (e, dst1, src1)
      | Some (Copying, dst1, src1) \<Rightarrow> io_Copy dst1 src1)"
  by pat_completeness auto
termination
  by (relation "measure (\<lambda>(dst, src). length (rd_buf (c_in src)))")
     (auto simp: copy_turn_def copy_buffer_def Let_def split: if_splits prod.splits option.splits)

declare io_Copy.simps [simp del]

section \<open>The proxy of two channels\<close>

record proxy_state =
  pa :: chan_io
  pb :: chan_io
  ba :: copy_state     \<comment> \<open>the goroutine that copies from b to a\<close>
  ab :: copy_state     \<comment> \<open>the goroutine that copies from a to b\<close>
  returned :: bool

definition proxy_start :: "chan_io \<Rightarrow> chan_io \<Rightarrow> proxy_state" where
  "proxy_start a b = \<lparr>pa = a, pb = b, ba = Copying, ab = Copying, returned = False\<rparr>"

text \<open>A copy that ends is followed by \<^verbatim>\<open>CloseWrite\<close> on its destination.\<close>

definition copy_done :: "copy_state \<Rightarrow> chan_io \<Rightarrow> chan_io" where
  "copy_done c dst = (case c of Copying \<Rightarrow> dst | Copied _ \<Rightarrow> io_CloseWrite dst)"

inductive proxy_step :: "proxy_state \<Rightarrow> proxy_state \<Rightarrow> bool" where
  copy_ba: "ba s = Copying \<Longrightarrow> 0 < n \<Longrightarrow> n \<le> copy_buffer \<Longrightarrow> copy_turn n (pa s) (pb s) = Some (c, a, b)
     \<Longrightarrow> proxy_step s (s\<lparr>pa := copy_done c a, pb := b, ba := c\<rparr>)"
| copy_ab: "ab s = Copying \<Longrightarrow> 0 < n \<Longrightarrow> n \<le> copy_buffer \<Longrightarrow> copy_turn n (pb s) (pa s) = Some (c, b, a)
     \<Longrightarrow> proxy_step s (s\<lparr>pb := copy_done c b, pa := a, ab := c\<rparr>)"
| close: "ba s = Copied e \<Longrightarrow> ab s = Copied e' \<Longrightarrow> \<not> returned s
     \<Longrightarrow> proxy_step s (s\<lparr>pa := snd (io_Close (pa s)), pb := snd (io_Close (pb s)), returned := True\<rparr>)"

text \<open>What happens outside: bytes arrive on a stream that has not ended, or it ends.\<close>

definition arrives :: "bytes \<Rightarrow> go_error option \<Rightarrow> chan_io \<Rightarrow> chan_io" where
  "arrives bs e io = io\<lparr>c_in := \<lparr>rd_buf = rd_buf (c_in io) @ bs, rd_end = e\<rparr>\<rparr>"

text \<open>A run from the start, with the bytes that have arrived on each side so far.\<close>

inductive proxy_run :: "chan_io \<Rightarrow> chan_io \<Rightarrow> bytes \<Rightarrow> bytes \<Rightarrow> proxy_state \<Rightarrow> bool" for a0 b0 where
  init: "proxy_run a0 b0 (rd_buf (c_in a0)) (rd_buf (c_in b0)) (proxy_start a0 b0)"
| step: "proxy_run a0 b0 xs ys s \<Longrightarrow> proxy_step s s' \<Longrightarrow> proxy_run a0 b0 xs ys s'"
| arrive_a: "proxy_run a0 b0 xs ys s \<Longrightarrow> rd_end (c_in (pa s)) = None \<Longrightarrow> proxy_run a0 b0 (xs @ bs) ys (s\<lparr>pa := arrives bs e (pa s)\<rparr>)"
| arrive_b: "proxy_run a0 b0 xs ys s \<Longrightarrow> rd_end (c_in (pb s)) = None \<Longrightarrow> proxy_run a0 b0 xs (ys @ bs) (s\<lparr>pb := arrives bs e (pb s)\<rparr>)"

section \<open>The loop of Proxy\<close>

text \<open>
  \<^verbatim>\<open>Proxy\<close> over the results of \<^verbatim>\<open>src.Accept\<close>, each with the result of the \<^verbatim>\<open>dst.Open\<close> that follows when it
  is a channel: the pairs handed to \<^verbatim>\<open>proxy\<close>, the channels closed, and what \<^verbatim>\<open>Proxy\<close> returns (\<open>None\<close> while it waits).
\<close>

record proxied =
  pairs :: "(nat \<times> nat) list"
  closed_chans :: "nat list"
  result :: "go_error option option"

fun Proxy :: "(go_error + nat \<times> (go_error + nat)) list \<Rightarrow> proxied" where
  "Proxy [] = \<lparr>pairs = [], closed_chans = [], result = None\<rparr>"
| "Proxy (Inl e # evs) = \<lparr>pairs = [], closed_chans = [], result = Some (if e = EOF then None else Some e)\<rparr>"
| "Proxy (Inr (a, Inl e) # evs) = \<lparr>pairs = [], closed_chans = [a], result = Some (Some e)\<rparr>"
| "Proxy (Inr (a, Inr b) # evs) = (let p = Proxy evs in p\<lparr>pairs := (a, b) # pairs p\<rparr>)"

text \<open>Every channel that was accepted is proxied or, when the other side could not be opened, closed.\<close>

lemma Proxy_no_leak:
  "Proxy (map (\<lambda>(a, b). Inr (a, Inr b)) ps @ ev # evs) =
     (case ev of
        Inl e \<Rightarrow> \<lparr>pairs = ps, closed_chans = [], result = Some (if e = EOF then None else Some e)\<rparr>
      | Inr (a, Inl e) \<Rightarrow> \<lparr>pairs = ps, closed_chans = [a], result = Some (Some e)\<rparr>
      | Inr (a, Inr b) \<Rightarrow> (let p = Proxy evs in p\<lparr>pairs := ps @ (a, b) # pairs p\<rparr>))"
  by (induction ps) (auto simp: Let_def split: sum.split prod.split)

section \<open>Copying\<close>

lemma copy_turn_Copying:
  assumes "copy_turn n dst src = Some (Copying, dst1, src1)" and "0 < n" and "wr_fail (c_out dst) = None"
  shows "rd_buf (c_in src) \<noteq> []" and "length (rd_buf (c_in src1)) < length (rd_buf (c_in src))"
    and "wr_buf (c_out dst1) @ rd_buf (c_in src1) = wr_buf (c_out dst) @ rd_buf (c_in src)"
    and "wr_fail (c_out dst1) = None" and "rd_end (c_in src1) = rd_end (c_in src)"
    and "c_in dst1 = c_in dst" and "c_out src1 = c_out src" and "c_eof dst1 = c_eof dst" and "c_eof src1 = c_eof src"
    and "c_closed dst1 = c_closed dst" and "c_closed src1 = c_closed src"
  using assms by (auto simp: copy_turn_def Let_def Write_ok split: if_splits option.splits)

lemma copy_turn_Copied:
  assumes "copy_turn n dst src = Some (Copied e, dst1, src1)" and "wr_fail (c_out dst) = None"
  shows "dst1 = dst" and "src1 = src" and "rd_buf (c_in src) = []" and "rd_end (c_in src) \<noteq> None"
  using assms by (auto simp: copy_turn_def Let_def Write_ok split: if_splits option.splits)

text \<open>A complete copy moves every byte.\<close>

lemma io_Copy_all:
  assumes "wr_fail (c_out dst) = None" and "rd_end (c_in src) = Some EOF"
  shows "\<exists>dst1 src1. io_Copy dst src = Some (None, dst1, src1)
    \<and> c_out dst1 = (c_out dst)\<lparr>wr_buf := wr_buf (c_out dst) @ rd_buf (c_in src)\<rparr> \<and> rd_buf (c_in src1) = []
    \<and> c_in dst1 = c_in dst \<and> c_out src1 = c_out src \<and> c_closed dst1 = c_closed dst \<and> c_closed src1 = c_closed src"
  using assms
proof (induction "length (rd_buf (c_in src))" arbitrary: dst src rule: less_induct)
  case less
  show ?case
  proof (cases "rd_buf (c_in src) = []")
    case True
    then show ?thesis using less.prems by (subst io_Copy.simps) (simp add: copy_turn_def)
  next
    case False
    let ?n = copy_buffer
    let ?dst = "dst\<lparr>c_out := (c_out dst)\<lparr>wr_buf := wr_buf (c_out dst) @ take ?n (rd_buf (c_in src))\<rparr>\<rparr>"
    let ?src = "src\<lparr>c_in := (c_in src)\<lparr>rd_buf := drop ?n (rd_buf (c_in src))\<rparr>\<rparr>"
    have "copy_turn ?n dst src = Some (Copying, ?dst, ?src)" using False less.prems by (simp add: copy_turn_def Write_ok Let_def)
    then have "io_Copy dst src = io_Copy ?dst ?src" by (subst io_Copy.simps) simp
    moreover have "length (rd_buf (c_in ?src)) < length (rd_buf (c_in src))" using False by (simp add: copy_buffer_def)
    from less.hyps [OF this, of ?dst] less.prems
    have "\<exists>dst1 src1. io_Copy ?dst ?src = Some (None, dst1, src1)
      \<and> c_out dst1 = (c_out dst)\<lparr>wr_buf := wr_buf (c_out dst) @ rd_buf (c_in src)\<rparr> \<and> rd_buf (c_in src1) = []
      \<and> c_in dst1 = c_in dst \<and> c_out src1 = c_out src \<and> c_closed dst1 = c_closed dst \<and> c_closed src1 = c_closed src" by simp
    ultimately show ?thesis by simp
  qed
qed

section \<open>The invariant of a proxy\<close>

text \<open>One direction: what the destination was given and what the source still holds is what has arrived.\<close>

definition copy_inv :: "chan_io \<Rightarrow> bytes \<Rightarrow> copy_state \<Rightarrow> chan_io \<Rightarrow> chan_io \<Rightarrow> bool" where
  "copy_inv dst0 arrived c dst src \<longleftrightarrow>
     wr_fail (c_out dst) = None \<and> wr_buf (c_out dst) @ rd_buf (c_in src) = wr_buf (c_out dst0) @ arrived
     \<and> (case c of Copying \<Rightarrow> c_eof dst = c_eof dst0 | Copied _ \<Rightarrow> c_eof dst \<and> rd_buf (c_in src) = [] \<and> rd_end (c_in src) \<noteq> None)"

definition proxy_inv :: "chan_io \<Rightarrow> chan_io \<Rightarrow> bytes \<Rightarrow> bytes \<Rightarrow> proxy_state \<Rightarrow> bool" where
  "proxy_inv a0 b0 xs ys s \<longleftrightarrow>
     copy_inv a0 ys (ba s) (pa s) (pb s) \<and> copy_inv b0 xs (ab s) (pb s) (pa s)
     \<and> (returned s \<longrightarrow> ba s \<noteq> Copying \<and> ab s \<noteq> Copying \<and> c_closed (pa s) \<and> c_closed (pb s))"

text \<open>A turn of one copy keeps its own invariant and the one of the other direction.\<close>

lemma copy_turn_inv:
  assumes "copy_turn n dst src = Some (c, dst1, src1)" and "0 < n" and "copy_inv dst0 arrived Copying dst src"
  shows "copy_inv dst0 arrived c (copy_done c dst1) src1"
proof (cases c)
  case Copying
  with copy_turn_Copying [of n dst src dst1 src1] assms show ?thesis by (simp add: copy_inv_def copy_done_def)
next
  case (Copied e)
  with copy_turn_Copied [of n dst src e dst1 src1] assms show ?thesis by (simp add: copy_inv_def copy_done_def io_CloseWrite_def)
qed

lemma copy_turn_other:
  assumes "copy_turn n dst src = Some (c, dst1, src1)" and "0 < n" and "wr_fail (c_out dst) = None"
    and "copy_inv src0 arrived c' src dst"
  shows "copy_inv src0 arrived c' src1 (copy_done c dst1)"
proof (cases c)
  case Copying
  with copy_turn_Copying [of n dst src dst1 src1] assms show ?thesis
    by (simp add: copy_inv_def copy_done_def split: copy_state.splits)
next
  case (Copied e)
  with copy_turn_Copied [of n dst src e dst1 src1] assms show ?thesis
    by (simp add: copy_inv_def copy_done_def io_CloseWrite_def split: copy_state.splits)
qed

lemma proxy_step_inv:
  assumes "proxy_step s s'" and "proxy_inv a0 b0 xs ys s"
  shows "proxy_inv a0 b0 xs ys s'"
  using assms
proof (induction rule: proxy_step.induct)
  case (copy_ba s n c a b)
  then have "wr_fail (c_out (pa s)) = None" "copy_inv a0 ys Copying (pa s) (pb s)" "copy_inv b0 xs (ab s) (pb s) (pa s)" "\<not> returned s"
    by (auto simp: proxy_inv_def copy_inv_def)
  with copy_turn_inv [OF copy_ba(4,2)] copy_turn_other [OF copy_ba(4,2)] show ?case by (simp add: proxy_inv_def)
next
  case (copy_ab s n c b a)
  then have "wr_fail (c_out (pb s)) = None" "copy_inv b0 xs Copying (pb s) (pa s)" "copy_inv a0 ys (ba s) (pa s) (pb s)" "\<not> returned s"
    by (auto simp: proxy_inv_def copy_inv_def)
  with copy_turn_inv [OF copy_ab(4,2)] copy_turn_other [OF copy_ab(4,2)] show ?case by (simp add: proxy_inv_def)
next
  case (close s e e')
  then show ?case by (auto simp: proxy_inv_def copy_inv_def io_Close_def)
qed

lemma arrives_inv:
  assumes "copy_inv dst0 arrived c dst src" and "rd_end (c_in src) = None"
  shows "copy_inv dst0 (arrived @ bs) c dst (arrives bs e src)"
  using assms by (auto simp: copy_inv_def arrives_def split: copy_state.splits)

lemma arrives_dst: "copy_inv dst0 arrived c (arrives bs e dst) src = copy_inv dst0 arrived c dst src"
  by (simp add: copy_inv_def arrives_def split: copy_state.split)

lemma proxy_run_inv:
  assumes "proxy_run a0 b0 xs ys s" and "wr_fail (c_out a0) = None" and "wr_fail (c_out b0) = None"
  shows "proxy_inv a0 b0 xs ys s"
  using assms
proof (induction rule: proxy_run.induct)
  case init
  then show ?case by (simp add: proxy_inv_def copy_inv_def proxy_start_def)
next
  case (step xs ys s s')
  then show ?case by (auto intro: proxy_step_inv)
next
  case (arrive_a xs ys s bs e)
  then show ?case by (simp add: proxy_inv_def arrives_dst arrives_inv) (simp add: arrives_def)
next
  case (arrive_b xs ys s bs e)
  then show ?case by (simp add: proxy_inv_def arrives_dst arrives_inv) (simp add: arrives_def)
qed

text \<open>What is left to do.\<close>

definition proxy_work :: "proxy_state \<Rightarrow> nat" where
  "proxy_work s = length (rd_buf (c_in (pa s))) + length (rd_buf (c_in (pb s)))
     + (if ba s = Copying then 1 else 0) + (if ab s = Copying then 1 else 0) + (if returned s then 0 else 1)"

lemma proxy_step_work:
  assumes "proxy_step s s'" and "proxy_inv a0 b0 xs ys s"
  shows "proxy_work s' < proxy_work s"
  using assms
proof (induction rule: proxy_step.induct)
  case (copy_ba s n c a b)
  then have w: "wr_fail (c_out (pa s)) = None" by (simp add: proxy_inv_def copy_inv_def)
  show ?case
  proof (cases c)
    case Copying
    with copy_turn_Copying [of n "pa s" "pb s" a b] copy_ba w show ?thesis by (simp add: proxy_work_def copy_done_def)
  next
    case (Copied e)
    with copy_turn_Copied [of n "pa s" "pb s" e a b] copy_ba w show ?thesis by (simp add: proxy_work_def copy_done_def io_CloseWrite_def)
  qed
next
  case (copy_ab s n c b a)
  then have w: "wr_fail (c_out (pb s)) = None" by (simp add: proxy_inv_def copy_inv_def)
  show ?case
  proof (cases c)
    case Copying
    with copy_turn_Copying [of n "pb s" "pa s" b a] copy_ab w show ?thesis by (simp add: proxy_work_def copy_done_def)
  next
    case (Copied e)
    with copy_turn_Copied [of n "pb s" "pa s" e b a] copy_ab w show ?thesis by (simp add: proxy_work_def copy_done_def io_CloseWrite_def)
  qed
qed (simp add: proxy_work_def io_Close_def)

lemma proxy_step_ends:
  assumes "proxy_step s s'" and "proxy_inv a0 b0 xs ys s"
  shows "rd_end (c_in (pa s')) = rd_end (c_in (pa s)) \<and> rd_end (c_in (pb s')) = rd_end (c_in (pb s))"
  using assms
proof (induction rule: proxy_step.induct)
  case (copy_ba s n c a b)
  then show ?case using copy_turn_Copying [of n "pa s" "pb s" a b] copy_turn_Copied [of n "pa s" "pb s" _ a b]
    by (cases c) (simp_all add: proxy_inv_def copy_inv_def copy_done_def io_CloseWrite_def)
next
  case (copy_ab s n c b a)
  then show ?case using copy_turn_Copying [of n "pb s" "pa s" b a] copy_turn_Copied [of n "pb s" "pa s" _ b a]
    by (cases c) (simp_all add: proxy_inv_def copy_inv_def copy_done_def io_CloseWrite_def)
qed (simp add: io_Close_def)

lemma proxy_progress:
  assumes "rd_end (c_in (pa s)) \<noteq> None" and "rd_end (c_in (pb s)) \<noteq> None" and "\<not> returned s"
  shows "\<exists>s'. proxy_step s s'"
proof -
  have turn: "\<exists>r. copy_turn 1 dst src = Some r" if "rd_end (c_in src) \<noteq> None" for dst src
    using that by (auto simp: copy_turn_def Let_def split: prod.splits)
  show ?thesis
  proof (cases "ba s")
    case Copying
    obtain c a b where "copy_turn 1 (pa s) (pb s) = Some (c, a, b)" using turn [OF assms(2)] by (metis prod_cases3)
    from proxy_step.copy_ba [OF Copying _ _ this] show ?thesis by (auto simp: copy_buffer_def)
  next
    case (Copied e)
    note ba = Copied
    show ?thesis
    proof (cases "ab s")
      case Copying
      obtain c b a where "copy_turn 1 (pb s) (pa s) = Some (c, b, a)" using turn [OF assms(1)] by (metis prod_cases3)
      from proxy_step.copy_ab [OF Copying _ _ this] show ?thesis by (auto simp: copy_buffer_def)
    next
      case (Copied e')
      from proxy_step.close [OF ba this assms(3)] show ?thesis by blast
    qed
  qed
qed

text \<open>Two channels that hold one message each and have ended, for the witnesses.\<close>

definition proxy_chan :: "bytes \<Rightarrow> chan_io" where
  "proxy_chan bs = \<lparr>c_in = \<lparr>rd_buf = bs, rd_end = Some EOF\<rparr>, c_out = \<lparr>wr_buf = [], wr_fail = None\<rparr>, c_eof = False, c_closed = False\<rparr>"

lemma proxy_chan_run: "proxy_run (proxy_chan xs) (proxy_chan ys) xs ys (proxy_start (proxy_chan xs) (proxy_chan ys))"
  using proxy_run.init [of "proxy_chan xs" "proxy_chan ys"] by (simp add: proxy_chan_def)

section \<open>Properties\<close>

text \<open>
  C31: a proxied pair of channels in any interleaving of the two copies, of arriving bytes and of ending streams. In both directions, what has been written to one channel
  followed by what has not yet been read from the other is exactly what has arrived there, in order. When a channel's write side has been closed, everything that will
  ever arrive for it has been written; when the proxy has returned, that holds for both, and both are closed.
\<close>

theorem proxy_transparent:
  assumes "proxy_run a0 b0 xs ys s" and "wr_fail (c_out a0) = None" and "wr_fail (c_out b0) = None"
    and "\<not> c_eof a0" and "\<not> c_eof b0"
  shows "wr_buf (c_out (pa s)) @ rd_buf (c_in (pb s)) = wr_buf (c_out a0) @ ys
    \<and> wr_buf (c_out (pb s)) @ rd_buf (c_in (pa s)) = wr_buf (c_out b0) @ xs
    \<and> (c_eof (pa s) \<longrightarrow> wr_buf (c_out (pa s)) = wr_buf (c_out a0) @ ys \<and> rd_end (c_in (pb s)) \<noteq> None)
    \<and> (c_eof (pb s) \<longrightarrow> wr_buf (c_out (pb s)) = wr_buf (c_out b0) @ xs \<and> rd_end (c_in (pa s)) \<noteq> None)
    \<and> (returned s \<longrightarrow> c_eof (pa s) \<and> c_eof (pb s) \<and> c_closed (pa s) \<and> c_closed (pb s))"
proof -
  from proxy_run_inv [OF assms(1-3)] have inv: "proxy_inv a0 b0 xs ys s" .
  then show ?thesis using assms(4,5)
    by (cases "ba s"; cases "ab s") (auto simp: proxy_inv_def copy_inv_def)
qed

theorem proxy_transparent_witness:
  "\<exists>s. proxy_step (proxy_start (proxy_chan [1, 2]) (proxy_chan [7])) s \<and> wr_buf (c_out (pa s)) = [7] \<and> rd_buf (c_in (pb s)) = []
     \<and> wr_buf (c_out (pa s)) @ rd_buf (c_in (pb s)) = [7]"
proof -
  let ?s = "proxy_start (proxy_chan [1, 2]) (proxy_chan [7])"
  obtain a b where t: "copy_turn 1 (pa ?s) (pb ?s) = Some (Copying, a, b)" "wr_buf (c_out a) = [7]" "rd_buf (c_in b) = []"
    by (simp add: proxy_start_def proxy_chan_def copy_turn_def Write_def)
  have st: "proxy_step ?s (?s\<lparr>pa := copy_done Copying a, pb := b, ba := Copying\<rparr>)"
    by (rule proxy_step.copy_ba [OF _ _ _ t(1)]) (simp_all add: proxy_start_def copy_buffer_def)
  from proxy_transparent [OF proxy_run.step [OF proxy_chan_run st]] t st show ?thesis
    by (auto simp: proxy_chan_def copy_done_def)
qed

text \<open>
  C32: once the streams of both channels have ended, the proxy stops by itself: no run from there is longer than the bytes left to read and three more steps, and where it can go no further it has
  returned, with all bytes delivered both ways and both channels closed.
\<close>

theorem proxy_ends:
  assumes "proxy_run a0 b0 xs ys s" and "wr_fail (c_out a0) = None" and "wr_fail (c_out b0) = None"
    and "rd_end (c_in (pa s)) \<noteq> None" and "rd_end (c_in (pb s)) \<noteq> None" and "(proxy_step ^^ n) s s'"
  shows "n \<le> length (rd_buf (c_in (pa s))) + length (rd_buf (c_in (pb s))) + 3
    \<and> ((\<nexists>s''. proxy_step s' s'') \<longrightarrow> returned s' \<and> c_closed (pa s') \<and> c_closed (pb s')
         \<and> wr_buf (c_out (pa s')) = wr_buf (c_out a0) @ ys \<and> wr_buf (c_out (pb s')) = wr_buf (c_out b0) @ xs)"
proof -
  have inv: "proxy_inv a0 b0 xs ys s" by (rule proxy_run_inv [OF assms(1-3)])
  have *: "proxy_inv a0 b0 xs ys t \<and> n + proxy_work t \<le> proxy_work s \<and> rd_end (c_in (pa t)) \<noteq> None \<and> rd_end (c_in (pb t)) \<noteq> None"
    if "(proxy_step ^^ n) s t" for n t
    using that
  proof (induction n arbitrary: t)
    case 0
    then show ?case using inv assms(4,5) by simp
  next
    case (Suc n)
    then obtain u where u: "(proxy_step ^^ n) s u" "proxy_step u t" by auto
    from Suc.IH [OF u(1)] proxy_step_inv [OF u(2)] proxy_step_work [OF u(2)] proxy_step_ends [OF u(2)] show ?case by fastforce
  qed
  have "proxy_work s \<le> length (rd_buf (c_in (pa s))) + length (rd_buf (c_in (pb s))) + 3" by (simp add: proxy_work_def)
  then have "n \<le> length (rd_buf (c_in (pa s))) + length (rd_buf (c_in (pb s))) + 3" using * [OF assms(6)] by linarith
  moreover have "returned s'" if "\<nexists>s''. proxy_step s' s''" using that proxy_progress [of s'] * [OF assms(6)] by blast
  ultimately show ?thesis using * [OF assms(6)] by (auto simp: proxy_inv_def copy_inv_def split: copy_state.splits)
qed

theorem proxy_ends_witness:
  "\<exists>n s'. (proxy_step ^^ n) (proxy_start (proxy_chan []) (proxy_chan [])) s' \<and> n = 3 \<and> returned s' \<and> n \<le> 3"
proof -
  let ?s = "proxy_start (proxy_chan []) (proxy_chan [])"
  let ?s1 = "?s\<lparr>pa := io_CloseWrite (pa ?s), pb := pb ?s, ba := Copied None\<rparr>"
  let ?s2 = "?s1\<lparr>pb := io_CloseWrite (pb ?s1), pa := pa ?s1, ab := Copied None\<rparr>"
  let ?s3 = "?s2\<lparr>pa := snd (io_Close (pa ?s2)), pb := snd (io_Close (pb ?s2)), returned := True\<rparr>"
  have "proxy_step ?s ?s1" using proxy_step.copy_ba [of ?s 1 "Copied None" "pa ?s" "pb ?s"]
    by (simp add: proxy_start_def proxy_chan_def copy_turn_def copy_done_def copy_buffer_def Let_def)
  moreover have "proxy_step ?s1 ?s2" using proxy_step.copy_ab [of ?s1 1 "Copied None" "pb ?s1" "pa ?s1"]
    by (simp add: proxy_start_def proxy_chan_def copy_turn_def copy_done_def copy_buffer_def io_CloseWrite_def Let_def)
  moreover have "proxy_step ?s2 ?s3" by (rule proxy_step.close) (simp_all add: proxy_start_def)
  ultimately have n: "(proxy_step ^^ 3) ?s ?s3" by (auto simp: numeral_3_eq_3)
  from proxy_ends [OF proxy_chan_run _ _ _ _ this] have "3 \<le> (3 :: nat)" by (simp add: proxy_chan_def proxy_start_def)
  then show ?thesis using n by (intro exI [of _ 3] exI [of _ ?s3]) simp
qed

end
