(* ===== verification/Rpc_Call.thy ===== *)
theory Rpc_Call
  imports Rpc_Frame Rpc_Handler Mux_Proxy
begin

text \<open>
  Calls (\<^verbatim>\<open>src/rpc/rpc.go\<close>, \<^verbatim>\<open>client.go\<close>, \<^verbatim>\<open>server.go\<close>). A channel is seen through the interface \<^verbatim>\<open>mux.Channel\<close>. A handler is a program over the methods of \<^verbatim>\<open>Call\<close> and
  \<^verbatim>\<open>Responder\<close>: a tree whose nodes are the calls and whose branches are their results. Contexts
  enter as the error that \<^verbatim>\<open>ctx.Err()\<close> returns at the end of a call. Logging is left out.

  The lemmas compose the client and the server: what a handler returns is what the caller gets, for
  values, for errors, for handlers that do not respond, and for selectors without a handler.
\<close>

section \<open>Channels\<close>

definition io_Encode :: "('d, 't) codec \<Rightarrow> 'd any \<Rightarrow> chan_io \<Rightarrow> go_error option \<times> chan_io" where
  "io_Encode C v io = (case frame_Encode C v (c_out io) of (e, w) \<Rightarrow> (e, io\<lparr>c_out := w\<rparr>))"

text \<open>Several values one after the other, up to the first error.\<close>

fun io_Encode_all :: "('d, 't) codec \<Rightarrow> 'd any list \<Rightarrow> chan_io \<Rightarrow> go_error option \<times> chan_io" where
  "io_Encode_all C [] io = (None, io)"
| "io_Encode_all C (v # vs) io =
     (case io_Encode C v io of
        (Some e, io1) \<Rightarrow> (Some e, io1)
      | (None, io1) \<Rightarrow> io_Encode_all C vs io1)"

section \<open>The responder\<close>

record responder =
  responded :: bool
  hdr_error :: "string option"
  hdr_continue :: bool
  ch :: chan_io

text \<open>The test of \<^verbatim>\<open>respond\<close> for a single value that is an error.\<close>

definition single_error :: "'d any list \<Rightarrow> go_error option" where
  "single_error values = (case values of [AError e] \<Rightarrow> Some e | _ \<Rightarrow> None)"

definition respond :: "('d, 't) codec \<Rightarrow> 'd any list \<Rightarrow> bool \<Rightarrow> responder \<Rightarrow> go_error option \<times> responder" where
  "respond C values cont r =
     (let r1 = r\<lparr>responded := True, hdr_continue := cont\<rparr>;
          (values1, r2) = (case single_error values of
             Some e \<Rightarrow> ([ANil], r1\<lparr>hdr_error := Some (error_text e)\<rparr>)
           | None \<Rightarrow> (values, r1))
      in case io_Encode C (AResponseHeader (hdr_error r2) (hdr_continue r2)) (ch r2) of
           (Some e, io1) \<Rightarrow> (Some e, r2\<lparr>ch := io1\<rparr>)
         | (None, io1) \<Rightarrow>
             (let values2 = (if values1 = [] then [ANil] else values1) in
              case io_Encode_all C values2 io1 of
                (Some e, io2) \<Rightarrow> (Some e, r2\<lparr>ch := io2\<rparr>)
              | (None, io2) \<Rightarrow>
                  if \<not> cont then (case io_Close io2 of (e, io3) \<Rightarrow> (e, r2\<lparr>ch := io3\<rparr>))
                  else (None, r2\<lparr>ch := io2\<rparr>)))"

definition responder_Return :: "('d, 't) codec \<Rightarrow> 'd any list \<Rightarrow> responder \<Rightarrow> go_error option \<times> responder" where
  "responder_Return C vs r = respond C vs False r"

definition responder_Continue :: "('d, 't) codec \<Rightarrow> 'd any list \<Rightarrow> responder \<Rightarrow> go_error option \<times> responder" where
  "responder_Continue C vs r = respond C vs True r"

definition responder_Send :: "('d, 't) codec \<Rightarrow> 'd any \<Rightarrow> responder \<Rightarrow> go_error option \<times> responder" where
  "responder_Send C v r = (case io_Encode C v (ch r) of (e, io1) \<Rightarrow> (e, r\<lparr>ch := io1\<rparr>))"

text \<open>\<^verbatim>\<open>Call.Receive(v)\<close>: nil discards the value.\<close>

definition Call_Receive :: "('d, 't) codec \<Rightarrow> 't option \<Rightarrow> reader \<Rightarrow> 'd any rd_result" where
  "Call_Receive C v r = frame_Decode C (case v of None \<Rightarrow> TDiscard | Some t \<Rightarrow> TVar t) r"

section \<open>The server\<close>

datatype ('d, 't) prog =
    End
  | Receive "'t option" "go_error + 'd any \<Rightarrow> ('d, 't) prog"
  | Return "'d any list" "go_error option \<Rightarrow> ('d, 't) prog"
  | Continue "'d any list" "go_error option \<Rightarrow> ('d, 't) prog"
  | SendVal "'d any" "go_error option \<Rightarrow> ('d, 't) prog"

text \<open>Running a handler; \<open>None\<close> when it waits for input.\<close>

primrec run :: "('d, 't) codec \<Rightarrow> ('d, 't) prog \<Rightarrow> responder \<Rightarrow> responder option" where
  "run C End r = Some r"
| "run C (Receive t k) r =
     (case Call_Receive C t (c_in (ch r)) of
        RdBlock \<Rightarrow> None
      | RdErr e rd \<Rightarrow> run C (k (Inl e)) (r\<lparr>ch := (ch r)\<lparr>c_in := rd\<rparr>\<rparr>)
      | RdOk v rd \<Rightarrow> run C (k (Inr v)) (r\<lparr>ch := (ch r)\<lparr>c_in := rd\<rparr>\<rparr>))"
| "run C (Return vs k) r = (case responder_Return C vs r of (e, r1) \<Rightarrow> run C (k e) r1)"
| "run C (Continue vs k) r = (case responder_Continue C vs r of (e, r1) \<Rightarrow> run C (k e) r1)"
| "run C (SendVal v k) r = (case responder_Send C v r of (e, r1) \<Rightarrow> run C (k e) r1)"

definition NotFoundHandler :: "string \<Rightarrow> ('d, 't) prog" where
  "NotFoundHandler sel = Return [AError (ErrorString (''not found: '' @ sel))] (\<lambda>_. End)"

text \<open>A \<^verbatim>\<open>RespondMux\<close> as a handler; \<open>funcs\<close> are the programs of the handlers that are not muxes.\<close>

definition mux_prog :: "muxes \<Rightarrow> (nat \<Rightarrow> string \<Rightarrow> ('d, 't) prog) \<Rightarrow> nat \<Rightarrow> string \<Rightarrow> ('d, 't) prog option" where
  "mux_prog st funcs r sel =
     map_option (\<lambda>k. case k of Some f \<Rightarrow> funcs f sel | None \<Rightarrow> NotFoundHandler sel) (mux_RespondRPC st r sel)"

text \<open>A value decoded into a header variable; a codec that stores nothing leaves it zero.\<close>

fun selector_of :: "'d any \<Rightarrow> string" where
  "selector_of (ACallHeader s) = s"
| "selector_of _ = []"

fun response_of :: "'d any \<Rightarrow> string option \<times> bool" where
  "response_of (AResponseHeader e c) = (e, c)"
| "response_of _ = (None, False)"

text \<open>What \<^verbatim>\<open>respond\<close> does after the handler: a nil response when there was none, and the channel is closed unless the call continues.\<close>

definition respond_finish :: "('d, 't) codec \<Rightarrow> responder \<Rightarrow> chan_io" where
  "respond_finish C r1 =
     (let r2 = (if \<not> responded r1 then snd (responder_Return C [] r1) else r1)
      in if \<not> hdr_continue r2 then snd (io_Close (ch r2)) else ch r2)"

definition Server_respond :: "('d, 't) codec \<Rightarrow> (string \<Rightarrow> ('d, 't) prog) \<Rightarrow> chan_io \<Rightarrow> chan_io option" where
  "Server_respond C hn io =
     (case frame_Decode C TCall (c_in io) of
        RdBlock \<Rightarrow> None
      | RdErr e rd \<Rightarrow> Some (io\<lparr>c_in := rd\<rparr>)
      | RdOk v rd \<Rightarrow>
          (let sel = cleanSelector (selector_of v);
               r0 = \<lparr>responded = False, hdr_error = None, hdr_continue = False, ch = io\<lparr>c_in := rd\<rparr>\<rparr>
           in map_option (respond_finish C) (run C (hn sel) r0)))"

section \<open>The client\<close>

datatype call_error = CErr go_error | RemoteError string

primrec call_error_text :: "call_error \<Rightarrow> string" where
  "call_error_text (CErr e) = error_text e"
| "call_error_text (RemoteError s) = ''remote: '' @ s"

record 'd response =
  resp_error :: "string option"
  resp_continue :: bool
  resp_values :: "'d any list"   \<comment> \<open>what was stored in the reply variables\<close>

text \<open>The argument of a call: one value, or a channel that delivers several.\<close>

datatype 'd args = Single "'d any" | Stream "'d any list"

text \<open>\<^verbatim>\<open>call\<close> up to the response: on an error the channel is closed.\<close>

definition call_send :: "('d, 't) codec \<Rightarrow> string \<Rightarrow> 'd args \<Rightarrow> chan_io \<Rightarrow> go_error option \<times> chan_io" where
  "call_send C sel args io =
     (case io_Encode C (ACallHeader sel) io of
        (Some e, io1) \<Rightarrow> (Some e, snd (io_Close io1))
      | (None, io1) \<Rightarrow>
          (case io_Encode_all C (case args of Single v \<Rightarrow> [v] | Stream vs \<Rightarrow> vs) io1 of
             (Some e, io2) \<Rightarrow> (Some e, snd (io_Close io2))
           | (None, io2) \<Rightarrow> (None, io2)))"

text \<open>Decoding the replies in order, up to the first error; what was stored so far is kept.\<close>

fun decode_replies :: "('d, 't) codec \<Rightarrow> 't list \<Rightarrow> reader \<Rightarrow> ('d any list \<times> go_error option \<times> reader) option" where
  "decode_replies C [] r = Some ([], None, r)"
| "decode_replies C (t # ts) r =
     (case frame_Decode C (TVar t) r of
        RdBlock \<Rightarrow> None
      | RdErr e r1 \<Rightarrow> Some ([], Some e, r1)
      | RdOk v r1 \<Rightarrow> map_option (\<lambda>(vs, e, r2). (v # vs, e, r2)) (decode_replies C ts r1))"

definition call_recv ::
    "('d, 't) codec \<Rightarrow> 't list \<Rightarrow> chan_io \<Rightarrow> ('d response option \<times> call_error option \<times> chan_io) option" where
  "call_recv C replies io =
     (case frame_Decode C TResponse (c_in io) of
        RdBlock \<Rightarrow> None
      | RdErr e rd \<Rightarrow> Some (None, Some (CErr e), snd (io_Close (io\<lparr>c_in := rd\<rparr>)))
      | RdOk v rd \<Rightarrow>
          (let (err, cont) = response_of v;
               resp = \<lparr>resp_error = err, resp_continue = cont, resp_values = []\<rparr>;
               fin = (\<lambda>rd1. if \<not> cont then snd (io_Close (io\<lparr>c_in := rd1\<rparr>)) else io\<lparr>c_in := rd1\<rparr>)
           in case err of
                Some s \<Rightarrow> Some (Some resp, Some (RemoteError s), fin rd)
              | None \<Rightarrow>
                  if replies = [] then
                    (case frame_Decode C TDiscard rd of
                       RdBlock \<Rightarrow> None
                     | RdErr e rd1 \<Rightarrow> Some (Some resp, None, fin rd1)
                     | RdOk _ rd1 \<Rightarrow> Some (Some resp, None, fin rd1))
                  else
                    map_option
                      (\<lambda>(vs, e, rd1). (Some (resp\<lparr>resp_values := vs\<rparr>), map_option CErr e, fin rd1))
                      (decode_replies C replies rd)))"

text \<open>\<^verbatim>\<open>Client.Call\<close> after \<^verbatim>\<open>Session.Open\<close>: an error of the context replaces the result of \<^verbatim>\<open>call\<close>.\<close>

definition Client_Call :: "go_error option \<Rightarrow> 'd response option \<times> call_error option \<times> chan_io
    \<Rightarrow> 'd response option \<times> call_error option \<times> chan_io" where
  "Client_Call ctx_err res =
     (case res of (resp, err, io) \<Rightarrow>
        (case ctx_err of Some e \<Rightarrow> (resp, Some (CErr e), io) | None \<Rightarrow> (resp, err, io)))"

text \<open>The methods of \<^verbatim>\<open>Response\<close>, for a call that was continued.\<close>

definition Response_Send :: "('d, 't) codec \<Rightarrow> 'd any \<Rightarrow> chan_io \<Rightarrow> go_error option \<times> chan_io" where
  "Response_Send C v io = io_Encode C v io"

definition Response_Receive :: "('d, 't) codec \<Rightarrow> 't \<Rightarrow> chan_io \<Rightarrow> 'd any rd_result" where
  "Response_Receive C t io = frame_Decode C (TVar t) (c_in io)"

section \<open>Sending values\<close>

definition out_frames :: "('d, 't) codec \<Rightarrow> 'd any list \<Rightarrow> chan_io \<Rightarrow> chan_io" where
  "out_frames C vs io = io\<lparr>c_out := (c_out io)\<lparr>wr_buf := wr_buf (c_out io) @ concat (map (frame_bytes C) vs)\<rparr>\<rparr>"

definition encodes :: "('d, 't) codec \<Rightarrow> 'd any \<Rightarrow> bool" where
  "encodes C v \<longleftrightarrow> (\<exists>b. c_enc C v = Inr b)"

lemma carries_encodes: "carries C t v \<Longrightarrow> encodes C v"
  by (auto simp: encodes_def elim: carriesE)

lemma all_encode: "list_all2 (\<lambda>t v. carries C (TVar t) v) ts vs \<Longrightarrow> list_all (encodes C) vs"
  by (induction rule: list_all2_induct) (auto dest: carries_encodes)

lemma out_frames_simps [simp]:
  "c_in (out_frames C vs io) = c_in io" "c_closed (out_frames C vs io) = c_closed io"
  "wr_fail (c_out (out_frames C vs io)) = wr_fail (c_out io)"
  "wr_buf (c_out (out_frames C vs io)) = wr_buf (c_out io) @ concat (map (frame_bytes C) vs)"
  "out_frames C ws (out_frames C vs io) = out_frames C (vs @ ws) io"
  by (simp_all add: out_frames_def)

lemma io_Encode_ok:
  "encodes C v \<Longrightarrow> wr_fail (c_out io) = None \<Longrightarrow> io_Encode C v io = (None, out_frames C [v] io)"
  by (auto simp: io_Encode_def encodes_def frame_Encode_def frame_bytes_def out_frames_def go_simps)

lemma io_Encode_all_ok:
  "list_all (encodes C) vs \<Longrightarrow> wr_fail (c_out io) = None \<Longrightarrow> io_Encode_all C vs io = (None, out_frames C vs io)"
  by (induction vs arbitrary: io) (simp_all add: io_Encode_ok out_frames_def)

text \<open>The header and the values that \<^verbatim>\<open>respond\<close> sends.\<close>

definition response_values :: "'d any list \<Rightarrow> 'd any list" where
  "response_values vs = (if vs = [] \<or> single_error vs \<noteq> None then [ANil] else vs)"

definition response_error :: "'d any list \<Rightarrow> string option \<Rightarrow> string option" where
  "response_error vs old = (case single_error vs of Some e \<Rightarrow> Some (error_text e) | None \<Rightarrow> old)"

lemma respond_ok:
  assumes "encodes C (AResponseHeader (response_error vs (hdr_error r)) cont)"
    and "list_all (encodes C) (response_values vs)" and "wr_fail (c_out (ch r)) = None"
  defines "io \<equiv> out_frames C (AResponseHeader (response_error vs (hdr_error r)) cont # response_values vs) (ch r)"
  shows "respond C vs cont r = (if \<not> cont \<and> c_closed (ch r) then Some EOF else None,
    \<lparr>responded = True, hdr_error = response_error vs (hdr_error r), hdr_continue = cont,
     ch = if cont then io else io\<lparr>c_closed := True\<rparr>\<rparr>)"
proof -
  have io: "io_Encode C (AResponseHeader (response_error vs (hdr_error r)) cont) (ch r)
      = (None, out_frames C [AResponseHeader (response_error vs (hdr_error r)) cont] (ch r))"
    "io_Encode_all C (response_values vs) (out_frames C [AResponseHeader (response_error vs (hdr_error r)) cont] (ch r))
      = (None, io)"
    using assms(1-3) by (simp_all add: io_Encode_ok io_Encode_all_ok io_def)
  show ?thesis
  proof (cases "single_error vs")
    case None
    with io show ?thesis
      by (cases r, cases vs) (auto simp: respond_def response_values_def response_error_def io_Close_def io_def Let_def)
  next
    case (Some e)
    with io show ?thesis
      by (cases r) (auto simp: respond_def response_values_def response_error_def io_Close_def io_def Let_def)
  qed
qed

lemma single_error_simps [simp]:
  "single_error [] = None" "single_error [AError e] = Some e" "single_error (v # w # vs) = None"
  "single_error [ANil] = None" "single_error [ACallHeader s] = None" "single_error [AData d] = None"
  "single_error [AResponseHeader x c] = None"
  by (simp_all add: single_error_def split: any.splits)

lemma run_respond [simp]:
  "responder_Return C vs r = respond C vs False r" "responder_Continue C vs r = respond C vs True r"
  by (simp_all add: responder_Return_def responder_Continue_def)

section \<open>One conversation\<close>

definition arg_values :: "'d args \<Rightarrow> 'd any list" where
  "arg_values a = (case a of Single v \<Rightarrow> [v] | Stream vs \<Rightarrow> vs)"

lemma call_send_ok:
  assumes "encodes C (ACallHeader sel)" and "list_all (encodes C) (arg_values a)" and "wr_fail (c_out io) = None"
  shows "call_send C sel a io = (None, out_frames C (ACallHeader sel # arg_values a) io)"
  using assms io_Encode_all_ok [of C "arg_values a" "out_frames C [ACallHeader sel] io"]
  by (simp add: call_send_def io_Encode_ok arg_values_def)

definition fresh_responder :: "chan_io \<Rightarrow> responder" where
  "fresh_responder io = \<lparr>responded = False, hdr_error = None, hdr_continue = False, ch = io\<rparr>"

lemma Server_respond_ok:
  assumes "carries C TCall (ACallHeader sel)"
    and "c_in io = \<lparr>rd_buf = frame_bytes C (ACallHeader sel) @ rest, rd_end = e\<rparr>"
  shows "Server_respond C hn io = map_option
    (\<lambda>r1. let r2 = (if \<not> responded r1 then snd (respond C [] False r1) else r1)
          in if \<not> hdr_continue r2 then snd (io_Close (ch r2)) else ch r2)
    (run C (hn (cleanSelector sel)) (fresh_responder (io\<lparr>c_in := \<lparr>rd_buf = rest, rd_end = e\<rparr>\<rparr>)))"
  unfolding Server_respond_def respond_finish_def [abs_def] run_respond
  using rf.dec_enc [OF assms(1), of rest e] assms(2) by (simp add: fresh_responder_def Let_def)

text \<open>A handler that receives one argument and returns.\<close>

definition unary :: "'t \<Rightarrow> (go_error + 'd any \<Rightarrow> 'd any list) \<Rightarrow> ('d, 't) prog" where
  "unary t f = Receive (Some t) (\<lambda>x. Return (f x) (\<lambda>_. End))"

lemma server_unary:
  assumes "carries C TCall (ACallHeader sel)" and "carries C (TVar t) arg"
    and "hn (cleanSelector sel) = unary t f" and "vs = f (Inr arg)"
    and "encodes C (AResponseHeader (response_error vs None) False)" and "list_all (encodes C) (response_values vs)"
    and "wr_fail (c_out io) = None"
    and "c_in io = \<lparr>rd_buf = concat (map (frame_bytes C) [ACallHeader sel, arg]), rd_end = e\<rparr>"
  shows "\<exists>io1. Server_respond C hn io = Some io1 \<and> c_closed io1
    \<and> wr_buf (c_out io1) = wr_buf (c_out io)
        @ concat (map (frame_bytes C) (AResponseHeader (response_error vs None) False # response_values vs))"
proof -
  let ?io = "io\<lparr>c_in := \<lparr>rd_buf = frame_bytes C arg, rd_end = e\<rparr>\<rparr>"
  let ?io' = "io\<lparr>c_in := \<lparr>rd_buf = [], rd_end = e\<rparr>\<rparr>"
  have "frame_Decode C (TVar t) \<lparr>rd_buf = frame_bytes C arg, rd_end = e\<rparr> = RdOk arg \<lparr>rd_buf = [], rd_end = e\<rparr>"
    using rf.dec_enc [OF assms(2), of "[]" e] by simp
  moreover have "respond C vs False (fresh_responder ?io') = (if c_closed io then Some EOF else None,
      \<lparr>responded = True, hdr_error = response_error vs None, hdr_continue = False,
       ch = (out_frames C (AResponseHeader (response_error vs None) False # response_values vs) ?io')\<lparr>c_closed := True\<rparr>\<rparr>)"
    using respond_ok [of C vs "fresh_responder ?io'" False] assms(5-7) by (simp add: fresh_responder_def)
  ultimately have "run C (unary t f) (fresh_responder ?io) = Some
      \<lparr>responded = True, hdr_error = response_error vs None, hdr_continue = False,
       ch = (out_frames C (AResponseHeader (response_error vs None) False # response_values vs) ?io')\<lparr>c_closed := True\<rparr>\<rparr>"
    using assms(4) by (simp add: unary_def Call_Receive_def fresh_responder_def)
  then show ?thesis
    using Server_respond_ok [OF assms(1), of io "frame_bytes C arg" e hn] assms(3,8) by (simp add: io_Close_def)
qed

text \<open>The client's side.\<close>

lemma decode_replies_ok:
  assumes "list_all2 (\<lambda>t v. carries C (TVar t) v) ts vs"
  shows "decode_replies C ts \<lparr>rd_buf = concat (map (frame_bytes C) vs) @ rest, rd_end = e\<rparr>
    = Some (vs, None, \<lparr>rd_buf = rest, rd_end = e\<rparr>)"
  using assms by (induction rule: list_all2_induct) (simp_all add: rf.dec_enc)

lemma call_recv_error:
  assumes "carries C TResponse (AResponseHeader (Some s) False)"
    and "c_in io = \<lparr>rd_buf = frame_bytes C (AResponseHeader (Some s) False) @ rest, rd_end = e\<rparr>"
  shows "\<exists>io1. call_recv C ts io = Some (Some \<lparr>resp_error = Some s, resp_continue = False, resp_values = []\<rparr>,
      Some (RemoteError s), io1) \<and> c_closed io1"
  using rf.dec_enc [OF assms(1), of rest e] assms(2) by (simp add: call_recv_def io_Close_def Let_def)

lemma call_recv_values:
  assumes "carries C TResponse (AResponseHeader None cont)" and "list_all2 (\<lambda>t v. carries C (TVar t) v) ts vs" and "ts \<noteq> []"
    and "c_in io = \<lparr>rd_buf = frame_bytes C (AResponseHeader None cont) @ concat (map (frame_bytes C) vs) @ rest, rd_end = e\<rparr>"
  shows "call_recv C ts io = Some (Some \<lparr>resp_error = None, resp_continue = cont, resp_values = vs\<rparr>, None,
      io\<lparr>c_in := \<lparr>rd_buf = rest, rd_end = e\<rparr>, c_closed := \<not> cont \<or> c_closed io\<rparr>)"
  using rf.dec_enc [OF assms(1), of "concat (map (frame_bytes C) vs) @ rest" e] decode_replies_ok [OF assms(2), of rest e] assms(3,4)
  by (cases io) (auto simp: call_recv_def io_Close_def Let_def)

text \<open>Both sides of a call to such a handler, whatever it returns.\<close>

lemma unary_call:
  assumes "carries C TCall (ACallHeader sel)" and "carries C (TVar t) arg" and "hn (cleanSelector sel) = unary t f"
    and "carries C TResponse (AResponseHeader (response_error vs None) False)" and "list_all (encodes C) (response_values vs)"
    and "wr_fail (c_out cl) = None" and "wr_fail (c_out sv) = None" and "vs = f (Inr arg)"
  defines "request \<equiv> concat (map (frame_bytes C) [ACallHeader sel, arg])"
    and "response \<equiv> concat (map (frame_bytes C) (AResponseHeader (response_error vs None) False # response_values vs))"
  shows "call_send C sel (Single arg) cl = (None, out_frames C [ACallHeader sel, arg] cl)"
    and "\<exists>sv1. Server_respond C hn (sv\<lparr>c_in := \<lparr>rd_buf = request, rd_end = e\<rparr>\<rparr>) = Some sv1 \<and> c_closed sv1
      \<and> wr_buf (c_out sv1) = wr_buf (c_out sv) @ response"
    and "single_error vs = None \<Longrightarrow> list_all2 (\<lambda>t v. carries C (TVar t) v) ts vs \<Longrightarrow> ts \<noteq> [] \<Longrightarrow>
      call_recv C ts (io\<lparr>c_in := \<lparr>rd_buf = response, rd_end = e\<rparr>\<rparr>)
        = Some (Some \<lparr>resp_error = None, resp_continue = False, resp_values = vs\<rparr>, None, io\<lparr>c_in := \<lparr>rd_buf = [], rd_end = e\<rparr>, c_closed := True\<rparr>)"
    and "single_error vs = Some x \<Longrightarrow>
      \<exists>io1. call_recv C ts (io\<lparr>c_in := \<lparr>rd_buf = response, rd_end = e\<rparr>\<rparr>)
        = Some (Some \<lparr>resp_error = Some (error_text x), resp_continue = False, resp_values = []\<rparr>, Some (RemoteError (error_text x)), io1) \<and> c_closed io1"
proof -
  show "call_send C sel (Single arg) cl = (None, out_frames C [ACallHeader sel, arg] cl)"
    using call_send_ok [of C sel "Single arg" cl] carries_encodes assms(1,2,6) by (fastforce simp: arg_values_def)
  show "\<exists>sv1. Server_respond C hn (sv\<lparr>c_in := \<lparr>rd_buf = request, rd_end = e\<rparr>\<rparr>) = Some sv1 \<and> c_closed sv1
      \<and> wr_buf (c_out sv1) = wr_buf (c_out sv) @ response"
    using server_unary [where io = "sv\<lparr>c_in := \<lparr>rd_buf = request, rd_end = e\<rparr>\<rparr>" and C = C and hn = hn and f = f and vs = vs and e = e, OF assms(1-3,8)
        carries_encodes [OF assms(4)] assms(5)] assms(7) by (simp add: request_def response_def)
  { assume r: "single_error vs = None" and ts: "list_all2 (\<lambda>t v. carries C (TVar t) v) ts vs" "ts \<noteq> []"
    then have "response_error vs None = None" "response_values vs = vs"
      by (auto simp: response_values_def response_error_def)
    with call_recv_values [OF _ ts, of False "io\<lparr>c_in := \<lparr>rd_buf = response, rd_end = e\<rparr>\<rparr>" "[]" e] assms(4)
    show "call_recv C ts (io\<lparr>c_in := \<lparr>rd_buf = response, rd_end = e\<rparr>\<rparr>)
        = Some (Some \<lparr>resp_error = None, resp_continue = False, resp_values = vs\<rparr>, None, io\<lparr>c_in := \<lparr>rd_buf = [], rd_end = e\<rparr>, c_closed := True\<rparr>)"
      by (simp add: response_def) }
  { assume "single_error vs = Some x"
    then have "response_error vs None = Some (error_text x)" by (simp add: response_error_def)
    with call_recv_error [of C "error_text x" "io\<lparr>c_in := \<lparr>rd_buf = response, rd_end = e\<rparr>\<rparr>" "concat (map (frame_bytes C) (response_values vs))" e ts] assms(4)
    show "\<exists>io1. call_recv C ts (io\<lparr>c_in := \<lparr>rd_buf = response, rd_end = e\<rparr>\<rparr>)
        = Some (Some \<lparr>resp_error = Some (error_text x), resp_continue = False, resp_values = []\<rparr>, Some (RemoteError (error_text x)), io1) \<and> c_closed io1"
      by (simp add: response_def) }
qed

text \<open>An idle channel.\<close>

definition idle_io :: chan_io where
  "idle_io = \<lparr>c_in = \<lparr>rd_buf = [], rd_end = None\<rparr>, c_out = \<lparr>wr_buf = [], wr_fail = None\<rparr>, c_eof = False, c_closed = False\<rparr>"

section \<open>Properties\<close>

text \<open>
  C8: a call and its response, end to end. The client's request goes to a server whose handler receives the argument
  and returns values that are not a lone error; the server's output goes back to the client. For every codec that carries the values
  involved: the call returns no error, the reply variables hold exactly the values the handler
  returned, and both sides have closed the channel.
\<close>

theorem rpc_call_returns_values:
  assumes "carries C TCall (ACallHeader sel)" and "carries C (TVar t) arg"
    and "carries C TResponse (AResponseHeader None False)"
    and "hn (cleanSelector sel) = unary t f" and "vs = f (Inr arg)" and "single_error vs = None"
    and "list_all2 (\<lambda>t v. carries C (TVar t) v) ts vs" and "ts \<noteq> []"
    and "wr_fail (c_out cl) = None" and "wr_fail (c_out sv) = None"
    and "call_send C sel (Single arg) cl = (err, cl1)" and "wr_buf (c_out cl1) = wr_buf (c_out cl) @ request"
    and "c_in sv = \<lparr>rd_buf = request, rd_end = None\<rparr>"
  shows "\<exists>sv1 response cl2. err = None \<and> Server_respond C hn sv = Some sv1 \<and> c_closed sv1
    \<and> wr_buf (c_out sv1) = wr_buf (c_out sv) @ response
    \<and> call_recv C ts (cl1\<lparr>c_in := \<lparr>rd_buf = response, rd_end = e\<rparr>\<rparr>)
        = Some (Some \<lparr>resp_error = None, resp_continue = False, resp_values = vs\<rparr>, None, cl2) \<and> c_closed cl2"
proof -
  have r: "response_error vs None = None" "list_all (encodes C) (response_values vs)"
    using assms(6-8) all_encode [OF assms(7)] by (auto simp: response_values_def response_error_def)
  note call = unary_call [where C = C and vs = vs and hn = hn, OF assms(1,2,4) _ r(2) assms(9,10,5)]
  from call(1) r(1) assms(3,11,12) have s: "err = None" "request = concat (map (frame_bytes C) [ACallHeader sel, arg])" by auto
  have "sv\<lparr>c_in := \<lparr>rd_buf = request, rd_end = None\<rparr>\<rparr> = sv" using assms(13) by simp
  with call(2) [where e = None] call(3) [OF _ assms(6-8)] s r(1) assms(3) show ?thesis by fastforce
qed

theorem rpc_call_returns_values_witness:
  "\<exists>cl1 sv1 response cl2. call_send byte_codec ''echo'' (Single (AData [7])) idle_io = (None, cl1)
     \<and> Server_respond byte_codec (\<lambda>_. unary () (\<lambda>x. [AData [9], ANil])) (idle_io\<lparr>c_in := \<lparr>rd_buf = wr_buf (c_out cl1), rd_end = None\<rparr>\<rparr>) = Some sv1
     \<and> wr_buf (c_out sv1) = response
     \<and> call_recv byte_codec [(), ()] (cl1\<lparr>c_in := \<lparr>rd_buf = response, rd_end = None\<rparr>\<rparr>)
       = Some (Some \<lparr>resp_error = None, resp_continue = False, resp_values = [AData [9], ANil]\<rparr>, None, cl2)"
proof -
  obtain err cl1 where c: "call_send byte_codec ''echo'' (Single (AData [7])) idle_io = (err, cl1)"
    by (cases "call_send byte_codec ''echo'' (Single (AData [7])) idle_io")
  have k: "carries byte_codec TCall (ACallHeader ''echo'')" "carries byte_codec (TVar ()) (AData [7])"
    "carries byte_codec TResponse (AResponseHeader None False)"
    "carries byte_codec (TVar ()) (AData [9])" "carries byte_codec (TVar ()) ANil"
    by (simp_all add: byte_codec_carries)
  from rpc_call_returns_values [OF k(1-3), of "\<lambda>_. unary () (\<lambda>x. [AData [9], ANil])" "\<lambda>x. [AData [9], ANil]" _ "[(), ()]" idle_io
      "idle_io\<lparr>c_in := \<lparr>rd_buf = wr_buf (c_out cl1), rd_end = None\<rparr>\<rparr>" err cl1 "wr_buf (c_out cl1)" None] c k(4,5)
  show ?thesis by (auto simp: idle_io_def)
qed

text \<open>
  When the handler returns a single error, the caller gets a \<^verbatim>\<open>RemoteError\<close> with the error's text, whose own
  text is the same with the prefix \<^verbatim>\<open>remote: \<close>; no reply variable is written.
\<close>

theorem rpc_call_returns_remote_error:
  assumes "carries C TCall (ACallHeader sel)" and "carries C (TVar t) arg"
    and "carries C TResponse (AResponseHeader (Some (error_text x)) False)" and "encodes C ANil"
    and "hn (cleanSelector sel) = unary t f" and "f (Inr arg) = [AError x]"
    and "wr_fail (c_out sv) = None"
    and "c_in sv = \<lparr>rd_buf = concat (map (frame_bytes C) [ACallHeader sel, arg]), rd_end = None\<rparr>"
  shows "\<exists>sv1 response cl2. Server_respond C hn sv = Some sv1 \<and> wr_buf (c_out sv1) = wr_buf (c_out sv) @ response
    \<and> call_recv C ts (cl\<lparr>c_in := \<lparr>rd_buf = response, rd_end = e\<rparr>\<rparr>)
        = Some (Some \<lparr>resp_error = Some (error_text x), resp_continue = False, resp_values = []\<rparr>,
            Some (RemoteError (error_text x)), cl2)
    \<and> call_error_text (RemoteError (error_text x)) = ''remote: '' @ error_text x \<and> c_closed cl2"
proof -
  have r: "response_error [AError x] None = Some (error_text x)" "response_values [AError x] = [ANil]"
    by (simp_all add: response_error_def response_values_def)
  note call = unary_call [where C = C and vs = "[AError x]" and hn = hn and cl = idle_io, OF assms(1,2,5), unfolded r]
  have "sv\<lparr>c_in := \<lparr>rd_buf = concat (map (frame_bytes C) [ACallHeader sel, arg]), rd_end = None\<rparr>\<rparr> = sv" using assms(8) by simp
  with call(2) [where e = None and sv = sv] call(4) [where x = x and e = e] assms(3,4,6,7) show ?thesis by (fastforce simp: idle_io_def)
qed

theorem rpc_call_returns_remote_error_witness:
  "\<exists>sv1 response cl2. Server_respond byte_codec (\<lambda>_. unary () (\<lambda>x. [AError (ErrorString ''boom'')]))
      (idle_io\<lparr>c_in := \<lparr>rd_buf = concat (map (frame_bytes byte_codec) [ACallHeader ''f'', ANil]), rd_end = None\<rparr>\<rparr>) = Some sv1
     \<and> wr_buf (c_out sv1) = response
     \<and> call_recv byte_codec [()] (idle_io\<lparr>c_in := \<lparr>rd_buf = response, rd_end = None\<rparr>\<rparr>)
       = Some (Some \<lparr>resp_error = Some ''boom'', resp_continue = False, resp_values = []\<rparr>, Some (RemoteError ''boom''), cl2)"
proof -
  have k: "carries byte_codec TCall (ACallHeader ''f'')" "carries byte_codec (TVar ()) ANil"
    "carries byte_codec TResponse (AResponseHeader (Some (error_text (ErrorString ''boom''))) False)"
    by (simp_all add: byte_codec_carries)
  have "encodes byte_codec ANil" using k(2) by (rule carries_encodes)
  from rpc_call_returns_remote_error [OF k this, where hn = "\<lambda>_. unary () (\<lambda>x. [AError (ErrorString ''boom'')])"
      and f = "\<lambda>x. [AError (ErrorString ''boom'')]" and ts = "[()]" and cl = idle_io and e = None
      and sv = "idle_io\<lparr>c_in := \<lparr>rd_buf = concat (map (frame_bytes byte_codec) [ACallHeader ''f'', ANil]), rd_end = None\<rparr>\<rparr>"]
  show ?thesis by (auto simp: idle_io_def)
qed

text \<open>
  C23: a call for a selector that no pattern of the server's mux matches: whatever the arguments, the caller gets
  the remote error \<^verbatim>\<open>not found\<close> with the selector in its path form.
\<close>

theorem rpc_call_not_found:
  assumes "carries C TCall (ACallHeader sel)" and "s = cleanSelector sel"
    and "carries C TResponse (AResponseHeader (Some (''not found: '' @ s)) False)" and "encodes C ANil"
    and "m (st root) s = None" and "\<forall>e \<in> set (es (st root)). \<not> prefix (pattern e) s"
    and "mux_prog st funcs root s = Some p" and "hn s = p"
    and "wr_fail (c_out sv) = None" and "c_in sv = \<lparr>rd_buf = frame_bytes C (ACallHeader sel) @ args, rd_end = e\<rparr>"
  shows "\<exists>sv1 response cl2. Server_respond C hn sv = Some sv1 \<and> wr_buf (c_out sv1) = wr_buf (c_out sv) @ response
    \<and> call_recv C ts (cl\<lparr>c_in := \<lparr>rd_buf = response, rd_end = e'\<rparr>\<rparr>)
        = Some (Some \<lparr>resp_error = Some (''not found: '' @ s), resp_continue = False, resp_values = []\<rparr>,
            Some (RemoteError (''not found: '' @ s)), cl2)"
proof -
  let ?x = "ErrorString (''not found: '' @ s)"
  let ?r = "concat (map (frame_bytes C) [AResponseHeader (Some (''not found: '' @ s)) False, ANil])"
  have "cleanSelector s = s" using pattern_ok_clean [OF cleanSelector_ok] assms(2) by simp
  then have "Match st root s = Some (HNil, [])"
    using Match_step [of s s st root] assms(5) lp.find_None [of s "es (st root)"] assms(6) by simp
  then have "mux_RespondRPC st root s = Some None" by (subst mux_RespondRPC.simps) (simp add: mux_Handler_def)
  then have p: "hn s = Return [AError ?x] (\<lambda>_. End)" using assms(7,8) by (simp add: mux_prog_def NotFoundHandler_def)
  let ?io = "sv\<lparr>c_in := \<lparr>rd_buf = args, rd_end = e\<rparr>\<rparr>"
  have "respond C [AError ?x] False (fresh_responder ?io) = (if c_closed sv then Some EOF else None,
      \<lparr>responded = True, hdr_error = Some (''not found: '' @ s), hdr_continue = False,
       ch = (out_frames C [AResponseHeader (Some (''not found: '' @ s)) False, ANil] ?io)\<lparr>c_closed := True\<rparr>\<rparr>)"
    using respond_ok [of C "[AError ?x]" "fresh_responder ?io" False] carries_encodes [OF assms(3)] assms(4,9)
    by (simp add: fresh_responder_def response_error_def response_values_def)
  then have "\<exists>sv1. Server_respond C hn sv = Some sv1 \<and> wr_buf (c_out sv1) = wr_buf (c_out sv) @ ?r"
    using Server_respond_ok [OF assms(1,10), of hn] p assms(2) by (simp add: io_Close_def)
  moreover have "c_in (cl\<lparr>c_in := \<lparr>rd_buf = ?r, rd_end = e'\<rparr>\<rparr>)
      = \<lparr>rd_buf = frame_bytes C (AResponseHeader (Some (''not found: '' @ s)) False) @ frame_bytes C ANil, rd_end = e'\<rparr>" by simp
  ultimately show ?thesis using call_recv_error [OF assms(3), of "cl\<lparr>c_in := \<lparr>rd_buf = ?r, rd_end = e'\<rparr>\<rparr>" _ e' ts] by fastforce
qed

theorem rpc_call_not_found_witness:
  "\<exists>p sv1 response cl2. mux_prog (\<lambda>_. sample_mux) (\<lambda>_ _. End) 0 ''/bar'' = Some p
     \<and> Server_respond byte_codec (\<lambda>_. p) (idle_io\<lparr>c_in := \<lparr>rd_buf = frame_bytes byte_codec (ACallHeader ''bar''), rd_end = None\<rparr>\<rparr>) = Some sv1
     \<and> wr_buf (c_out sv1) = response
     \<and> call_recv byte_codec [()] (idle_io\<lparr>c_in := \<lparr>rd_buf = response, rd_end = None\<rparr>\<rparr>)
       = Some (Some \<lparr>resp_error = Some ''not found: /bar'', resp_continue = False, resp_values = []\<rparr>, Some (RemoteError ''not found: /bar''), cl2)"
proof -
  have s: "''/bar'' = cleanSelector ''bar''" by (simp add: cleanSelector_def dots_to_slashes_def)
  have n: "m sample_mux ''/bar'' = None" "\<forall>e \<in> set (es sample_mux). \<not> prefix (pattern e) ''/bar''"
    by (simp_all add: sample_mux_m sample_mux_es)
  have "cleanSelector ''/bar'' = ''/bar''" by (simp add: cleanSelector_def dots_to_slashes_def)
  then have "Match (\<lambda>_. sample_mux) 0 ''/bar'' = Some (HNil, [])"
    using Match_step [of "''/bar''" "''/bar''" "\<lambda>_. sample_mux" 0] n lp.find_None [of "''/bar''" "es sample_mux"] by simp
  then have "mux_RespondRPC (\<lambda>_. sample_mux) 0 ''/bar'' = Some None" by (subst mux_RespondRPC.simps) (simp add: mux_Handler_def)
  then obtain p :: "(bytes, unit) prog" where p: "mux_prog (\<lambda>_. sample_mux) (\<lambda>_ _. End) 0 ''/bar'' = Some p" by (simp add: mux_prog_def)
  have k: "carries byte_codec TCall (ACallHeader ''bar'')"
    "carries byte_codec TResponse (AResponseHeader (Some (''not found: '' @ ''/bar'')) False)" "encodes byte_codec ANil"
    by (simp_all add: byte_codec_carries carries_encodes [where t = "TVar ()"])
  from rpc_call_not_found [OF k(1) s k(2,3), where st = "\<lambda>_. sample_mux" and root = 0 and funcs = "\<lambda>_ _. End" and p = p and hn = "\<lambda>_. p"
      and sv = "idle_io\<lparr>c_in := \<lparr>rd_buf = frame_bytes byte_codec (ACallHeader ''bar''), rd_end = None\<rparr>\<rparr>" and args = "[]" and e = None
      and cl = idle_io and e' = None and ts = "[()]"] n p
  show ?thesis by (auto simp: idle_io_def)
qed



end
