(* ===== verification/Mux_Teardown.thy ===== *)
theory Mux_Teardown
  imports Mux_Session
begin

text \<open>
  The end of a channel (\<^verbatim>\<open>Close\<close>, \<^verbatim>\<open>CloseWrite\<close> and the answer of \<^verbatim>\<open>handle\<close> to a close frame, \<^verbatim>\<open>src/mux/channel.go\<close>), seen from both peers. Each side of the
  system has its channel, its channel table and the frames it has sent that the other side's packet loop has not yet taken; the sides are numbered by a
  truth value. A method's frames are those whose bytes it writes. Data frames are sent only while the side has not sent its
  close frame; the root theory shows what a later one does.

  The lemmas show that closing is clean: whichever side closes first, or both at once, no frame ever arrives for a channel that is gone, which would
  end the whole session, and once the wires are empty both tables have given up the channel; and from every state in which one side has closed this point can be reached, where
  readers and writers no longer wait.
\<close>

section \<open>The system\<close>

record tsys =
  chn :: "bool \<Rightarrow> channel"
  chan_tab :: "bool \<Rightarrow> nat chanList"
  wire_out :: "bool \<Rightarrow> Message list"   \<comment> \<open>frames sent by this side and not yet taken by the other\<close>
  stray :: bool                   \<comment> \<open>a frame has arrived for a channel that is not in the table\<close>

text \<open>The writer on which a method writes its frames.\<close>

definition blank :: writer where
  "blank = \<lparr>wr_buf = [], wr_fail = None\<rparr>"

definition frames_in :: "Message list \<Rightarrow> writer \<Rightarrow> bool" where
  "frames_in ms w \<longleftrightarrow> list_all frame_ok ms \<and> w = \<lparr>wr_buf = concat (map Bytes ms), wr_fail = None\<rparr>"

definition emit :: "bool \<Rightarrow> channel \<Rightarrow> Message list \<Rightarrow> tsys \<Rightarrow> tsys" where
  "emit d ch ms s = s\<lparr>chn := (chn s)(d := ch), wire_out := (wire_out s)(d := wire_out s d @ ms)\<rparr>"

inductive tstep :: "tsys \<Rightarrow> tsys \<Rightarrow> bool" where
  close: "Close (chn s d) blank = (e, ch', w) \<Longrightarrow> frames_in ms w \<Longrightarrow> tstep s (emit d ch' ms s)"
| close_write: "CloseWrite (chn s d) blank = (e, ch', w) \<Longrightarrow> frames_in ms w \<Longrightarrow> tstep s (emit d ch' ms s)"
| read: "chan_Read k (chn s d) blank = Some (CDone b e ch' w) \<Longrightarrow> frames_in ms w \<Longrightarrow> tstep s (emit d ch' ms s)"
| chunk: "\<not> sentClose (chn s d) \<Longrightarrow>
    reserve (chan_min (maxRemotePayload (chn s d)) (length data)) (remoteWin (chn s d)) = Some r \<Longrightarrow>
    write_chunk r data n (chn s d) blank = More rest n' ch' w \<Longrightarrow> frames_in ms w \<Longrightarrow> tstep s (emit d ch' ms s)"
| deliver: "wire_out s (\<not> d) = m # ms \<Longrightarrow> chanList_getChan (localId (chn s d)) (chan_tab s d) = Some r \<Longrightarrow>
    handle m (chn s d) (chan_tab s d) blank = HRet e ch' cs w \<Longrightarrow> frames_in ms' w \<Longrightarrow>
    tstep s (emit d ch' ms' (s\<lparr>chan_tab := (chan_tab s)(d := cs), wire_out := (wire_out s)((\<not> d) := ms)\<rparr>))"
| lost: "wire_out s (\<not> d) = m # ms \<Longrightarrow> chanList_getChan (localId (chn s d)) (chan_tab s d) = None \<Longrightarrow>
    tstep s (s\<lparr>wire_out := (wire_out s)((\<not> d) := ms), stray := True\<rparr>)"

text \<open>Both channels are open and in their tables, and no frame is on its way.\<close>

definition established :: "tsys \<Rightarrow> bool" where
  "established s \<longleftrightarrow> (\<forall>d. chan_inv (chn s d) \<and> \<not> sentClose (chn s d) \<and> has_room (chan_tab s d)
     \<and> chanList_getChan (localId (chn s d)) (chan_tab s d) \<noteq> None \<and> wire_out s d = []) \<and> \<not> stray s"

definition gone :: "tsys \<Rightarrow> bool \<Rightarrow> bool" where
  "gone s d \<longleftrightarrow> chanList_getChan (localId (chn s d)) (chan_tab s d) = None"

section \<open>What the methods write\<close>

lemma Bytes_not_Nil [simp]: "Bytes m \<noteq> []"
  by (cases m) (simp_all add: OpenMessage_Bytes_def OpenConfirmMessage_Bytes_def OpenFailureMessage_Bytes_def
    WindowAdjustMessage_Bytes_def DataMessage_Bytes_def EOFMessage_Bytes_def CloseMessage_Bytes_def Let_def)

lemma frames_unique:
  assumes "list_all frame_ok xs" and "list_all frame_ok ys" and "concat (map Bytes xs) = concat (map Bytes ys)"
  shows "xs = ys"
  using assms
proof (induction xs arbitrary: ys)
  case (Cons x xs)
  from Cons.prems(3) obtain y ys' where ys: "ys = y # ys'" by (cases ys) auto
  with Cons.prems have "Bytes x @ concat (map Bytes xs) = Bytes y @ concat (map Bytes ys')" by simp
  from qmux.prefix_free [OF _ _ this] Cons.prems ys have "x = y" "concat (map Bytes xs) = concat (map Bytes ys')" by simp_all
  with Cons.IH [of ys'] Cons.prems ys show ?case by simp
next
  case Nil
  then show ?case by (cases ys) auto
qed

lemma frames_in_unique: "frames_in ms w \<Longrightarrow> frames_in ms' w \<Longrightarrow> ms' = ms"
  by (rule frames_unique) (simp_all add: frames_in_def)

lemma frames_in_blank [simp]: "frames_in ms blank \<longleftrightarrow> ms = []"
  using frames_in_unique [of "[]" blank ms] by (auto simp: frames_in_def blank_def)

text \<open>The frames of an open channel; the close frame comes last.\<close>

fun plain_frame :: "Message \<Rightarrow> bool" where
  "plain_frame (DataMessage _ _ _) = True"
| "plain_frame (EOFMessage _) = True"
| "plain_frame (WindowAdjustMessage _ _) = True"
| "plain_frame _ = False"

definition ends_close :: "Message list \<Rightarrow> bool" where
  "ends_close ms \<longleftrightarrow> (\<exists>ps cid. ms = ps @ [CloseMessage cid] \<and> list_all plain_frame ps)"

definition says :: "channel \<Rightarrow> Message list \<Rightarrow> channel \<Rightarrow> bool" where
  "says ch ms ch' \<longleftrightarrow> keeps ch ch' \<and> list_all frame_ok ms
     \<and> (if sentClose ch then ms = [] \<and> sentClose ch'
        else if sentClose ch' then ends_close ms else list_all plain_frame ms)"

lemma ends_close_simps [simp]:
  "\<not> ends_close []" "ends_close [CloseMessage cid]"
  "list_all plain_frame ps \<Longrightarrow> ends_close ms \<Longrightarrow> ends_close (ps @ ms)"
  by (auto simp: ends_close_def)

lemma ends_close_Cons: "ends_close (m # ms) \<longleftrightarrow> plain_frame m \<and> ends_close ms \<or> (\<exists>cid. m = CloseMessage cid) \<and> ms = []"
  by (cases ms) (auto simp: ends_close_def append_eq_Cons_conv Cons_eq_append_conv)

lemma send_says:
  assumes "send m ch blank = (e, ch', w)" and "frames_in ms w" and "plain_frame m \<or> (\<exists>cid. m = CloseMessage cid)" and "frame_ok m"
  shows "says ch ms ch'"
proof (cases "sentClose ch")
  case True
  with assms show ?thesis by (auto simp: says_def send_def)
next
  case False
  with assms(1) have w: "w = \<lparr>wr_buf = Bytes m, wr_fail = None\<rparr>"
    "ch' = ch\<lparr>sentClose := (case m of CloseMessage _ \<Rightarrow> True | _ \<Rightarrow> False)\<rparr>"
    using send_open [of ch blank m] by (simp_all add: blank_def)
  then have "ms = [m]" using frames_in_unique [of "[m]" w ms] assms(2,4) by (simp add: frames_in_def)
  with w False assms(3,4) send_keeps [OF assms(1)] show ?thesis by (cases m) (auto simp: says_def)
qed

lemma CloseWrite_says:
  assumes "CloseWrite ch blank = (e, ch', w)" and "frames_in ms w"
  shows "says ch ms ch'"
proof -
  have "says (ch\<lparr>sentEOF := True\<rparr>) ms ch'"
    by (rule send_says [OF _ assms(2)]) (use assms(1) in \<open>auto simp: CloseWrite_def frame_ok_def\<close>)
  moreover have "keeps ch ch'" using app_op_keeps [OF app_op.close_write [OF assms(1)]] .
  ultimately show ?thesis by (simp add: says_def)
qed

lemma chan_Read_says:
  assumes "chan_Read k ch blank = Some (CDone b e ch' w)" and "frames_in ms w"
  shows "says ch ms ch'"
proof -
  have k: "keeps ch ch'" using app_op_keeps [OF app_op.read_done [OF assms(1)]] .
  from assms(1) obtain d e0 p where r: "buffer_Read k (pending ch) = Some (RDone d e0 p)"
    and c: "(if length d > 0 then (case adjustWindow (of_nat (length d)) (ch\<lparr>pending := p\<rparr>) blank of
        (err, ch2, w2) \<Rightarrow> CDone d (if length d > 0 \<and> err = Some EOF then None else err) ch2 w2)
      else CDone d e0 (ch\<lparr>pending := p\<rparr>) blank) = CDone b e ch' w"
    by (cases "buffer_Read k (pending ch)"; cases "the (buffer_Read k (pending ch))") (auto simp: chan_Read_def Let_def)
  show ?thesis
  proof (cases "length d > 0")
    case True
    with c obtain err where "send (WindowAdjustMessage (remoteId ch) (of_nat (length d)))
        (ch\<lparr>pending := p, myWindow := myWindow ch + of_nat (length d)\<rparr>) blank = (err, ch', w)"
      by (auto simp: adjustWindow_def split: prod.splits)
    from send_says [OF this assms(2)] k show ?thesis by (simp add: says_def frame_ok_def)
  next
    case False
    with c assms(2) k show ?thesis by (auto simp: says_def)
  qed
qed

lemma write_chunk_says:
  assumes "write_chunk r data n ch blank = More rest n' ch' w" and "\<not> sentClose ch" and "frames_in ms w"
    and "reserve (chan_min (maxRemotePayload ch) (length data)) (remoteWin ch) = Some r"
  shows "says ch ms ch'"
proof -
  obtain space e rw where r: "r = (space, e, rw)" by (cases r)
  with sw.tk_Some [of _ "remoteWin ch" space e rw] assms(4) have "w_closed rw = w_closed (remoteWin ch)" by auto
  from write_chunk_channel [OF this, of space e data n blank] assms(1) r have k: "keeps ch ch'" "sentClose ch' = sentClose ch"
    by (auto simp: only_window_def keeps_remoteWin)
  let ?m = "data_frame (remoteId ch) (take (unat space) data)"
  have "length (take (unat space) data) < 2 ^ 32" using unat_lt_u32 [of space] by (simp add: min_less_iff_disj)
  then have ok: "frame_ok ?m" by (simp only: frame_ok_def data_frame_def unat_of_nat_u32 Message.case)
  from assms(1) r have "w = \<lparr>wr_buf = Bytes ?m, wr_fail = None\<rparr>"
    by (auto simp: write_chunk_def Let_def Encode_def blank_def go_simps split: option.splits)
  then have "ms = [?m]" using frames_in_unique [of "[?m]" w ms] assms(3) ok by (simp add: frames_in_def)
  with k ok assms(2) show ?thesis by (simp add: says_def data_frame_def)
qed

section \<open>The invariant\<close>

text \<open>
  One direction: while the receiving channel is in its table, the close frame is on its way exactly when the sender has sent it, and it is the
  last frame; afterwards nothing is on its way.
\<close>

definition dir_ok :: "channel \<Rightarrow> Message list \<Rightarrow> channel \<Rightarrow> bool \<Rightarrow> bool" where
  "dir_ok x ms y y_gone \<longleftrightarrow> list_all frame_ok ms
     \<and> (if y_gone then ms = [] \<and> sentClose x \<and> msg_closed y
        else \<not> msg_closed y \<and> (if sentClose x then ends_close ms else list_all plain_frame ms))"

definition tinv :: "tsys \<Rightarrow> bool" where
  "tinv s \<longleftrightarrow> \<not> stray s \<and> (\<forall>d. chan_inv (chn s d) \<and> has_room (chan_tab s d)
     \<and> dir_ok (chn s d) (wire_out s d) (chn s (\<not> d)) (gone s (\<not> d)))"

lemma tinvD:
  assumes "tinv s"
  shows "chan_inv (chn s d)" and "has_room (chan_tab s d)" and "dir_ok (chn s d) (wire_out s d) (chn s (\<not> d)) (gone s (\<not> d))"
    and "dir_ok (chn s (\<not> d)) (wire_out s (\<not> d)) (chn s d) (gone s d)"
  using assms by (auto simp: tinv_def dest: spec [of _ "\<not> d"])

text \<open>To show the invariant of a state it is enough to look at one side and the other.\<close>

lemma tinvI:
  assumes "\<not> stray s" and "chan_inv (chn s d)" and "chan_inv (chn s (\<not> d))" and "has_room (chan_tab s d)" and "has_room (chan_tab s (\<not> d))"
    and "dir_ok (chn s d) (wire_out s d) (chn s (\<not> d)) (gone s (\<not> d))" and "dir_ok (chn s (\<not> d)) (wire_out s (\<not> d)) (chn s d) (gone s d)"
  shows "tinv s"
proof -
  have "chan_inv (chn s e) \<and> has_room (chan_tab s e) \<and> dir_ok (chn s e) (wire_out s e) (chn s (\<not> e)) (gone s (\<not> e))" for e
    using assms(2-) by (cases d; cases e) simp_all
  with assms(1) show ?thesis by (simp add: tinv_def)
qed

lemma closed_sent: "chan_inv ch \<Longrightarrow> msg_closed ch \<Longrightarrow> sentClose ch \<and> closed (pending ch) \<and> w_closed (remoteWin ch)"
  by (simp add: chan_inv_def)

lemma established_tinv: "established s \<Longrightarrow> tinv s"
  by (auto simp: established_def tinv_def dir_ok_def gone_def chan_inv_def)

lemma emit_tinv:
  assumes "tinv s" and "says (chn s d) ms ch'"
  shows "tinv (emit d ch' ms s)"
proof (rule tinvI [of _ d])
  note D = tinvD [OF assms(1)]
  have k: "keeps (chn s d) ch'" using assms(2) by (simp add: says_def)
  let ?s = "emit d ch' ms s"
  show "\<not> stray ?s" "has_room (chan_tab ?s d)" "has_room (chan_tab ?s (\<not> d))" "chan_inv (chn ?s (\<not> d))"
    using assms(1) D by (simp_all add: emit_def tinv_def)
  show "chan_inv (chn ?s d)" using k D(1) by (simp add: emit_def keeps_def)
  show "dir_ok (chn ?s d) (wire_out ?s d) (chn ?s (\<not> d)) (gone ?s (\<not> d))"
    using D(3) [of d] assms(2) by (auto simp: dir_ok_def emit_def gone_def says_def split: if_splits)
  show "dir_ok (chn ?s (\<not> d)) (wire_out ?s (\<not> d)) (chn ?s d) (gone ?s d)"
    using D(4) [of d] k by (simp add: dir_ok_def emit_def gone_def keeps_def)
qed

text \<open>A frame that is not the close frame changes neither the table nor the state of the channel's end.\<close>

lemma deliver_plain:
  assumes "plain_frame m" and "handle m ch cs blank = HRet e ch' cs' w"
  shows "cs' = cs \<and> w = blank \<and> localId ch' = localId ch \<and> msg_closed ch' = msg_closed ch \<and> sentClose ch' = sentClose ch"
  using assms by (cases m) (auto simp: handle_def handleData_def split: prod.splits if_splits)

lemma deliver_close:
  assumes "handle (CloseMessage cid) ch cs blank = HRet e ch' cs' w" and "frames_in ms w"
  obtains ch1 where "says ch ms ch1" and "sentClose ch1" and "chan_close ch1 = Some ch'" and "cs' = chanList_remove (localId ch) cs"
    and "e = None"
proof -
  obtain e1 ch1 w1 where s: "send (CloseMessage (remoteId ch)) ch blank = (e1, ch1, w1)"
    by (cases "send (CloseMessage (remoteId ch)) ch blank")
  with assms have *: "chan_close ch1 = Some ch'" "cs' = chanList_remove (localId ch) cs" "w1 = w" "e = None"
    by (auto simp: handle_def split: option.splits)
  have "says ch ms ch1" by (rule send_says [OF s]) (use assms(2) * in \<open>auto simp: frame_ok_def\<close>)
  moreover have "sentClose ch1" using s by (cases "sentClose ch") (auto simp: send_def Let_def split: prod.splits)
  ultimately show ?thesis using * that by blast
qed

lemma deliver_tinv:
  assumes "tinv s" and "wire_out s (\<not> d) = m # ms" and "\<not> gone s d"
    and "handle m (chn s d) (chan_tab s d) blank = HRet e ch' cs w" and "frames_in ms' w"
  shows "tinv (emit d ch' ms' (s\<lparr>chan_tab := (chan_tab s)(d := cs), wire_out := (wire_out s)((\<not> d) := ms)\<rparr>))"
proof -
  let ?s = "emit d ch' ms' (s\<lparr>chan_tab := (chan_tab s)(d := cs), wire_out := (wire_out s)((\<not> d) := ms)\<rparr>)"
  note D = tinvD [OF assms(1)]
  from D(4) [of d] assms(2,3) have ok: "frame_ok m" "\<not> msg_closed (chn s d)" "list_all frame_ok ms"
    and m: "if sentClose (chn s (\<not> d)) then ends_close (m # ms) else list_all plain_frame (m # ms)" by (auto simp: dir_ok_def)
  have inv: "chan_inv ch'" using handle_inv [OF D(1) ok(1,2), of "chan_tab s d" blank] assms(4) by simp
  from m consider (plain_frame) "plain_frame m" "if sentClose (chn s (\<not> d)) then ends_close ms else list_all plain_frame ms"
    | (close) cid where "m = CloseMessage cid" "ms = []" "sentClose (chn s (\<not> d))"
    by (auto simp: ends_close_Cons split: if_splits)
  then show ?thesis
  proof cases
    case plain_frame
    from deliver_plain [OF plain_frame(1) assms(4)] assms(5)
    have p: "cs = chan_tab s d" "ms' = []" "localId ch' = localId (chn s d)" "\<not> msg_closed ch'" "sentClose ch' = sentClose (chn s d)"
      using ok(2) by auto
    show ?thesis
      by (rule tinvI [of _ d]) (use D [of d] D(1,2) [of "\<not> d"] assms(1,3) p inv ok plain_frame(2) in
        \<open>auto simp: emit_def gone_def dir_ok_def tinv_def split: if_splits\<close>)
  next
    case close
    from deliver_close [OF _ assms(5)] assms(4) close(1) obtain ch1 where c: "says (chn s d) ms' ch1" "sentClose ch1"
      "chan_close ch1 = Some ch'" "cs = chanList_remove (localId (chn s d)) (chan_tab s d)" by metis
    have ch': "localId ch' = localId (chn s d)" "msg_closed ch'" "sentClose ch'"
      using c by (auto simp: chan_close_def says_def keeps_def Let_def split: if_splits)
    have cs: "has_room cs" "chanList_getChan (localId (chn s d)) cs = None"
      using c(4) ct.room_rem [OF D(2)] ct.get_rem [OF D(2)] by simp_all
    have "dir_ok ch' (wire_out s d @ ms') (chn s (\<not> d)) (gone s (\<not> d))"
      using D(3) [of d] c(1,2) ch'(3) by (auto simp: dir_ok_def says_def split: if_splits)
    then show ?thesis
      by (intro tinvI [of _ d]) (use D(1,2) [of "\<not> d"] assms(1) close inv ch' cs in
        \<open>auto simp: emit_def gone_def dir_ok_def tinv_def\<close>)
  qed
qed

lemma tstep_tinv:
  assumes "tstep s s'" and "tinv s"
  shows "tinv s'"
  using assms(1)
proof (cases rule: tstep.cases)
  case (close d e ch' w ms)
  have "says (chn s d) ms ch'"
    by (rule send_says [OF _ close(3)]) (use close(2) in \<open>auto simp: Close_def frame_ok_def\<close>)
  with close(1) emit_tinv [OF assms(2)] show ?thesis by simp
next
  case (close_write d e ch' w ms)
  with emit_tinv [OF assms(2) CloseWrite_says] show ?thesis by simp
next
  case (read k d b e ch' w ms)
  with emit_tinv [OF assms(2) chan_Read_says] show ?thesis by simp
next
  case (chunk d data r n rest n' ch' w ms)
  with emit_tinv [OF assms(2) write_chunk_says] show ?thesis by simp
next
  case (deliver d m ms r e ch' cs w ms')
  with deliver_tinv [OF assms(2) deliver(2) _ deliver(4,5)] show ?thesis by (simp add: gone_def)
next
  case (lost d m ms)
  with tinvD(4) [OF assms(2), of d] show ?thesis by (simp add: dir_ok_def gone_def)
qed

lemma tsteps_tinv: "tstep\<^sup>*\<^sup>* s s' \<Longrightarrow> tinv s \<Longrightarrow> tinv s'"
  by (induction rule: rtranclp_induct) (auto intro: tstep_tinv)

section \<open>Both sides let go\<close>

lemma quiet_gone:
  assumes "tinv s" and "\<And>d. wire_out s d = []" and "sentClose (chn s d0)"
  shows "gone s d"
proof -
  have *: "gone s (\<not> d)" if "sentClose (chn s d)" for d
    using tinvD(3) [OF assms(1), of d] that assms(2) by (auto simp: dir_ok_def split: if_splits)
  have "sentClose (chn s d)" if "gone s d" for d
    using tinvD(4) [OF assms(1), of d] that closed_sent [OF tinvD(1) [OF assms(1)]] by (auto simp: dir_ok_def)
  with * have "gone s (\<not> d0)" "gone s d0" using assms(3) by fastforce+
  then show ?thesis by (cases d; cases d0) simp_all
qed

text \<open>How much is left to deliver: the frames on their way, and a close frame for each side that has not sent one.\<close>

definition pending_frames :: "tsys \<Rightarrow> nat" where
  "pending_frames s = (\<Sum>d \<in> UNIV. length (wire_out s d) + (if sentClose (chn s d) then 0 else 2))"

lemma pending_frames_sides:
  "pending_frames s = length (wire_out s d) + (if sentClose (chn s d) then 0 else 2)
     + (length (wire_out s (\<not> d)) + (if sentClose (chn s (\<not> d)) then 0 else 2))"
  by (cases d) (simp_all add: pending_frames_def UNIV_bool)

lemma handle_returns_frames:
  assumes "plain_frame m \<or> (\<exists>cid. m = CloseMessage cid)" and "\<not> msg_closed ch"
  shows "\<exists>e ch' cs' w ms. handle m ch cs blank = HRet e ch' cs' w \<and> frames_in ms w
    \<and> length ms + (if sentClose ch' then 0 else 2) \<le> (if sentClose ch then 0 else 2) \<and> (sentClose ch \<longrightarrow> sentClose ch')"
proof (cases "plain_frame m")
  case True
  then have "\<exists>e ch'. handle m ch cs blank = HRet e ch' cs blank"
    by (cases m) (auto simp: handle_def split: prod.splits)
  then obtain e ch' where "handle m ch cs blank = HRet e ch' cs blank" by blast
  with deliver_plain [OF True this] show ?thesis by (intro exI [of _ e] exI [of _ ch'] exI [of _ cs] exI [of _ blank]) auto
next
  case False
  with assms(1) obtain cid where m: "m = CloseMessage cid" by blast
  show ?thesis
  proof (cases "sentClose ch")
    case True
    with assms(2) m show ?thesis by (auto simp: handle_def send_def chan_close_def Let_def)
  next
    case False
    have "frames_in [CloseMessage (remoteId ch)] \<lparr>wr_buf = Bytes (CloseMessage (remoteId ch)), wr_fail = None\<rparr>"
      by (simp add: frames_in_def frame_ok_def)
    with assms(2) m False send_open [of ch blank "CloseMessage (remoteId ch)"] show ?thesis
      by (fastforce simp: handle_def chan_close_def Let_def blank_def)
  qed
qed

lemma deliver_progress:
  assumes "tinv s" and "wire_out s d \<noteq> []"
  shows "\<exists>s'. tstep s s' \<and> pending_frames s' < pending_frames s \<and> (\<forall>d. sentClose (chn s d) \<longrightarrow> sentClose (chn s' d))"
proof -
  obtain m ms where o: "wire_out s d = m # ms" using assms(2) by (cases "wire_out s d") auto
  let ?d = "\<not> d"
  note D = tinvD(3) [OF assms(1), of d]
  from D o have g: "\<not> gone s ?d" and c: "\<not> msg_closed (chn s ?d)" and m: "plain_frame m \<or> (\<exists>cid. m = CloseMessage cid)"
    by (auto simp: dir_ok_def ends_close_Cons split: if_splits)
  from handle_returns_frames [OF m c, of "chan_tab s ?d"] obtain e ch' cs w ms' where
    h: "handle m (chn s ?d) (chan_tab s ?d) blank = HRet e ch' cs w" "frames_in ms' w"
    "length ms' + (if sentClose ch' then 0 else 2) \<le> (if sentClose (chn s ?d) then 0 else (2 :: nat))" "sentClose (chn s ?d) \<longrightarrow> sentClose ch'"
    by blast
  from g obtain r where r: "chanList_getChan (localId (chn s ?d)) (chan_tab s ?d) = Some r" by (auto simp: gone_def)
  let ?s = "emit ?d ch' ms' (s\<lparr>chan_tab := (chan_tab s)(?d := cs), wire_out := (wire_out s)((\<not> ?d) := ms)\<rparr>)"
  have "tstep s ?s" by (rule tstep.deliver [OF _ r h(1,2)]) (use o in simp)
  moreover have "pending_frames ?s < pending_frames s"
    using o h(3) by (simp add: pending_frames_sides [of _ d] emit_def)
  moreover have "sentClose (chn s d') \<longrightarrow> sentClose (chn ?s d')" for d' using h(4) by (simp add: emit_def)
  ultimately show ?thesis by blast
qed

lemma teardown_finishes:
  assumes "tinv s" and "sentClose (chn s d0)"
  shows "\<exists>s'. tstep\<^sup>*\<^sup>* s s' \<and> tinv s' \<and> (\<forall>d. gone s' d)"
  using assms
proof (induction "pending_frames s" arbitrary: s rule: less_induct)
  case less
  show ?case
  proof (cases "\<forall>d. wire_out s d = []")
    case True
    with quiet_gone [OF less.prems(1) _ less.prems(2)] less.prems(1) show ?thesis by blast
  next
    case False
    then obtain d where "wire_out s d \<noteq> []" by blast
    from deliver_progress [OF less.prems(1) this] obtain s1 where
      s1: "tstep s s1" "pending_frames s1 < pending_frames s" "sentClose (chn s1 d0)" using less.prems(2) by blast
    from less.hyps [OF s1(2) tstep_tinv [OF s1(1) less.prems(1)] s1(3)] s1(1) show ?thesis
      by (meson converse_rtranclp_into_rtranclp)
  qed
qed

lemma gone_closed:
  assumes "tinv s" and "gone s d"
  shows "msg_closed (chn s d) \<and> closed (pending (chn s d)) \<and> w_closed (remoteWin (chn s d))"
  using tinvD(4) [OF assms(1), of d] assms(2) closed_sent [OF tinvD(1) [OF assms(1), of d]] by (auto simp: dir_ok_def)

lemma chan_Read_EOF:
  assumes "chan_inv ch" and "closed (pending ch)" and "contents (pending ch) = []" and "k \<noteq> 0"
  shows "\<exists>ch'. chan_Read k ch w = Some (CDone [] (Some EOF) ch' w)"
proof -
  from assms(1) have "buffer_inv (pending ch)" by (simp add: chan_inv_def)
  then show ?thesis
    by (cases rule: bq.rd_cases [where k = k]) (use assms in \<open>auto simp: chan_Read_def\<close>)
qed

lemma reserve_closed: "w_closed w \<Longrightarrow> \<exists>n' w'. reserve n w = Some (n', Some EOF, w')"
  by (simp add: reserve_def reserve_wake_def reserve_enter_def Let_def)

section \<open>Properties\<close>

text \<open>A pair of channels for the witnesses.\<close>

definition two_channels :: tsys where
  "two_channels = \<lparr>chn = (\<lambda>_. sample_channel\<lparr>localId := 0, remoteId := 0\<rparr>), chan_tab = (\<lambda>_. [Some 0]), wire_out = (\<lambda>_. []), stray = False\<rparr>"

lemma two_channels_established: "established two_channels"
  using sample_channel_inv
  by (simp add: established_def two_channels_def chan_inv_def sample_channel_def has_room_def chanList_getChan_def)

lemma two_channels_close:
  "\<exists>s. tstep two_channels s \<and> sentClose (chn s True) \<and> wire_out s True = [CloseMessage 0]"
proof -
  let ?ch = "sample_channel\<lparr>localId := 0, remoteId := 0\<rparr>"
  have "Close ?ch blank = (None, ?ch\<lparr>sentClose := True\<rparr>, \<lparr>wr_buf = Bytes (CloseMessage 0), wr_fail = None\<rparr>)"
    using send_open [of ?ch blank "CloseMessage 0"] by (simp add: Close_def blank_def sample_channel_def)
  moreover have "frames_in [CloseMessage 0] \<lparr>wr_buf = Bytes (CloseMessage 0), wr_fail = None\<rparr>"
    by (simp add: frames_in_def frame_ok_def)
  ultimately have "tstep two_channels (emit True (?ch\<lparr>sentClose := True\<rparr>) [CloseMessage 0] two_channels)"
    using tstep.close [of two_channels True] by (simp add: two_channels_def)
  then show ?thesis by (intro exI conjI) (assumption, simp_all add: emit_def two_channels_def)
qed

text \<open>
  C7: closing a channel is clean. In every interleaving of \<^verbatim>\<open>Close\<close> and \<^verbatim>\<open>CloseWrite\<close> from either side or both, reads, data sent before the side's close frame, and the two
  packet loops: no frame ever reaches a peer that has already removed the channel (which would end its session). Each close frame is the last frame of its
  side, and when no frame is on its way after a side has closed, both tables have given up the channel.
\<close>

theorem teardown_clean:
  assumes "established s0" and "tstep\<^sup>*\<^sup>* s0 s"
  shows "\<not> stray s
    \<and> (\<forall>d ms cid. wire_out s d = ms @ [CloseMessage cid] \<longrightarrow> sentClose (chn s d) \<and> list_all plain_frame ms)
    \<and> ((\<forall>d. wire_out s d = []) \<longrightarrow> (\<exists>d. sentClose (chn s d)) \<longrightarrow>
         (\<forall>d. chanList_getChan (localId (chn s d)) (chan_tab s d) = None))"
proof -
  have inv: "tinv s" by (rule tsteps_tinv [OF assms(2) established_tinv [OF assms(1)]])
  have "sentClose (chn s d) \<and> list_all plain_frame ms" if "wire_out s d = ms @ [CloseMessage cid]" for d ms cid
    using tinvD(3) [OF inv, of d] that by (auto simp: dir_ok_def ends_close_def split: if_splits)
  moreover have "chanList_getChan (localId (chn s d)) (chan_tab s d) = None"
    if "\<forall>d. wire_out s d = []" "sentClose (chn s d0)" for d d0
    using quiet_gone [OF inv _ that(2)] that(1) by (simp add: gone_def)
  ultimately show ?thesis using inv by (auto simp: tinv_def)
qed

theorem teardown_clean_witness:
  "\<exists>s. established two_channels \<and> tstep two_channels s \<and> wire_out s True = [CloseMessage 0] \<and> \<not> stray s"
proof -
  from two_channels_close obtain s where s: "tstep two_channels s" "wire_out s True = [CloseMessage 0]" by blast
  from teardown_clean [OF two_channels_established, of s] s two_channels_established show ?thesis by blast
qed



end
