(* ===== verification/Rpc_Cancel.thy ===== *)
theory Rpc_Cancel
  imports Rpc_Call Mux_Teardown
begin

text \<open>
  The cancellation of a call (\<^verbatim>\<open>Client.Call\<close>, \<^verbatim>\<open>src/rpc/client.go\<close>) down to the frames of its channel. While \<^verbatim>\<open>call\<close> runs, a second goroutine waits for the end of the context and then
  closes the channel. The bytes that \<^verbatim>\<open>call\<close> can read from its qmux channel are the stream \<open>chan_in\<close>: what the channel has buffered, and \<^verbatim>\<open>io.EOF\<close> behind it
  once the buffer is closed.

  The lemmas show what the comment in \<^verbatim>\<open>Client.Call\<close> calls aborting the operation: closing wakes nobody up on the caller's own side, but when the peer answers the close
  frame the call returns, with the error of the context.
\<close>

section \<open>The watching goroutine\<close>

text \<open>Which case of the select is taken: the context has ended, or the call has.\<close>

datatype watch_case = CtxDone | CallDone

definition watch :: "watch_case \<Rightarrow> channel \<Rightarrow> writer \<Rightarrow> channel \<times> writer" where
  "watch c cn w = (case c of CtxDone \<Rightarrow> (case Close cn w of (_, ch1, w1) \<Rightarrow> (ch1, w1)) | CallDone \<Rightarrow> (cn, w))"

definition chan_in :: "channel \<Rightarrow> reader" where
  "chan_in cn = \<lparr>rd_buf = contents (pending cn), rd_end = (if closed (pending cn) then Some EOF else None)\<rparr>"

definition call_io :: "channel \<Rightarrow> chan_io" where
  "call_io cn = \<lparr>c_in = chan_in cn, c_out = \<lparr>wr_buf = [], wr_fail = None\<rparr>, c_eof = sentEOF cn, c_closed = sentClose cn\<rparr>"

text \<open>The rest of a call that has sent its request, on a channel: the response, and the check of the context.\<close>

definition Call_finish :: "('d, 't) codec \<Rightarrow> 't list \<Rightarrow> go_error option \<Rightarrow> channel
    \<Rightarrow> ('d response option \<times> call_error option \<times> chan_io) option" where
  "Call_finish C replies ctx_err cn =
     map_option (Client_Call ctx_err) (call_recv C replies (call_io cn))"

section \<open>Streams that have ended\<close>

lemma ReadFull_ended:
  assumes "rd_end r \<noteq> None"
  shows "case ReadFull n r of RdBlock \<Rightarrow> False | RdErr e r1 \<Rightarrow> rd_end r1 = rd_end r | RdOk b r1 \<Rightarrow> rd_end r1 = rd_end r"
  using assms by (auto simp: ReadFull_def split: option.splits)

lemma frame_Decode_ended:
  assumes "rd_end r \<noteq> None"
  shows "case frame_Decode C t r of RdBlock \<Rightarrow> False | RdErr e r1 \<Rightarrow> rd_end r1 = rd_end r | RdOk v r1 \<Rightarrow> rd_end r1 = rd_end r"
proof (cases "ReadFull 4 r")
  case (RdOk p r1)
  with ReadFull_ended [OF assms, of 4] have r1: "rd_end r1 = rd_end r" by simp
  with ReadFull_ended [of r1 "unat (hd (split_u32s p))"] assms RdOk show ?thesis
    by (auto simp: frame_Decode_def Let_def split: rd_result.splits sum.splits)
qed (use ReadFull_ended [OF assms, of 4] in \<open>auto simp: frame_Decode_def\<close>)

lemma decode_replies_ended: "rd_end r \<noteq> None \<Longrightarrow> decode_replies C ts r \<noteq> None"
proof (induction ts arbitrary: r)
  case (Cons t ts)
  show ?case
  proof (cases "frame_Decode C (TVar t) r")
    case (RdOk v r1)
    with frame_Decode_ended [OF Cons.prems, of C "TVar t"] Cons.prems have "rd_end r1 \<noteq> None" by simp
    from Cons.IH [OF this] RdOk show ?thesis by simp
  qed (use frame_Decode_ended [OF Cons.prems, of C "TVar t"] in auto)
qed simp

lemma call_recv_ended:
  assumes "rd_end (c_in io) \<noteq> None"
  shows "call_recv C ts io \<noteq> None"
proof (cases "frame_Decode C TResponse (c_in io)")
  case (RdOk v rd)
  with frame_Decode_ended [OF assms, of C TResponse] assms have rd: "rd_end rd \<noteq> None" by simp
  with frame_Decode_ended [OF rd, of C TDiscard] decode_replies_ended [OF rd, of C ts] RdOk show ?thesis
    by (cases "response_of v") (auto simp: call_recv_def Let_def split: option.splits rd_result.splits)
qed (use frame_Decode_ended [OF assms, of C TResponse] in \<open>auto simp: call_recv_def\<close>)

text \<open>Whether a call waits depends only on the stream it reads.\<close>

lemma call_recv_waits:
  "c_in io = c_in io' \<Longrightarrow> call_recv C ts io = None \<longleftrightarrow> call_recv C ts io' = None"
  by (cases "frame_Decode C TResponse (c_in io)") (auto simp: call_recv_def Let_def split: rd_result.splits option.splits prod.splits)

lemma Client_Call_error: "case Client_Call (Some e) res of (resp, err, io) \<Rightarrow> err = Some (CErr e)"
  by (auto simp: Client_Call_def split: prod.splits)

section \<open>Properties\<close>

lemma watch_step:
  assumes "watch c (chn s d) blank = (ch', w)" and "frames_in ms w" and "c = CtxDone"
  shows "tstep s (emit d ch' ms s)"
proof -
  obtain e where "Close (chn s d) blank = (e, ch', w)" using assms(1,3) by (auto simp: watch_def split: prod.splits)
  then show ?thesis using assms(2) by (rule tstep.close)
qed

lemma watch_sent: "watch CtxDone cn blank = (ch', w) \<Longrightarrow> sentClose ch' \<and> chan_in ch' = chan_in cn"
  by (auto simp: watch_def Close_def send_def chan_in_def Let_def split: prod.splits if_splits)

text \<open>
  C24: a cancelled call. When the context of a call ends, the watching goroutine closes the call's channel. This does not wake up the caller: what it can read is unchanged, so a call that was waiting for
  its response still waits. But the peer's packet loop answers the close frame, and from there the call can always come to its end: it then returns the error of the context, whatever part of a response has arrived.
\<close>

theorem cancelled_call_returns:
  assumes "established s0" and "tstep\<^sup>*\<^sup>* s0 s" and "watch CtxDone (chn s d) blank = (ch', w)" and "frames_in ms w"
  shows "(Call_finish C ts (Some e) ch' = None \<longleftrightarrow> Call_finish C ts (Some e) (chn s d) = None)
    \<and> (\<exists>s' resp io. tstep\<^sup>*\<^sup>* (emit d ch' ms s) s' \<and> \<not> stray s' \<and> Call_finish C ts (Some e) (chn s' d) = Some (resp, Some (CErr e), io))"
proof
  show "Call_finish C ts (Some e) ch' = None \<longleftrightarrow> Call_finish C ts (Some e) (chn s d) = None"
    unfolding Call_finish_def option.map_disc_iff by (rule call_recv_waits) (use watch_sent [OF assms(3)] in \<open>simp add: call_io_def\<close>)
  have inv: "tinv (emit d ch' ms s)"
    by (rule tstep_tinv [OF watch_step [OF assms(3,4) refl] tsteps_tinv [OF assms(2) established_tinv [OF assms(1)]]])
  moreover have "sentClose (chn (emit d ch' ms s) d)" using watch_sent [OF assms(3)] by (simp add: emit_def)
  ultimately obtain s' where s': "tstep\<^sup>*\<^sup>* (emit d ch' ms s) s'" "tinv s'" "gone s' d" using teardown_finishes by blast
  have "rd_end (c_in (call_io (chn s' d))) \<noteq> None" using gone_closed [OF s'(2,3)] by (simp add: chan_in_def call_io_def)
  from call_recv_ended [OF this, of C ts] obtain res where "call_recv C ts (call_io (chn s' d)) = Some res" by blast
  with Client_Call_error [of e res] obtain resp io where "Call_finish C ts (Some e) (chn s' d) = Some (resp, Some (CErr e), io)"
    by (cases "Client_Call (Some e) res") (auto simp: Call_finish_def)
  with s'(1,2) show "\<exists>s' resp io. tstep\<^sup>*\<^sup>* (emit d ch' ms s) s' \<and> \<not> stray s'
      \<and> Call_finish C ts (Some e) (chn s' d) = Some (resp, Some (CErr e), io)" unfolding tinv_def by blast
qed

theorem cancelled_call_returns_witness:
  "\<exists>ch' w s' resp io. watch CtxDone (chn two_channels True) blank = (ch', w) \<and> Call_finish byte_codec [()] (Some Canceled) ch' = None
     \<and> tstep\<^sup>*\<^sup>* (emit True ch' [CloseMessage 0] two_channels) s' \<and> Call_finish byte_codec [()] (Some Canceled) (chn s' True) = Some (resp, Some (CErr Canceled), io)"
proof -
  let ?ch = "sample_channel\<lparr>localId := 0, remoteId := 0\<rparr>"
  have w: "watch CtxDone (chn two_channels True) blank = (?ch\<lparr>sentClose := True\<rparr>, \<lparr>wr_buf = Bytes (CloseMessage 0), wr_fail = None\<rparr>)"
    using send_open [of ?ch blank "CloseMessage 0"] by (simp add: watch_def Close_def blank_def sample_channel_def two_channels_def)
  have f: "frames_in [CloseMessage 0] \<lparr>wr_buf = Bytes (CloseMessage 0), wr_fail = None\<rparr>"
    by (simp add: frames_in_def frame_ok_def)
  have "Call_finish byte_codec [()] (Some Canceled) (chn two_channels True) = None"
    by (simp add: Call_finish_def call_io_def call_recv_def frame_Decode_def ReadFull_def chan_in_def two_channels_def sample_channel_def)
  with cancelled_call_returns [OF two_channels_established rtranclp.rtrancl_refl w f, of byte_codec "[()]" Canceled] w
  show ?thesis by blast
qed

end
