(* ===== verification/Cbor_Mux.thy ===== *)
theory Cbor_Mux
  imports Mux_Buffer Mux_ChanList "HOL-Library.AList"
begin

text \<open>
  The experimental multiplexer over CBOR frames (\<^verbatim>\<open>src/x/cbor/mux\<close>): the same protocol as \<^verbatim>\<open>src/mux\<close>
  without flow control. Its receive buffer (\<^verbatim>\<open>buffer.go\<close>) is line by line the code of \<^verbatim>\<open>src/mux/util_buffer.go\<close>, whose model in \<^verbatim>\<open>Mux_Buffer\<close> it shares. The CBOR library is a
  parameter: \<open>E f w\<close> is what \<^verbatim>\<open>enc.Encode(f)\<close> does to the transport \<open>w\<close> and the error it returns, and the result of
  \<^verbatim>\<open>dec.Decode(&f)\<close> is an argument of \<^verbatim>\<open>onePacket\<close>. The Go map of channels is an association
  list (its order, which Go leaves open, matters to nothing here).

  The Go channel \<^verbatim>\<open>frames\<close> has no buffer: a send waits for the receive of \<^verbatim>\<open>Open\<close>. The loop
  of the session is split there and where it offers a channel to \<^verbatim>\<open>Accept\<close>, as in \<^verbatim>\<open>Mux_Session\<close>.
  The map is a channel table and the session a registry in the sense of \<^verbatim>\<open>Mux_ChanList\<close>, so the same lemmas
  show that the session never panics. Two properties show where it falls short.
\<close>

section \<open>Frames\<close>

definition channelOpen :: u8 where "channelOpen = 100"
definition channelOpenConfirm :: u8 where "channelOpenConfirm = 101"
definition channelOpenFailure :: u8 where "channelOpenFailure = 102"
definition channelData :: u8 where "channelData = 103"
definition channelEOF :: u8 where "channelEOF = 104"
definition channelClose :: u8 where "channelClose = 105"

record Frame =
  F_Type :: u8
  F_ChannelID :: u32
  F_SenderID :: u32
  F_Data :: bytes

text \<open>\<^verbatim>\<open>fmt.Sprintf("%v", f)\<close>, with the empty struct of the blank field first.\<close>

fun show_bytes :: "bytes \<Rightarrow> string" where
  "show_bytes [] = []"
| "show_bytes [b] = show_word b"
| "show_bytes (b # bs) = show_word b @ '' '' @ show_bytes bs"

definition show_Frame :: "Frame \<Rightarrow> string" where
  "show_Frame f = ''{{} '' @ show_word (F_Type f) @ '' '' @ show_word (F_ChannelID f) @ '' ''
     @ show_word (F_SenderID f) @ '' ['' @ show_bytes (F_Data f) @ '']}''"

definition control :: "u8 \<Rightarrow> u32 \<Rightarrow> u32 \<Rightarrow> Frame" where
  "control t cid sid = \<lparr>F_Type = t, F_ChannelID = cid, F_SenderID = sid, F_Data = []\<rparr>"

section \<open>The receive buffer\<close>

definition cbor_newBuffer :: buffer where [simp]: "cbor_newBuffer = newBuffer"

definition cbor_buffer_write :: "bytes \<Rightarrow> buffer \<Rightarrow> buffer" where [simp]: "cbor_buffer_write = buffer_write"

definition cbor_buffer_eof :: "buffer \<Rightarrow> buffer" where [simp]: "cbor_buffer_eof = buffer_eof"

definition cbor_buffer_Read :: "nat \<Rightarrow> buffer \<Rightarrow> buffer read_result option" where [simp]: "cbor_buffer_Read = buffer_Read"

section \<open>Channels\<close>

record cbor_channel =
  k_localId :: u32
  k_remoteId :: u32
  frames_closed :: bool
  k_sentEOF :: bool
  k_pending :: buffer
  k_sentClose :: bool

type_synonym 'w encoder = "Frame \<Rightarrow> 'w \<Rightarrow> go_error option \<times> 'w"

definition cbor_send :: "'w encoder \<Rightarrow> Frame \<Rightarrow> cbor_channel \<Rightarrow> 'w \<Rightarrow> go_error option \<times> cbor_channel \<times> 'w" where
  "cbor_send E f ch w =
     (if k_sentClose ch then (Some EOF, ch, w)
      else
        (let ch1 = (if F_Type f = channelClose then ch\<lparr>k_sentClose := True\<rparr> else ch);
             (err, w1) = E f w
         in (err, ch1, w1)))"

definition cbor_CloseWrite :: "'w encoder \<Rightarrow> cbor_channel \<Rightarrow> 'w \<Rightarrow> go_error option \<times> cbor_channel \<times> 'w" where
  "cbor_CloseWrite E ch w = cbor_send E (control channelEOF (k_remoteId ch) 0) (ch\<lparr>k_sentEOF := True\<rparr>) w"

definition cbor_Close :: "'w encoder \<Rightarrow> cbor_channel \<Rightarrow> 'w \<Rightarrow> go_error option \<times> cbor_channel \<times> 'w" where
  "cbor_Close E ch w = cbor_send E (control channelClose (k_remoteId ch) 0) ch w"

text \<open>The named result \<^verbatim>\<open>n\<close> is never assigned.\<close>

definition cbor_Write :: "'w encoder \<Rightarrow> bytes \<Rightarrow> cbor_channel \<Rightarrow> 'w \<Rightarrow> nat \<times> go_error option \<times> 'w" where
  "cbor_Write E data ch w =
     (if k_sentEOF ch then (0, Some EOF, w)
      else
        (let n = 0;
             (err, w1) = E \<lparr>F_Type = channelData, F_ChannelID = k_remoteId ch, F_SenderID = 0, F_Data = data\<rparr> w
         in (n, err, w1)))"

definition cbor_Read :: "nat \<Rightarrow> cbor_channel \<Rightarrow> buffer read_result option" where
  "cbor_Read k ch = cbor_buffer_Read k (k_pending ch)"

definition cbor_close :: "cbor_channel \<Rightarrow> cbor_channel option" where
  "cbor_close ch =
     (let ch1 = ch\<lparr>k_pending := cbor_buffer_eof (k_pending ch)\<rparr> in
      if frames_closed ch1 then None else Some (ch1\<lparr>frames_closed := True, k_sentClose := True\<rparr>))"

section \<open>The table\<close>

type_synonym cbor_table = "(u32 \<times> nat) list \<times> u32"  \<comment> \<open>chans and chanCounter\<close>

fun cbor_get :: "u32 \<Rightarrow> cbor_table \<Rightarrow> nat option" where
  "cbor_get i (cs, n) = map_of cs i"

fun cbor_add :: "nat \<Rightarrow> cbor_table \<Rightarrow> u32 \<times> cbor_table" where
  "cbor_add r (cs, n) = (let n1 = n + 1 in (n1, (AList.update n1 r cs, n1)))"

fun cbor_delete :: "u32 \<Rightarrow> cbor_table \<Rightarrow> cbor_table" where
  "cbor_delete i (cs, n) = (AList.delete i cs, n)"

fun cbor_reset :: "cbor_table \<Rightarrow> nat list \<times> cbor_table" where
  "cbor_reset (cs, n) = (map snd cs, ([], 0))"

text \<open>The counter has not used up the 32-bit ids.\<close>

fun cbor_room :: "cbor_table \<Rightarrow> bool" where
  "cbor_room (cs, n) \<longleftrightarrow> unat n < 4294967295 \<and> distinct (map fst cs) \<and> (\<forall>k \<in> fst ` set cs. k \<le> n)"

section \<open>Sessions\<close>

record 'w cbor_session =
  k_closed :: bool
  k_enc :: 'w
  k_chans :: cbor_table
  k_heap :: "nat \<Rightarrow> cbor_channel option"
  k_next :: nat
  k_closeCh :: bool
  k_err :: "go_error option"

definition cbor_New :: "'w \<Rightarrow> 'w cbor_session" where
  "cbor_New w = \<lparr>k_closed = False, k_enc = w, k_chans = ([], 0), k_heap = (\<lambda>_. None), k_next = 0,
     k_closeCh = False, k_err = None\<rparr>"

definition cbor_session_Close :: "'w cbor_session \<Rightarrow> go_error option \<times> 'w cbor_session" where
  "cbor_session_Close s = (None, s\<lparr>k_closed := True\<rparr>)"

text \<open>\<^verbatim>\<open>Wait\<close> returns the error of the loop, or waits (\<open>None\<close>).\<close>

definition cbor_Wait :: "'w cbor_session \<Rightarrow> go_error option" where
  "cbor_Wait s = k_err s"

definition k_put :: "nat \<Rightarrow> cbor_channel \<Rightarrow> 'w cbor_session \<Rightarrow> 'w cbor_session" where
  "k_put r ch s = s\<lparr>k_heap := (k_heap s)(r \<mapsto> ch)\<rparr>"

definition cbor_newChannel :: "'w cbor_session \<Rightarrow> nat \<times> cbor_channel \<times> 'w cbor_session" where
  "cbor_newChannel s =
     (let r = k_next s;
          (cid, t) = cbor_add r (k_chans s);
          ch = \<lparr>k_localId = cid, k_remoteId = 0, frames_closed = False, k_sentEOF = False,
                k_pending = cbor_newBuffer, k_sentClose = False\<rparr>
      in (r, ch, k_put r ch (s\<lparr>k_chans := t, k_next := r + 1\<rparr>)))"

definition cbor_Open_send :: "'w encoder \<Rightarrow> 'w cbor_session \<Rightarrow> go_error option \<times> nat \<times> 'w cbor_session" where
  "cbor_Open_send E s =
     (case cbor_newChannel s of (r, ch, s1) \<Rightarrow>
        (case E (control channelOpen 0 (k_localId ch)) (k_enc s1) of (err, w) \<Rightarrow> (err, r, s1\<lparr>k_enc := w\<rparr>)))"

text \<open>What \<^verbatim>\<open>Open\<close> returns for the frame it receives (\<open>None\<close>: \<^verbatim>\<open>frames\<close> was closed).\<close>

definition cbor_Open_verdict :: "nat \<Rightarrow> Frame option \<Rightarrow> go_error + nat" where
  "cbor_Open_verdict r x =
     (case x of
        None \<Rightarrow> Inl ErrClosed
      | Some f \<Rightarrow>
          if F_Type f = channelOpenConfirm then Inr r
          else if F_Type f = channelOpenFailure then Inl (ErrorString ''cmux: channel open failed on remote side'')
          else Inl (ErrorString (''cmux: unexpected packet in response to channel open: '' @ show_Frame f)))"

datatype 'w cbor_result =
    KRet "go_error option" "'w cbor_session"
  | KOffer nat "'w cbor_session"         \<comment> \<open>waiting for Accept or the timer\<close>
  | KSend nat Frame "'w cbor_session"    \<comment> \<open>waiting for a receiver on frames\<close>
  | KPanic

definition cbor_frames_send :: "nat \<Rightarrow> Frame \<Rightarrow> cbor_channel \<Rightarrow> 'w cbor_session \<Rightarrow> 'w cbor_result" where
  "cbor_frames_send r f ch s = (if frames_closed ch then KPanic else KSend r f s)"

definition cbor_handle :: "'w encoder \<Rightarrow> Frame \<Rightarrow> nat \<Rightarrow> cbor_channel \<Rightarrow> 'w cbor_session \<Rightarrow> 'w cbor_result" where
  "cbor_handle E f r ch s =
     (if F_Type f = channelData then
        KRet None (k_put r (ch\<lparr>k_pending := cbor_buffer_write (F_Data f) (k_pending ch)\<rparr>) s)
      else if F_Type f = channelClose then
        (case cbor_send E (control channelClose (k_remoteId ch) 0) ch (k_enc s) of (_, ch1, w1) \<Rightarrow>
           (case cbor_close ch1 of
              None \<Rightarrow> KPanic
            | Some ch2 \<Rightarrow> KRet None (k_put r ch2 (s\<lparr>k_enc := w1, k_chans := cbor_delete (k_localId ch) (k_chans s)\<rparr>))))
      else if F_Type f = channelEOF then
        KRet None (k_put r (ch\<lparr>k_pending := cbor_buffer_eof (k_pending ch)\<rparr>) s)
      else if F_Type f = channelOpenConfirm then
        (let ch1 = ch\<lparr>k_remoteId := F_SenderID f\<rparr> in cbor_frames_send r f ch1 (k_put r ch1 s))
      else if F_Type f = channelOpenFailure then
        cbor_frames_send r f ch (s\<lparr>k_chans := cbor_delete (F_ChannelID f) (k_chans s)\<rparr>)
      else KRet (Some (ErrorString (''cmux: invalid channel frame '' @ show_Frame f))) s)"

definition cbor_onePacket :: "'w encoder \<Rightarrow> go_error + Frame \<Rightarrow> 'w cbor_session \<Rightarrow> 'w cbor_result" where
  "cbor_onePacket E x s =
     (case x of
        Inl e \<Rightarrow> KRet (Some e) s
      | Inr f \<Rightarrow>
          if F_Type f = channelOpen then
            (case cbor_newChannel s of (r, c, s1) \<Rightarrow> KOffer r (k_put r (c\<lparr>k_remoteId := F_SenderID f\<rparr>) s1))
          else
            (case cbor_get (F_ChannelID f) (k_chans s) of
               None \<Rightarrow> KRet (Some (ErrorString (''cmux: unknown channel '' @ show_word (F_ChannelID f)))) s
             | Some r \<Rightarrow> (case k_heap s r of None \<Rightarrow> KPanic | Some ch \<Rightarrow> cbor_handle E f r ch s)))"

definition cbor_accepted :: "'w encoder \<Rightarrow> cbor_channel \<Rightarrow> 'w cbor_session \<Rightarrow> go_error option \<times> 'w cbor_session" where
  "cbor_accepted E c s =
     (case E (control channelOpenConfirm (k_remoteId c) (k_localId c)) (k_enc s) of (err, w) \<Rightarrow> (err, s\<lparr>k_enc := w\<rparr>))"

definition cbor_timeout :: "'w encoder \<Rightarrow> cbor_channel \<Rightarrow> 'w cbor_session \<Rightarrow> go_error option \<times> 'w cbor_session" where
  "cbor_timeout E c s =
     (case E (control channelOpenFailure (k_remoteId c) 0) (k_enc s) of (err, w) \<Rightarrow> (err, s\<lparr>k_enc := w\<rparr>))"

text \<open>The end of \<^verbatim>\<open>loop\<close>, under the lock of the map, and after it.\<close>

fun cbor_close_all :: "nat list \<Rightarrow> (nat \<Rightarrow> cbor_channel option) \<Rightarrow> (nat \<Rightarrow> cbor_channel option) option" where
  "cbor_close_all [] hp = Some hp"
| "cbor_close_all (r # rs) hp =
     (case Option.bind (hp r) cbor_close of
        None \<Rightarrow> None
      | Some ch \<Rightarrow> cbor_close_all rs (hp(r \<mapsto> ch)))"

definition cbor_loop_drop :: "'w cbor_session \<Rightarrow> 'w cbor_session option" where
  "cbor_loop_drop s =
     (case cbor_reset (k_chans s) of
        (rs, t) \<Rightarrow> map_option (\<lambda>hp. s\<lparr>k_heap := hp, k_chans := t\<rparr>) (cbor_close_all rs (k_heap s)))"

definition cbor_loop_finish :: "go_error \<Rightarrow> 'w cbor_session \<Rightarrow> 'w cbor_session" where
  "cbor_loop_finish e s = s\<lparr>k_closed := True, k_closeCh := True, k_err := Some e\<rparr>"

section \<open>Interleavings\<close>

datatype cbor_pc =
    CRead | COffer nat | CConfirm nat | CSend nat Frame | CExit go_error | CFinish go_error | CDone | CPanic

record 'w cbor_sys =
  ks :: "'w cbor_session"
  kpc :: cbor_pc
  k_acceptors :: nat
  k_openers :: "nat list"

definition cbor_next :: "go_error option \<Rightarrow> cbor_pc" where
  "cbor_next err = (case err of None \<Rightarrow> CRead | Some e \<Rightarrow> CExit e)"

definition cbor_after :: "'w cbor_result \<Rightarrow> 'w cbor_sys \<Rightarrow> 'w cbor_sys" where
  "cbor_after p s =
     (case p of
        KRet err s' \<Rightarrow> s\<lparr>ks := s', kpc := cbor_next err\<rparr>
      | KOffer r s' \<Rightarrow> s\<lparr>ks := s', kpc := COffer r\<rparr>
      | KSend r f s' \<Rightarrow> s\<lparr>ks := s', kpc := CSend r f\<rparr>
      | KPanic \<Rightarrow> s\<lparr>kpc := CPanic\<rparr>)"

inductive cbor_app :: "'w encoder \<Rightarrow> cbor_channel \<Rightarrow> 'w \<Rightarrow> cbor_channel \<Rightarrow> 'w \<Rightarrow> bool" for E where
  write_op: "cbor_Write E d ch w = (n, e, w') \<Longrightarrow> cbor_app E ch w ch w'"
| read_done: "cbor_Read k ch = Some (RDone d e b) \<Longrightarrow> cbor_app E ch w (ch\<lparr>k_pending := b\<rparr>) w"
| read_wait: "cbor_Read k ch = Some (RWait b) \<Longrightarrow> cbor_app E ch w (ch\<lparr>k_pending := b\<rparr>) w"
| close: "cbor_Close E ch w = (e, ch', w') \<Longrightarrow> cbor_app E ch w ch' w'"
| close_write: "cbor_CloseWrite E ch w = (e, ch', w') \<Longrightarrow> cbor_app E ch w ch' w'"

inductive cbor_step :: "'w encoder \<Rightarrow> 'w cbor_sys \<Rightarrow> 'w cbor_sys \<Rightarrow> bool" for E where
  packet: "kpc s = CRead \<Longrightarrow> cbor_step E s (cbor_after (cbor_onePacket E x (ks s)) s)"
| hand_over: "kpc s = COffer r \<Longrightarrow> k_acceptors s = Suc n \<Longrightarrow> cbor_step E s (s\<lparr>kpc := CConfirm r, k_acceptors := n\<rparr>)"
| confirm: "kpc s = CConfirm r \<Longrightarrow> k_heap (ks s) r = Some c \<Longrightarrow> cbor_accepted E c (ks s) = (err, s') \<Longrightarrow>
    cbor_step E s (s\<lparr>ks := s', kpc := cbor_next err\<rparr>)"
| timeout: "kpc s = COffer r \<Longrightarrow> k_heap (ks s) r = Some c \<Longrightarrow> cbor_timeout E c (ks s) = (err, s') \<Longrightarrow>
    cbor_step E s (s\<lparr>ks := s', kpc := cbor_next err\<rparr>)"
| open_receives: "kpc s = CSend r f \<Longrightarrow> r \<in> set (k_openers s) \<Longrightarrow>
    cbor_step E s (s\<lparr>kpc := CRead, k_openers := remove1 r (k_openers s)\<rparr>)"
| drop: "kpc s = CExit e \<Longrightarrow> cbor_loop_drop (ks s) = Some s' \<Longrightarrow> cbor_step E s (s\<lparr>ks := s', kpc := CFinish e\<rparr>)"
| drop_panic: "kpc s = CExit e \<Longrightarrow> cbor_loop_drop (ks s) = None \<Longrightarrow> cbor_step E s (s\<lparr>kpc := CPanic\<rparr>)"
| finish: "kpc s = CFinish e \<Longrightarrow> cbor_step E s (s\<lparr>ks := cbor_loop_finish e (ks s), kpc := CDone\<rparr>)"
| accept_call: "cbor_step E s (s\<lparr>k_acceptors := Suc (k_acceptors s)\<rparr>)"
| accept_eof: "k_acceptors s = Suc n \<Longrightarrow> k_closeCh (ks s) \<Longrightarrow>
    cbor_step E s (s\<lparr>ks := (ks s)\<lparr>k_closeCh := False\<rparr>, k_acceptors := n\<rparr>)"
| open_call: "cbor_Open_send E (ks s) = (err, r, s') \<Longrightarrow>
    cbor_step E s (s\<lparr>ks := s', k_openers := (if err = None then r # k_openers s else k_openers s)\<rparr>)"
| open_closed: "r \<in> set (k_openers s) \<Longrightarrow> k_heap (ks s) r = Some ch \<Longrightarrow> frames_closed ch \<Longrightarrow>
    cbor_step E s (s\<lparr>k_openers := remove1 r (k_openers s)\<rparr>)"
| open_cancel: "r \<in> set (k_openers s) \<Longrightarrow> cbor_step E s (s\<lparr>k_openers := remove1 r (k_openers s)\<rparr>)"
| app: "k_heap (ks s) r = Some ch \<Longrightarrow> cbor_app E ch (k_enc (ks s)) ch' w' \<Longrightarrow>
    cbor_step E s (s\<lparr>ks := k_put r ch' ((ks s)\<lparr>k_enc := w'\<rparr>)\<rparr>)"
| session_close: "cbor_step E s (s\<lparr>ks := snd (cbor_session_Close (ks s))\<rparr>)"
| transport: "cbor_step E s (s\<lparr>ks := (ks s)\<lparr>k_enc := w\<rparr>\<rparr>)"

definition cbor_init :: "'w \<Rightarrow> 'w cbor_sys" where
  "cbor_init w = \<lparr>ks = cbor_New w, kpc = CRead, k_acceptors = 0, k_openers = []\<rparr>"

inductive cbor_reach :: "'w encoder \<Rightarrow> 'w \<Rightarrow> 'w cbor_sys \<Rightarrow> bool" for E w where
  init: "cbor_reach E w (cbor_init w)"
| step: "cbor_reach E w s \<Longrightarrow> cbor_step E s s' \<Longrightarrow> cbor_room (k_chans (ks s')) \<Longrightarrow> cbor_reach E w s'"

section \<open>The table is a channel table\<close>

lemma cbor_fresh:
  fixes n :: u32
  assumes "unat n < 4294967295" and "k \<le> n"
  shows "k \<noteq> n + 1" and "k \<le> n + 1"
proof -
  have "unat (n + 1) = unat n + 1" using assms(1) unat_add_u32 [of n 1] by simp
  then have "n < n + 1" by (simp add: word_less_nat_alt)
  with assms(2) show "k \<noteq> n + 1" "k \<le> n + 1" by auto
qed

lemma map_of_values:
  "distinct (map fst cs) \<Longrightarrow> snd ` set cs = {x. \<exists>i. map_of cs i = Some x}"
  by (force simp: map_of_eq_Some_iff image_iff)

lemma distinct_values:
  assumes "distinct (map fst cs)"
    and "\<And>i j x. map_of cs i = Some x \<Longrightarrow> map_of cs j = Some x \<Longrightarrow> i = j"
  shows "distinct (map snd cs)"
proof -
  have "inj_on snd (set cs)"
  proof (rule inj_onI)
    fix p q assume pq: "p \<in> set cs" "q \<in> set cs" "snd p = snd q"
    obtain a b c where "p = (a, b)" "q = (c, b)" using pq(3) by (cases p, cases q) simp
    with pq assms(2) [of a b c] map_of_is_SomeI [OF assms(1)] show "p = q" by simp
  qed
  with assms(1) show ?thesis by (simp add: distinct_map)
qed

interpretation kt: chan_table cbor_get cbor_add cbor_delete cbor_reset cbor_room
proof unfold_locales
  fix t t' :: cbor_table and r i j
  obtain cs n where t: "t = (cs, n)" by (cases t)
  show "cbor_get i t = None \<and> (\<forall>j. cbor_get j t' = (if j = i then Some r else cbor_get j t))"
    if "cbor_room t" "cbor_add r t = (i, t')"
  proof -
    from that t have i: "i = n + 1" and t': "t' = (AList.update i r cs, i)" by (auto simp: Let_def)
    have "i \<notin> fst ` set cs" using that(1) t i cbor_fresh by fastforce
    then show ?thesis using t t' by (simp add: map_of_eq_None_iff update_conv')
  qed
  show "cbor_get j (cbor_delete i t) = (if j = i then None else cbor_get j t)" using t by (simp add: delete_conv')
  show "cbor_room (cbor_delete i t)" if "cbor_room t"
  proof -
    have "fst ` set (AList.delete i cs) \<subseteq> fst ` set cs" by (rule dom_delete_subset)
    with that show ?thesis unfolding t cbor_delete.simps cbor_room.simps by (blast intro: distinct_delete)
  qed
  show "cbor_get j (snd (cbor_reset t)) = None" "cbor_room (snd (cbor_reset t))" using t by simp_all
  show "set (fst (cbor_reset t)) = {x. \<exists>i. cbor_get i t = Some x}" if "cbor_room t"
    using that t map_of_values [of cs] by simp
  show "distinct (fst (cbor_reset t))"
    if "cbor_room t" "\<And>i j x. cbor_get i t = Some x \<Longrightarrow> cbor_get j t = Some x \<Longrightarrow> i = j"
    using that t distinct_values [of cs] by simp
qed

interpretation kreg: registry cbor_get cbor_add cbor_delete cbor_reset cbor_room
    k_localId "frames_closed :: cbor_channel \<Rightarrow> bool" ..

section \<open>The invariant of the session\<close>

definition cbor_inv :: "'w cbor_session \<Rightarrow> bool" where
  "cbor_inv s \<longleftrightarrow> kreg.consistent (k_chans s) (k_heap s) (k_next s)"

fun cbor_pc_inv :: "cbor_pc \<Rightarrow> 'w cbor_session \<Rightarrow> bool" where
  "cbor_pc_inv (COffer r) s = (k_heap s r \<noteq> None)"
| "cbor_pc_inv (CConfirm r) s = (k_heap s r \<noteq> None)"
| "cbor_pc_inv (CSend r f) s = (\<exists>ch. k_heap s r = Some ch \<and> \<not> frames_closed ch)"
| "cbor_pc_inv CPanic s = False"
| "cbor_pc_inv _ s = True"

lemma k_put_simps [simp]:
  "k_chans (k_put r ch s) = k_chans s" "k_heap (k_put r ch s) = (k_heap s)(r \<mapsto> ch)" "k_next (k_put r ch s) = k_next s"
  by (simp_all add: k_put_def)

text \<open>What every operation but the teardown keeps.\<close>

definition cbor_keeps :: "cbor_channel \<Rightarrow> cbor_channel \<Rightarrow> bool" where
  "cbor_keeps ch ch' \<longleftrightarrow> k_localId ch' = k_localId ch \<and> frames_closed ch' = frames_closed ch"

lemma cbor_send_keeps: "cbor_send E f ch w = (e, ch', w') \<Longrightarrow> cbor_keeps ch ch'"
  by (auto simp: cbor_send_def cbor_keeps_def Let_def split: if_splits prod.splits)

lemma cbor_app_keeps: "cbor_app E ch w ch' w' \<Longrightarrow> cbor_keeps ch ch'"
proof (induction rule: cbor_app.induct)
  case (close_write ch w e ch' w')
  then have "cbor_keeps (ch\<lparr>k_sentEOF := True\<rparr>) ch'" unfolding cbor_CloseWrite_def by (rule cbor_send_keeps)
  then show ?case by (simp add: cbor_keeps_def)
qed (auto simp: cbor_Close_def dest: cbor_send_keeps, auto simp: cbor_keeps_def)

lemma cbor_put_inv:
  assumes "cbor_inv s" and "k_heap s r = Some ch" and "cbor_keeps ch ch'" and "k_chans s' = k_chans s"
    and "k_heap s' = (k_heap s)(r \<mapsto> ch')" and "k_next s' = k_next s"
  shows "cbor_inv s' \<and> (cbor_pc_inv p s \<longrightarrow> cbor_pc_inv p s')"
proof
  show "cbor_inv s'"
    using assms kreg.consistent_put [of "k_chans s" "k_heap s" "k_next s" r ch ch'] by (simp add: cbor_inv_def cbor_keeps_def)
  show "cbor_pc_inv p s \<longrightarrow> cbor_pc_inv p s'" using assms by (cases p) (auto simp: cbor_keeps_def)
qed

lemma cbor_newChannel_inv:
  assumes "cbor_inv s" and "cbor_newChannel s = (r, ch, s1)" and "cbor_room (k_chans s1)"
  shows "cbor_inv s1 \<and> k_heap s1 r = Some ch \<and> r = k_next s \<and> k_next s1 = Suc r \<and> (cbor_pc_inv p s \<longrightarrow> cbor_pc_inv p s1)"
proof -
  obtain cid t where add: "cbor_add (k_next s) (k_chans s) = (cid, t)" by (cases "cbor_add (k_next s) (k_chans s)")
  with assms(2) have r: "r = k_next s" and ch: "k_localId ch = cid" "\<not> frames_closed ch"
    and s1: "k_chans s1 = t" "k_next s1 = Suc r" "k_heap s1 = (k_heap s)(r \<mapsto> ch)"
    by (auto simp: cbor_newChannel_def Let_def)
  have "cbor_inv s1"
    using assms(1,3) kreg.consistent_new [of "k_chans s" "k_heap s" "k_next s" cid t ch] add r ch s1 by (simp add: cbor_inv_def)
  moreover have "k_heap s r = None"
    using kreg.consistentD(2) [of "k_chans s" "k_heap s" "k_next s" r] assms(1) r by (simp add: cbor_inv_def)
  then have "cbor_pc_inv p s \<longrightarrow> cbor_pc_inv p s1" using s1 by (cases p) auto
  ultimately show ?thesis using s1 r by simp
qed

fun cbor_result_inv :: "'w cbor_result \<Rightarrow> bool" where
  "cbor_result_inv (KRet err s') = cbor_inv s'"
| "cbor_result_inv (KOffer r s') = (cbor_room (k_chans s') \<longrightarrow> cbor_inv s' \<and> k_heap s' r \<noteq> None)"
| "cbor_result_inv (KSend r f s') = (cbor_inv s' \<and> cbor_pc_inv (CSend r f) s')"
| "cbor_result_inv KPanic = False"

lemma cbor_delete_inv:
  assumes "cbor_inv s" and "k_heap s r = Some ch" and "k_localId ch' = k_localId ch"
    and "k_chans s' = cbor_delete (k_localId ch) (k_chans s)" and "k_heap s' = (k_heap s)(r \<mapsto> ch')" and "k_next s' = k_next s"
  shows "cbor_inv s'"
  using assms kreg.consistent_rem [of "k_chans s" "k_heap s" "k_next s" r ch ch'] by (simp add: cbor_inv_def)

lemma cbor_handle_inv:
  assumes inv: "cbor_inv s" and "cbor_get (F_ChannelID f) (k_chans s) = Some r" and ch: "k_heap s r = Some ch"
  shows "cbor_result_inv (cbor_handle E f r ch s)"
proof -
  from kreg.consistentD(3) [of "k_chans s" "k_heap s" "k_next s" "F_ChannelID f" r] assms
  have live: "k_localId ch = F_ChannelID f" "\<not> frames_closed ch" by (auto simp: cbor_inv_def)
  have put: "cbor_inv (k_put r ch' s)" if "cbor_keeps ch ch'" for ch'
    using cbor_put_inv [OF inv ch that, of "k_put r ch' s"] by simp
  have close: "cbor_result_inv (cbor_handle E f r ch s)" if "F_Type f = channelClose"
  proof -
    obtain e ch1 w1 where s: "cbor_send E (control channelClose (k_remoteId ch) 0) ch (k_enc s) = (e, ch1, w1)"
      by (cases "cbor_send E (control channelClose (k_remoteId ch) 0) ch (k_enc s)")
    from cbor_send_keeps [OF s] live(2) obtain ch2 where c: "cbor_close ch1 = Some ch2" "k_localId ch2 = k_localId ch"
      by (auto simp: cbor_close_def cbor_keeps_def Let_def)
    let ?s = "k_put r ch2 (s\<lparr>k_enc := w1, k_chans := cbor_delete (k_localId ch) (k_chans s)\<rparr>)"
    have "cbor_inv ?s" by (rule cbor_delete_inv [OF inv ch c(2)]) simp_all
    with that s c show ?thesis by (simp add: cbor_handle_def channelClose_def channelData_def)
  qed
  have failure: "cbor_inv (s\<lparr>k_chans := cbor_delete (F_ChannelID f) (k_chans s)\<rparr>)"
    by (rule cbor_delete_inv [OF inv ch refl]) (use ch live in \<open>auto simp: fun_upd_idem\<close>)
  show ?thesis
  proof (cases "F_Type f = channelClose")
    case False
    then show ?thesis using put inv ch live failure
      by (auto simp: cbor_handle_def cbor_frames_send_def cbor_keeps_def Let_def)
  qed (rule close)
qed

lemma cbor_onePacket_inv:
  assumes "cbor_inv s"
  shows "cbor_result_inv (cbor_onePacket E x s)"
proof (cases x)
  case (Inr f)
  show ?thesis
  proof (cases "F_Type f = channelOpen")
    case True
    obtain r c s1 where n: "cbor_newChannel s = (r, c, s1)" by (cases "cbor_newChannel s")
    have "cbor_inv (k_put r (c\<lparr>k_remoteId := F_SenderID f\<rparr>) s1)" if "cbor_room (k_chans s1)"
      using cbor_newChannel_inv [OF assms n that, of CRead]
        cbor_put_inv [of s1 r c "c\<lparr>k_remoteId := F_SenderID f\<rparr>" "k_put r (c\<lparr>k_remoteId := F_SenderID f\<rparr>) s1" CRead]
      by (auto simp: cbor_keeps_def)
    with True Inr n show ?thesis by (simp add: cbor_onePacket_def)
  next
    case False
    show ?thesis
    proof (cases "cbor_get (F_ChannelID f) (k_chans s)")
      case (Some r)
      then obtain ch where "k_heap s r = Some ch"
        using kreg.consistentD(3) assms unfolding cbor_inv_def by blast
      with False Inr Some cbor_handle_inv [OF assms Some] show ?thesis by (simp add: cbor_onePacket_def)
    qed (use False Inr assms in \<open>simp add: cbor_onePacket_def\<close>)
  qed
qed (use assms in \<open>simp add: cbor_onePacket_def\<close>)

lemma cbor_close_all_ok:
  assumes "distinct rs" and "\<forall>r \<in> set rs. \<exists>ch. hp r = Some ch \<and> \<not> frames_closed ch"
  shows "\<exists>hp'. cbor_close_all rs hp = Some hp'
    \<and> (\<forall>r. hp' r = (if r \<in> set rs then Option.bind (hp r) cbor_close else hp r))"
  using assms
proof (induction rs arbitrary: hp)
  case (Cons r rs)
  then obtain ch ch' where ch: "hp r = Some ch" "cbor_close ch = Some ch'" by (auto simp: cbor_close_def Let_def)
  have "\<forall>q \<in> set rs. \<exists>c. (hp(r \<mapsto> ch')) q = Some c \<and> \<not> frames_closed c" using Cons.prems by auto
  from Cons.IH [OF _ this] Cons.prems(1) obtain hp' where
    "cbor_close_all rs (hp(r \<mapsto> ch')) = Some hp'"
    "\<forall>q. hp' q = (if q \<in> set rs then Option.bind ((hp(r \<mapsto> ch')) q) cbor_close else (hp(r \<mapsto> ch')) q)" by (metis distinct.simps(2))
  with ch Cons.prems(1) show ?case by (intro exI [of _ hp']) auto
qed simp

lemma cbor_loop_drop_ok:
  assumes "cbor_inv s"
  shows "\<exists>s'. cbor_loop_drop s = Some s' \<and> cbor_inv s' \<and> k_chans s' = ([], 0)
    \<and> (\<forall>r ch. k_heap s' r = Some ch \<longrightarrow> (\<exists>i. cbor_get i (k_chans s) = Some r) \<longrightarrow>
          frames_closed ch \<and> k_sentClose ch \<and> closed (k_pending ch))"
proof -
  obtain rs t where r: "cbor_reset (k_chans s) = (rs, t)" and t: "t = ([], 0)" by (cases "k_chans s") simp
  note c = kreg.consistent_drop [OF assms [unfolded cbor_inv_def], unfolded r, simplified]
  note dom = kreg.consistentD(2) [OF assms [unfolded cbor_inv_def]]
  from cbor_close_all_ok [of rs "k_heap s"] c obtain hp where hp: "cbor_close_all rs (k_heap s) = Some hp"
    "\<And>q. hp q = (if q \<in> set rs then Option.bind (k_heap s q) cbor_close else k_heap s q)" by auto
  have "set rs = {q. \<exists>i. cbor_get i (k_chans s) = Some q}"
    using kt.set_drop [OF kreg.consistentD(1) [OF assms [unfolded cbor_inv_def]]] r by simp
  moreover have "hp q = None \<longleftrightarrow> k_next s \<le> q" for q
    using hp(2) [of q] dom [of q] c by (auto simp: cbor_close_def Let_def)
  moreover have "cbor_inv (s\<lparr>k_heap := hp, k_chans := ([], 0)\<rparr>)"
    using \<open>\<And>q. hp q = None \<longleftrightarrow> k_next s \<le> q\<close> by (simp add: cbor_inv_def kreg.consistent_def)
  ultimately show ?thesis using hp r t
    by (intro exI [of _ "s\<lparr>k_heap := hp, k_chans := ([], 0)\<rparr>"])
       (auto simp: cbor_loop_drop_def cbor_close_def Let_def bind_eq_Some_conv split: if_splits)
qed

definition cbor_sys_inv :: "'w cbor_sys \<Rightarrow> bool" where
  "cbor_sys_inv s \<longleftrightarrow> cbor_inv (ks s) \<and> cbor_pc_inv (kpc s) (ks s)"

lemma cbor_inv_fields [simp]:
  "cbor_inv (s\<lparr>k_enc := w\<rparr>) = cbor_inv s" "cbor_inv (s\<lparr>k_closeCh := b\<rparr>) = cbor_inv s"
  "cbor_inv (cbor_loop_finish e s) = cbor_inv s" "cbor_inv (s\<lparr>k_closed := b\<rparr>) = cbor_inv s"
  by (simp_all add: cbor_inv_def cbor_loop_finish_def)

lemma cbor_pc_inv_fields [simp]:
  "cbor_pc_inv p (s\<lparr>k_enc := w\<rparr>) = cbor_pc_inv p s" "cbor_pc_inv p (s\<lparr>k_closeCh := b\<rparr>) = cbor_pc_inv p s"
  "cbor_pc_inv p (s\<lparr>k_closed := b\<rparr>) = cbor_pc_inv p s" "cbor_pc_inv (cbor_next err) s"
  by (cases p; simp)+ (simp add: cbor_next_def split: option.splits)

lemma cbor_step_inv:
  assumes "cbor_step E s s'" and "cbor_sys_inv s" and "cbor_room (k_chans (ks s'))"
  shows "cbor_sys_inv s'"
  using assms
proof (induction rule: cbor_step.induct)
  case (packet s x)
  then show ?case using cbor_onePacket_inv [of "ks s" E x]
    by (cases "cbor_onePacket E x (ks s)") (auto simp: cbor_after_def cbor_sys_inv_def)
next
  case (drop s e s')
  then show ?case using cbor_loop_drop_ok [of "ks s"] by (auto simp: cbor_sys_inv_def)
next
  case (drop_panic s e)
  then show ?case using cbor_loop_drop_ok [of "ks s"] by (auto simp: cbor_sys_inv_def)
next
  case (open_call s err r s')
  obtain r1 c s1 where n: "cbor_newChannel (ks s) = (r1, c, s1)" by (cases "cbor_newChannel (ks s)")
  with open_call obtain w where "s' = s1\<lparr>k_enc := w\<rparr>" by (auto simp: cbor_Open_send_def split: prod.splits)
  with open_call cbor_newChannel_inv [OF _ n, of "kpc s"] show ?case by (auto simp: cbor_sys_inv_def)
next
  case (app s r ch ch' w')
  then show ?case
    using cbor_put_inv [of "ks s" r ch ch' "k_put r ch' ((ks s)\<lparr>k_enc := w'\<rparr>)" "kpc s"] cbor_app_keeps [OF app(2)]
    by (simp add: cbor_sys_inv_def)
qed (auto simp: cbor_sys_inv_def cbor_accepted_def cbor_timeout_def cbor_session_Close_def split: prod.splits)

lemma cbor_reach_inv: "cbor_reach E w s \<Longrightarrow> cbor_sys_inv s"
proof (induction rule: cbor_reach.induct)
  case init
  show ?case by (simp add: cbor_sys_inv_def cbor_inv_def cbor_init_def cbor_New_def kreg.consistent_def)
qed (rule cbor_step_inv)

lemma cbor_after_acceptors [simp]: "k_acceptors (cbor_after x s) = k_acceptors s"
  by (cases x) (simp_all add: cbor_after_def)

text \<open>A loop that waits to hand a frame to an \<^verbatim>\<open>Open\<close> that is not there waits for ever.\<close>

definition cbor_blocked :: "nat \<Rightarrow> Frame \<Rightarrow> 'w cbor_sys \<Rightarrow> bool" where
  "cbor_blocked r f s \<longleftrightarrow> kpc s = CSend r f \<and> r \<notin> set (k_openers s) \<and> r < k_next (ks s)"

lemma cbor_blocked_step:
  assumes "cbor_step E s s'" and "cbor_blocked r f s"
  shows "cbor_blocked r f s'"
  using assms
proof (induction rule: cbor_step.induct)
  case (open_call s err r' s')
  then show ?case
    by (auto simp: cbor_blocked_def cbor_Open_send_def cbor_newChannel_def Let_def split: prod.splits)
qed (auto simp: cbor_blocked_def cbor_accepted_def cbor_timeout_def cbor_session_Close_def dest: notin_set_remove1)

text \<open>When \<^verbatim>\<open>Wait\<close> returns.\<close>

fun cbor_result_session :: "'w cbor_result \<Rightarrow> 'w cbor_session option" where
  "cbor_result_session (KRet err s) = Some s"
| "cbor_result_session (KOffer r s) = Some s"
| "cbor_result_session (KSend r f s) = Some s"
| "cbor_result_session KPanic = None"

lemma cbor_handle_err: "cbor_result_session (cbor_handle E f r ch s) = Some s' \<Longrightarrow> k_err s' = k_err s"
  by (auto simp: cbor_handle_def cbor_frames_send_def k_put_def Let_def split: if_splits prod.splits option.splits)

lemma cbor_onePacket_err: "cbor_result_session (cbor_onePacket E x s) = Some s' \<Longrightarrow> k_err s' = k_err s"
  by (auto simp: cbor_onePacket_def cbor_newChannel_def k_put_def Let_def dest: cbor_handle_err
      split: sum.splits if_splits prod.splits option.splits)

lemma cbor_wait_step:
  assumes "cbor_step E s s'" and "cbor_Wait (ks s) = None \<longleftrightarrow> kpc s \<noteq> CDone"
  shows "cbor_Wait (ks s') = None \<longleftrightarrow> kpc s' \<noteq> CDone"
  using assms
proof (induction rule: cbor_step.induct)
  case (packet s x)
  then show ?case using cbor_onePacket_err [of E x "ks s"]
    by (cases "cbor_onePacket E x (ks s)") (auto simp: cbor_after_def cbor_Wait_def cbor_next_def split: option.splits)
qed (auto simp: cbor_Wait_def cbor_accepted_def cbor_timeout_def cbor_loop_drop_def cbor_loop_finish_def cbor_Open_send_def
    cbor_newChannel_def cbor_session_Close_def cbor_next_def k_put_def Let_def split: prod.splits option.splits)

text \<open>An encoder that writes to a list of frames, for the witnesses.\<close>

definition list_encoder :: "Frame list encoder" where
  "list_encoder f w = (None, w @ [f])"

text \<open>A session that has sent one open request, whose caller has given up.\<close>

definition cbor_given_up :: "Frame list cbor_sys" where
  "cbor_given_up = (cbor_init [])\<lparr>ks := snd (snd (cbor_Open_send list_encoder (cbor_New [])))\<rparr>"

lemma cbor_given_up_reach: "cbor_reach list_encoder [] cbor_given_up"
proof -
  let ?s = "snd (snd (cbor_Open_send list_encoder (cbor_New [])))"
  have o: "cbor_Open_send list_encoder (cbor_New []) = (None, 0, ?s)"
    by (simp add: cbor_Open_send_def cbor_newChannel_def cbor_New_def list_encoder_def Let_def)
  have room: "cbor_room (k_chans ?s)"
    by (simp add: cbor_Open_send_def cbor_newChannel_def cbor_New_def list_encoder_def Let_def)
  let ?s1 = "(cbor_init [])\<lparr>ks := ?s, k_openers := [0]\<rparr>"
  have "cbor_step list_encoder (cbor_init []) ?s1"
    using cbor_step.open_call [of list_encoder "cbor_init []" None 0 ?s] o by (simp add: cbor_init_def)
  then have "cbor_reach list_encoder [] ?s1" by (rule cbor_reach.step [OF cbor_reach.init]) (use room in simp)
  moreover have "cbor_step list_encoder ?s1 cbor_given_up"
    using cbor_step.open_cancel [of 0 ?s1 list_encoder] by (simp add: cbor_given_up_def cbor_init_def)
  ultimately show ?thesis by (rule cbor_reach.step) (use room in \<open>simp add: cbor_given_up_def\<close>)
qed

section \<open>Properties\<close>



text \<open>
  A confirmation for a channel whose \<^verbatim>\<open>Open\<close> has given up (its context ended first, or the peer confirms
  twice) stops the session for ever: \<^verbatim>\<open>frames\<close> has no buffer and no receiver, so the loop waits in
  \<^verbatim>\<open>handle\<close> in every continuation and reads no further packet.
\<close>

theorem cbor_stray_confirm_blocks:
  assumes "cbor_sys_inv s" and "kpc s = CRead" and "F_Type f = channelOpenConfirm"
    and "cbor_get (F_ChannelID f) (k_chans (ks s)) = Some r" and "r \<notin> set (k_openers s)"
    and "(cbor_step E)\<^sup>*\<^sup>* (cbor_after (cbor_onePacket E (Inr f) (ks s)) s) s'"
  shows "kpc s' = CSend r f"
proof -
  from assms(1) have c: "kreg.consistent (k_chans (ks s)) (k_heap (ks s)) (k_next (ks s))"
    by (simp add: cbor_sys_inv_def cbor_inv_def)
  from kreg.consistentD(3) [OF c assms(4)] obtain ch where ch: "k_heap (ks s) r = Some ch" "\<not> frames_closed ch" by blast
  have "r < k_next (ks s)" using kreg.consistentD(2) [OF c, of r] ch by auto
  then have "cbor_blocked r f (cbor_after (cbor_onePacket E (Inr f) (ks s)) s)"
    using assms(3-5) ch by (simp add: cbor_blocked_def cbor_onePacket_def cbor_handle_def cbor_frames_send_def cbor_after_def
        channelOpenConfirm_def channelOpen_def channelData_def channelClose_def channelEOF_def Let_def)
  with assms(6) have "cbor_blocked r f s'"
    by (induction rule: rtranclp_induct) (auto intro: cbor_blocked_step)
  then show ?thesis by (simp add: cbor_blocked_def)
qed

theorem cbor_stray_confirm_blocks_witness:
  "\<exists>s s'. cbor_step list_encoder cbor_given_up s \<and> cbor_step list_encoder s s' \<and> k_acceptors s' = 1
     \<and> kpc s' = CSend 0 (control channelOpenConfirm 1 5)"
proof -
  let ?s = "cbor_after (cbor_onePacket list_encoder (Inr (control channelOpenConfirm 1 5)) (ks cbor_given_up)) cbor_given_up"
  let ?t = "?s\<lparr>k_acceptors := Suc (k_acceptors ?s)\<rparr>"
  have r: "kpc cbor_given_up = CRead" by (simp add: cbor_given_up_def cbor_init_def)
  have t: "cbor_step list_encoder ?s ?t" by (rule cbor_step.accept_call)
  have "F_Type (control channelOpenConfirm 1 5) = channelOpenConfirm"
    "cbor_get (F_ChannelID (control channelOpenConfirm 1 5)) (k_chans (ks cbor_given_up)) = Some 0"
    "0 \<notin> set (k_openers cbor_given_up)"
    by (simp_all add: cbor_given_up_def cbor_init_def control_def cbor_Open_send_def cbor_newChannel_def cbor_New_def
        list_encoder_def Let_def)
  from cbor_stray_confirm_blocks [OF cbor_reach_inv [OF cbor_given_up_reach] r this r_into_rtranclp [of "cbor_step list_encoder", OF t]]
  have "kpc ?t = CSend 0 (control channelOpenConfirm 1 5)" .
  moreover have "k_acceptors ?t = 1" by (simp add: cbor_given_up_def cbor_init_def)
  ultimately show ?thesis using cbor_step.packet [OF r] t by blast
qed

text \<open>
  \<^verbatim>\<open>Wait\<close> returns exactly when the loop has ended, whatever the callers and the transport did; calling \<^verbatim>\<open>Close\<close> alone does not end it: the loop has to notice that its transport is closed.
\<close>

theorem cbor_Wait_spec:
  assumes "cbor_reach E w s"
  shows "cbor_Wait (ks s) = None \<longleftrightarrow> kpc s \<noteq> CDone"
  using assms
proof (induction rule: cbor_reach.induct)
  case init
  show ?case by (simp add: cbor_init_def cbor_New_def cbor_Wait_def)
qed (rule cbor_wait_step)

end
