(* ===== verification/Rpc_Server.thy ===== *)
theory Rpc_Server
  imports Rpc_Call
begin

text \<open>
  The accept loops of the RPC server (\<^verbatim>\<open>src/rpc/server.go\<close>), peers (\<^verbatim>\<open>src/talk/peer.go\<close>), dialing by transport name (\<^verbatim>\<open>src/talk/dial.go\<close>) and
  the proxying handler (\<^verbatim>\<open>src/rpc/proxy.go\<close>). A session enters as the results of its \<^verbatim>\<open>Accept\<close> and \<^verbatim>\<open>Open\<close> calls, each channel with its own
  streams; the goroutine started for a channel works on that channel only. The two copies that \<^verbatim>\<open>ProxyHandler\<close> leaves running, and the
  arrival of bytes on either side, interleave in the step relation \<open>relay_step\<close>.

  The lemmas show that a peer answers every call for a registered name on any of its channels, and that a call through
  \<^verbatim>\<open>ProxyHandler\<close> reaches the destination as the same call and brings back the same response, byte for byte.
\<close>

section \<open>Server\<close>

text \<open>A handler gives its program for a selector; \<open>None\<close> when finding it does not return, which a \<^verbatim>\<open>RespondMux\<close> with a cycle through its root may do.\<close>

type_synonym ('d, 't) handler = "string \<Rightarrow> ('d, 't) prog option"

record ('d, 't) Server =
  srv_Handler :: "('d, 't) handler option"
  srv_Codec :: "('d, 't) codec option"

text \<open>\<^verbatim>\<open>respond\<close> with such a handler.\<close>

definition answer :: "('d, 't) codec \<Rightarrow> ('d, 't) handler \<Rightarrow> chan_io \<Rightarrow> chan_io option" where
  "answer C hn io =
     (case frame_Decode C TCall (c_in io) of
        RdOk v rd \<Rightarrow> Option.bind (hn (cleanSelector (selector_of v))) (\<lambda>p. Server_respond C (\<lambda>_. p) io)
      | _ \<Rightarrow> Server_respond C (\<lambda>_. End) io)"

text \<open>How \<^verbatim>\<open>Respond\<close> ends, if it does, and what became of each channel it accepted.\<close>

datatype respond_end = Accepting | Returns | Panics string

record served =
  answers :: "chan_io option list"
  ending :: respond_end
  sess_closed :: bool

fun respond_loop :: "('d, 't) codec \<Rightarrow> ('d, 't) handler \<Rightarrow> (go_error + chan_io) list \<Rightarrow> served" where
  "respond_loop C hn [] = \<lparr>answers = [], ending = Accepting, sess_closed = False\<rparr>"
| "respond_loop C hn (Inl err # accepts) =
     \<lparr>answers = [], ending = (if err = EOF then Returns else Panics (error_text err)), sess_closed = True\<rparr>"
| "respond_loop C hn (Inr io # accepts) =
     (let s = respond_loop C hn accepts in s\<lparr>answers := answer C hn io # answers s\<rparr>)"

definition Server_Respond :: "('d, 't) Server \<Rightarrow> (go_error + chan_io) list \<Rightarrow> served" where
  "Server_Respond s accepts =
     (case srv_Codec s of
        None \<Rightarrow> \<lparr>answers = [], ending = Panics ''rpc.Respond: nil codec'', sess_closed = True\<rparr>
      | Some C \<Rightarrow>
          (let hn = (case srv_Handler s of Some hn \<Rightarrow> hn | None \<Rightarrow> mux_prog (\<lambda>_. NewRespondMux) (\<lambda>_ _. End) 0)
           in respond_loop C hn accepts))"

text \<open>\<^verbatim>\<open>ServeMux\<close> over the results of the listener's \<^verbatim>\<open>Accept\<close>, a session being the results of its own; \<open>None\<close> while it waits.\<close>

fun ServeMux :: "('d, 't) Server \<Rightarrow> (go_error + (go_error + chan_io) list) list \<Rightarrow> served list \<times> go_error option" where
  "ServeMux s [] = ([], None)"
| "ServeMux s (Inl err # accepts) = ([], Some err)"
| "ServeMux s (Inr sess # accepts) = (case ServeMux s accepts of (ss, err) \<Rightarrow> (Server_Respond s sess # ss, err))"

section \<open>Peers\<close>

text \<open>A client is its session and its codec.\<close>

record ('s, 'd, 't) Client =
  cl_Session :: 's
  cl_codec :: "('d, 't) codec"

definition NewClient :: "'s \<Rightarrow> ('d, 't) codec \<Rightarrow> ('s, 'd, 't) Client" where
  "NewClient session C = \<lparr>cl_Session = session, cl_codec = C\<rparr>"

record ('s, 'd, 't) Peer =
  p_Session :: 's
  p_Client :: "('s, 'd, 't) Client"
  p_RespondMux :: RespondMux
  p_Codec :: "('d, 't) codec"

definition NewPeer :: "'s \<Rightarrow> ('d, 't) codec \<Rightarrow> ('s, 'd, 't) Peer" where
  "NewPeer session C =
     \<lparr>p_Session = session, p_Client = NewClient session C, p_RespondMux = NewRespondMux, p_Codec = C\<rparr>"

text \<open>\<^verbatim>\<open>Close\<close> closes the session of the client.\<close>

definition Peer_Close :: "('s \<Rightarrow> go_error option \<times> 's) \<Rightarrow> ('s, 'd, 't) Peer \<Rightarrow> go_error option \<times> 's" where
  "Peer_Close close p = close (cl_Session (p_Client p))"

definition Peer_Handle :: "string \<Rightarrow> Handler \<Rightarrow> ('s, 'd, 't) Peer \<Rightarrow> handle_error + ('s, 'd, 't) Peer" where
  "Peer_Handle pat hn p =
     (case Handle pat hn (p_RespondMux p) of Inl e \<Rightarrow> Inl e | Inr mx \<Rightarrow> Inr (p\<lparr>p_RespondMux := mx\<rparr>))"

text \<open>\<^verbatim>\<open>Respond\<close>; the peer's mux is the root of the muxes, and \<open>funcs\<close> are the handlers registered in them.\<close>

definition Peer_Respond ::
    "muxes \<Rightarrow> (nat \<Rightarrow> string \<Rightarrow> ('d, 't) prog) \<Rightarrow> ('s, 'd, 't) Peer \<Rightarrow> (go_error + chan_io) list \<Rightarrow> served" where
  "Peer_Respond st funcs p accepts =
     Server_Respond \<lparr>srv_Handler = Some (mux_prog (st(0 := p_RespondMux p)) funcs 0), srv_Codec = Some (p_Codec p)\<rparr> accepts"

section \<open>Dialing\<close>

type_synonym 's Dialer = "string \<Rightarrow> go_error + 's"

text \<open>The table that \<^verbatim>\<open>init\<close> fills; the dialers themselves open connections of the operating system.\<close>

definition Dialers :: "'s Dialer \<Rightarrow> 's Dialer \<Rightarrow> 's Dialer \<Rightarrow> (go_error + 's) \<Rightarrow> string \<rightharpoonup> 's Dialer" where
  "Dialers DialTCP DialUnix DialWS DialStdio =
     [''tcp'' \<mapsto> DialTCP, ''unix'' \<mapsto> DialUnix, ''ws'' \<mapsto> DialWS, ''stdio'' \<mapsto> (\<lambda>_. DialStdio)]"

definition quote :: char where "quote = CHR 0x27"

definition Dial :: "(string \<rightharpoonup> 's Dialer) \<Rightarrow> string \<Rightarrow> string \<Rightarrow> ('d, 't) codec \<Rightarrow> go_error + ('s, 'd, 't) Peer" where
  "Dial dialers transport addr C =
     (case dialers transport of
        None \<Rightarrow> Inl (ErrorString (''transport '' @ [quote] @ transport @ [quote] @ '' not in available in Dialers''))
      | Some d \<Rightarrow> (case d addr of Inl e \<Rightarrow> Inl e | Inr sess \<Rightarrow> Inr (NewPeer sess C)))"

section \<open>The proxying handler\<close>

text \<open>
  \<^verbatim>\<open>ProxyHandler\<close> with what \<^verbatim>\<open>dst.Session.Open\<close> returned: an error is returned to the caller, after closing the new channel when
  the header could not be sent; otherwise the call counts as answered and continued.
\<close>

datatype proxied_call =
    Refused responder "chan_io option"
  | Relaying responder chan_io

definition ProxyHandler ::
    "('d, 't) codec \<Rightarrow> ('d, 't) codec \<Rightarrow> go_error + chan_io \<Rightarrow> string \<Rightarrow> responder \<Rightarrow> proxied_call" where
  "ProxyHandler C D opened sel r =
     (case opened of
        Inl err \<Rightarrow> Refused (snd (responder_Return C [AError err] r)) None
      | Inr io \<Rightarrow>
          (case io_Encode D (ACallHeader sel) io of
             (Some err, io1) \<Rightarrow> Refused (snd (responder_Return C [AError err] r)) (Some (snd (io_Close io1)))
           | (None, io1) \<Rightarrow> Relaying (r\<lparr>responded := True, hdr_continue := True\<rparr>) io1))"

text \<open>\<^verbatim>\<open>respond\<close> with this handler: the caller's channel at the end, or the two channels with the copies between them under way.\<close>

definition proxy_respond ::
    "('d, 't) codec \<Rightarrow> ('d, 't) codec \<Rightarrow> go_error + chan_io \<Rightarrow> chan_io \<Rightarrow> (chan_io \<times> chan_io option + proxy_state) option" where
  "proxy_respond C D opened io =
     (case frame_Decode C TCall (c_in io) of
        RdBlock \<Rightarrow> None
      | RdErr e rd \<Rightarrow> Some (Inl (io\<lparr>c_in := rd\<rparr>, None))
      | RdOk v rd \<Rightarrow>
          (let r0 = \<lparr>responded = False, hdr_error = None, hdr_continue = False, ch = io\<lparr>c_in := rd\<rparr>\<rparr>
           in case ProxyHandler C D opened (cleanSelector (selector_of v)) r0 of
                Refused r b \<Rightarrow> Some (Inl (respond_finish C r, b))
              | Relaying r b \<Rightarrow> Some (Inr (proxy_start (respond_finish C r) b))))"

text \<open>
  The two goroutines: \<^verbatim>\<open>io.Copy(ch, c.Channel)\<close> and then \<^verbatim>\<open>CloseWrite\<close> on the destination, \<^verbatim>\<open>io.Copy(c.Channel, ch)\<close> and then \<^verbatim>\<open>Close\<close> on the
  caller's channel (\<open>pa\<close> is the caller's, \<open>pb\<close> the destination's).
\<close>

definition copy_closed :: "copy_state \<Rightarrow> chan_io \<Rightarrow> chan_io" where
  "copy_closed c dst = (case c of Copying \<Rightarrow> dst | Copied _ \<Rightarrow> snd (io_Close dst))"

inductive relay_step :: "proxy_state \<Rightarrow> proxy_state \<Rightarrow> bool" where
  to_dst: "ab s = Copying \<Longrightarrow> 0 < n \<Longrightarrow> n \<le> copy_buffer \<Longrightarrow> copy_turn n (pb s) (pa s) = Some (c, b, a)
     \<Longrightarrow> relay_step s (s\<lparr>pb := copy_done c b, pa := a, ab := c\<rparr>)"
| to_caller: "ba s = Copying \<Longrightarrow> 0 < n \<Longrightarrow> n \<le> copy_buffer \<Longrightarrow> copy_turn n (pa s) (pb s) = Some (c, a, b)
     \<Longrightarrow> relay_step s (s\<lparr>pa := copy_closed c a, pb := b, ba := c\<rparr>)"

text \<open>A run, with the bytes that have arrived from the caller and from the destination since its start.\<close>

inductive relay_run :: "proxy_state \<Rightarrow> bytes \<Rightarrow> bytes \<Rightarrow> proxy_state \<Rightarrow> bool" for s0 where
  init: "relay_run s0 [] [] s0"
| step: "relay_run s0 xs ys s \<Longrightarrow> relay_step s s' \<Longrightarrow> relay_run s0 xs ys s'"
| arrive_a: "relay_run s0 xs ys s \<Longrightarrow> rd_end (c_in (pa s)) = None \<Longrightarrow> relay_run s0 (xs @ bs) ys (s\<lparr>pa := arrives bs e (pa s)\<rparr>)"
| arrive_b: "relay_run s0 xs ys s \<Longrightarrow> rd_end (c_in (pb s)) = None \<Longrightarrow> relay_run s0 xs (ys @ bs) (s\<lparr>pb := arrives bs e (pb s)\<rparr>)"

section \<open>Answering\<close>

lemma respond_loop_answers:
  "respond_loop C hn (map Inr chs @ rest) =
     (let s = respond_loop C hn rest in s\<lparr>answers := map (answer C hn) chs @ answers s\<rparr>)"
  by (induction chs) (simp_all add: Let_def)

lemma answer_ok:
  assumes "carries C TCall (ACallHeader sel)" and "c_in io = \<lparr>rd_buf = frame_bytes C (ACallHeader sel) @ rest, rd_end = e\<rparr>"
    and "hn (cleanSelector sel) = Some p"
  shows "answer C hn io = Server_respond C (\<lambda>_. p) io"
  using rf.dec_enc [OF assms(1), of rest e] assms(2,3) by (simp add: answer_def)

text \<open>A nil handler answers every selector with the error of \<^verbatim>\<open>NotFoundHandler\<close>.\<close>

lemma empty_mux_prog:
  assumes "pattern_ok sel"
  shows "mux_prog (\<lambda>_. NewRespondMux) funcs 0 sel = Some (NotFoundHandler sel)"
proof -
  have "Match (\<lambda>_. NewRespondMux) 0 sel = Some (HNil, [])"
    using Match_step [OF pattern_ok_clean [OF assms, symmetric], of "\<lambda>_. NewRespondMux" 0] lp.find_None [of sel "[]"]
    by (simp add: NewRespondMux_def)
  then have "mux_RespondRPC (\<lambda>_. NewRespondMux) 0 sel = Some None" by (subst mux_RespondRPC.simps) (simp add: mux_Handler_def)
  then show ?thesis by (simp add: mux_prog_def)
qed

section \<open>The invariant of a relay\<close>

text \<open>One direction of the relay, with what its destination had at the start and what has come from its source since.\<close>

definition relayed :: "bytes \<Rightarrow> bool \<Rightarrow> copy_state \<Rightarrow> chan_io \<Rightarrow> chan_io \<Rightarrow> bool" where
  "relayed bytes ended c dst src \<longleftrightarrow> wr_fail (c_out dst) = None \<and> wr_buf (c_out dst) @ rd_buf (c_in src) = bytes
     \<and> (c \<noteq> Copying \<longrightarrow> ended \<and> rd_buf (c_in src) = [] \<and> rd_end (c_in src) \<noteq> None)"

definition relay_inv :: "proxy_state \<Rightarrow> bytes \<Rightarrow> bytes \<Rightarrow> proxy_state \<Rightarrow> bool" where
  "relay_inv s0 xs ys s \<longleftrightarrow>
     relayed (wr_buf (c_out (pb s0)) @ rd_buf (c_in (pa s0)) @ xs) (c_eof (pb s)) (ab s) (pb s) (pa s)
     \<and> relayed (wr_buf (c_out (pa s0)) @ rd_buf (c_in (pb s0)) @ ys) (c_closed (pa s)) (ba s) (pa s) (pb s)"

lemma copy_turn_relayed:
  assumes "copy_turn n dst src = Some (c, dst1, src1)" and "0 < n" and "relayed bytes x Copying dst src"
    and "relayed bytes' x' c' src dst"
  shows "relayed bytes (c \<noteq> Copying) c dst1 src1" and "relayed bytes' x' c' src1 dst1"
    and "c_eof dst1 = c_eof dst" and "c_eof src1 = c_eof src" and "c_closed dst1 = c_closed dst" and "c_closed src1 = c_closed src"
  using assms copy_turn_Copying [of n dst src dst1 src1] copy_turn_Copied [of n dst src _ dst1 src1]
  by (cases c; simp add: relayed_def)+

lemma relay_step_inv: "relay_step s s' \<Longrightarrow> relay_inv s0 xs ys s \<Longrightarrow> relay_inv s0 xs ys s'"
proof (induction rule: relay_step.induct)
  case (to_dst s n c b a)
  then have "relayed (wr_buf (c_out (pb s0)) @ rd_buf (c_in (pa s0)) @ xs) (c_eof (pb s)) Copying (pb s) (pa s)"
    "relayed (wr_buf (c_out (pa s0)) @ rd_buf (c_in (pb s0)) @ ys) (c_closed (pa s)) (ba s) (pa s) (pb s)"
    by (simp_all add: relay_inv_def)
  note copy_turn_relayed [OF to_dst(4,2) this]
  then show ?case by (cases c) (auto simp: relay_inv_def relayed_def copy_done_def io_CloseWrite_def)
next
  case (to_caller s n c a b)
  then have "relayed (wr_buf (c_out (pa s0)) @ rd_buf (c_in (pb s0)) @ ys) (c_closed (pa s)) Copying (pa s) (pb s)"
    "relayed (wr_buf (c_out (pb s0)) @ rd_buf (c_in (pa s0)) @ xs) (c_eof (pb s)) (ab s) (pb s) (pa s)"
    by (simp_all add: relay_inv_def)
  note copy_turn_relayed [OF to_caller(4,2) this]
  then show ?case by (cases c) (auto simp: relay_inv_def relayed_def copy_closed_def io_Close_def)
qed

lemma relay_run_inv:
  assumes "relay_run s0 xs ys s" and "relay_inv s0 [] [] s0"
  shows "relay_inv s0 xs ys s"
  using assms
proof (induction rule: relay_run.induct)
  case (step xs ys s s')
  then show ?case using relay_step_inv by blast
next
  case (arrive_a xs ys s bs e)
  then show ?case by (auto simp: relay_inv_def relayed_def arrives_def simp flip: append_assoc)
next
  case (arrive_b xs ys s bs e)
  then show ?case by (auto simp: relay_inv_def relayed_def arrives_def simp flip: append_assoc)
qed simp

text \<open>Where a copy can make a turn.\<close>

lemma copy_turn_enabled:
  "rd_buf (c_in src) \<noteq> [] \<or> rd_end (c_in src) \<noteq> None \<Longrightarrow> \<exists>c dst1 src1. copy_turn 1 dst src = Some (c, dst1, src1)"
  by (auto simp: copy_turn_def Let_def split: prod.split option.split)

text \<open>A relay that cannot go on has passed on everything that has arrived, and has closed what has ended.\<close>

lemma relay_stuck:
  assumes "relay_run s0 xs ys s" and "relay_inv s0 [] [] s0" and "\<nexists>s'. relay_step s s'"
  shows "wr_buf (c_out (pb s)) = wr_buf (c_out (pb s0)) @ rd_buf (c_in (pa s0)) @ xs"
    and "wr_buf (c_out (pa s)) = wr_buf (c_out (pa s0)) @ rd_buf (c_in (pb s0)) @ ys"
    and "rd_end (c_in (pa s)) \<noteq> None \<Longrightarrow> c_eof (pb s)" and "rd_end (c_in (pb s)) \<noteq> None \<Longrightarrow> c_closed (pa s)"
proof -
  have inv: "relay_inv s0 xs ys s" by (rule relay_run_inv [OF assms(1,2)])
  have n: "0 < (1 :: nat)" "1 \<le> copy_buffer" by (simp_all add: copy_buffer_def)
  have f: "rd_buf (c_in (pa s)) = [] \<and> (rd_end (c_in (pa s)) \<noteq> None \<longrightarrow> c_eof (pb s))"
    using inv assms(3) relay_step.to_dst [OF _ n, of s] copy_turn_enabled [of "pa s" "pb s"]
    unfolding relay_inv_def relayed_def by blast
  have b: "rd_buf (c_in (pb s)) = [] \<and> (rd_end (c_in (pb s)) \<noteq> None \<longrightarrow> c_closed (pa s))"
    using inv assms(3) relay_step.to_caller [OF _ n, of s] copy_turn_enabled [of "pb s" "pa s"]
    unfolding relay_inv_def relayed_def by blast
  show "wr_buf (c_out (pb s)) = wr_buf (c_out (pb s0)) @ rd_buf (c_in (pa s0)) @ xs"
    "wr_buf (c_out (pa s)) = wr_buf (c_out (pa s0)) @ rd_buf (c_in (pb s0)) @ ys"
    "rd_end (c_in (pa s)) \<noteq> None \<Longrightarrow> c_eof (pb s)" "rd_end (c_in (pb s)) \<noteq> None \<Longrightarrow> c_closed (pa s)"
    using f b inv by (simp_all add: relay_inv_def relayed_def)
qed

text \<open>And it always comes to such a point.\<close>

lemma relay_settles:
  assumes "relay_inv s0 xs ys s"
  shows "\<exists>s'. relay_step\<^sup>*\<^sup>* s s' \<and> (\<nexists>s''. relay_step s' s'')"
  using assms
proof (induction "length (rd_buf (c_in (pa s))) + length (rd_buf (c_in (pb s))) + (if ab s = Copying then 1 else 0) + (if ba s = Copying then 1 else 0)"
    arbitrary: s rule: less_induct)
  case less
  have dec: "length (rd_buf (c_in (pa s'))) + length (rd_buf (c_in (pb s'))) + (if ab s' = Copying then 1 else 0) + (if ba s' = Copying then 1 else 0)
      < length (rd_buf (c_in (pa s))) + length (rd_buf (c_in (pb s))) + (if ab s = Copying then 1 else 0) + (if ba s = Copying then (1 :: nat) else 0)"
    if "relay_step s s'" for s'
    using that less.prems
  proof (induction rule: relay_step.induct)
    case (to_dst s n c b a)
    then show ?case using copy_turn_Copying [of n "pb s" "pa s" b a] copy_turn_Copied [of n "pb s" "pa s" _ b a]
      by (cases c) (auto simp: relay_inv_def relayed_def copy_done_def io_CloseWrite_def)
  next
    case (to_caller s n c a b)
    then show ?case using copy_turn_Copying [of n "pa s" "pb s" a b] copy_turn_Copied [of n "pa s" "pb s" _ a b]
      by (cases c) (auto simp: relay_inv_def relayed_def copy_closed_def io_Close_def)
  qed
  show ?case
  proof (cases "\<exists>s'. relay_step s s'")
    case True
    then obtain s' where s': "relay_step s s'" ..
    from less.hyps [OF dec [OF s'] relay_step_inv [OF s' less.prems]] s' show ?thesis by (meson converse_rtranclp_into_rtranclp)
  qed blast
qed

section \<open>Properties\<close>

text \<open>A channel on which some bytes have arrived and nothing has been sent.\<close>

definition chan_with :: "bytes \<Rightarrow> chan_io" where
  "chan_with bs = \<lparr>c_in = \<lparr>rd_buf = bs, rd_end = None\<rparr>, c_out = \<lparr>wr_buf = [], wr_fail = None\<rparr>, c_eof = False, c_closed = False\<rparr>"

text \<open>The start of a relay: the header is on its way to the destination, under the selector's path form.\<close>

lemma proxy_respond_relays:
  assumes "carries C TCall (ACallHeader sel)" and "encodes D (ACallHeader (cleanSelector sel))"
  shows "proxy_respond C D (Inr (chan_with [])) (chan_with (frame_bytes C (ACallHeader sel) @ args))
    = Some (Inr (proxy_start (chan_with args) ((chan_with [])\<lparr>c_out := \<lparr>wr_buf = frame_bytes D (ACallHeader (cleanSelector sel)), wr_fail = None\<rparr>\<rparr>)))"
proof -
  have "io_Encode D (ACallHeader (cleanSelector sel)) (chan_with [])
      = (None, (chan_with [])\<lparr>c_out := \<lparr>wr_buf = frame_bytes D (ACallHeader (cleanSelector sel)), wr_fail = None\<rparr>\<rparr>)"
    using io_Encode_ok [OF assms(2), of "chan_with []"] by (simp add: chan_with_def out_frames_def)
  with rf.dec_enc [OF assms(1), of args None] show ?thesis
    by (simp add: proxy_respond_def chan_with_def ProxyHandler_def respond_finish_def Let_def)
qed

text \<open>
  C36: a call through \<^verbatim>\<open>ProxyHandler\<close> is the call itself. Let \<open>direct\<close> be what the destination's server makes of the caller's bytes when they reach it without a proxy.
  Through the proxy, with the arguments arriving before (\<open>args\<close>) or after (\<open>xs\<close>) the relay has started: however the two copies run, they come to rest, and there the destination
  has been sent a request to which its server responds with exactly \<open>direct\<close>; and once it has sent its response, the caller's channel has been given exactly those bytes when the copies rest again, and
  is closed if the destination has closed its own.
\<close>

theorem proxied_call_like_direct:
  assumes "carries C TCall (ACallHeader sel)" and "carries C TCall (ACallHeader (cleanSelector sel))"
    and "Server_respond C hn (chan_with (frame_bytes C (ACallHeader sel) @ args @ xs)) = Some direct"
  shows "\<exists>s0. proxy_respond C C (Inr (chan_with [])) (chan_with (frame_bytes C (ACallHeader sel) @ args)) = Some (Inr s0)
    \<and> (\<forall>ys s. relay_run s0 xs ys s \<longrightarrow>
        (\<exists>s'. relay_step\<^sup>*\<^sup>* s s' \<and> (\<nexists>s''. relay_step s' s''))
        \<and> ((\<nexists>s'. relay_step s s') \<longrightarrow>
             Server_respond C hn (chan_with (wr_buf (c_out (pb s)))) = Some direct
             \<and> (ys = wr_buf (c_out direct) \<longrightarrow> wr_buf (c_out (pa s)) = wr_buf (c_out direct)
                  \<and> (rd_end (c_in (pb s)) \<noteq> None \<longrightarrow> c_closed (pa s)))))"
proof -
  let ?h = "frame_bytes C (ACallHeader (cleanSelector sel))"
  let ?s0 = "proxy_start (chan_with args) ((chan_with [])\<lparr>c_out := \<lparr>wr_buf = ?h, wr_fail = None\<rparr>\<rparr>)"
  have p: "proxy_respond C C (Inr (chan_with [])) (chan_with (frame_bytes C (ACallHeader sel) @ args)) = Some (Inr ?s0)"
    by (rule proxy_respond_relays [OF assms(1) carries_encodes [OF assms(2)]])
  have inv: "relay_inv ?s0 [] [] ?s0" by (simp add: relay_inv_def relayed_def proxy_start_def chan_with_def)
  have "cleanSelector (cleanSelector sel) = cleanSelector sel" by (simp add: pattern_ok_clean cleanSelector_ok)
  then have d: "Server_respond C hn (chan_with (?h @ args @ xs)) = Some direct"
    using assms(3) Server_respond_ok [OF assms(1), of "chan_with (frame_bytes C (ACallHeader sel) @ args @ xs)" "args @ xs" None hn]
      Server_respond_ok [OF assms(2), of "chan_with (?h @ args @ xs)" "args @ xs" None hn]
    by (simp add: chan_with_def)
  have 0: "wr_buf (c_out (pb ?s0)) @ rd_buf (c_in (pa ?s0)) @ xs = ?h @ args @ xs" "wr_buf (c_out (pa ?s0)) @ rd_buf (c_in (pb ?s0)) = []"
    by (simp_all add: proxy_start_def chan_with_def)
  have "Server_respond C hn (chan_with (wr_buf (c_out (pb s)))) = Some direct \<and> wr_buf (c_out (pa s)) = ys
      \<and> (rd_end (c_in (pb s)) \<noteq> None \<longrightarrow> c_closed (pa s))"
    if "relay_run ?s0 xs ys s" "\<nexists>s'. relay_step s s'" for ys s
    using relay_stuck [OF that(1) inv that(2)] d 0 by simp
  with p relay_settles [OF relay_run_inv [OF _ inv]] show ?thesis by blast
qed

theorem proxied_call_like_direct_witness:
  "\<exists>s0 s'. proxy_respond byte_codec byte_codec (Inr (chan_with [])) (chan_with (frame_bytes byte_codec (ACallHeader ''a.b''))) = Some (Inr s0)
     \<and> relay_step\<^sup>*\<^sup>* s0 s' \<and> Server_respond byte_codec (\<lambda>_. End) (chan_with (wr_buf (c_out (pb s')))) \<noteq> None"
proof -
  have k: "carries byte_codec TCall (ACallHeader ''a.b'')" "carries byte_codec TCall (ACallHeader (cleanSelector ''a.b''))"
    by (simp_all add: byte_codec_carries cleanSelector_def dots_to_slashes_def)
  obtain direct where "Server_respond byte_codec (\<lambda>_. End) (chan_with (frame_bytes byte_codec (ACallHeader ''a.b'') @ [] @ [])) = Some direct"
    using Server_respond_ok [OF k(1), of "chan_with (frame_bytes byte_codec (ACallHeader ''a.b''))" "[]" None "\<lambda>_. End"] by (simp add: chan_with_def)
  from proxied_call_like_direct [OF k this] obtain s0 where s0:
    "proxy_respond byte_codec byte_codec (Inr (chan_with [])) (chan_with (frame_bytes byte_codec (ACallHeader ''a.b''))) = Some (Inr s0)"
    and all: "\<And>ys s. relay_run s0 [] ys s \<Longrightarrow> (\<exists>s'. relay_step\<^sup>*\<^sup>* s s' \<and> (\<nexists>s''. relay_step s' s''))
        \<and> ((\<nexists>s'. relay_step s s') \<longrightarrow> Server_respond byte_codec (\<lambda>_. End) (chan_with (wr_buf (c_out (pb s)))) = Some direct)" by auto
  obtain s' where s': "relay_step\<^sup>*\<^sup>* s0 s'" "\<nexists>s''. relay_step s' s''" using all [OF relay_run.init] by blast
  have "relay_run s0 [] [] s'" using s'(1) by (induction rule: rtranclp_induct) (auto intro: relay_run.intros)
  with all s' s0 show ?thesis by fastforce
qed

text \<open>
  When the destination's session cannot open a channel, the caller gets the error of \<^verbatim>\<open>Open\<close> as a remote error, and its channel is closed; likewise when the header cannot be
  sent, and then the new channel is closed too.
\<close>

theorem proxy_open_error:
  assumes "carries C TCall (ACallHeader sel)" and "carries C TResponse (AResponseHeader (Some (error_text err)) False)" and "encodes C ANil"
    and "opened = Inl err \<and> b = None \<or> (\<exists>io io1. opened = Inr io \<and> io_Encode D (ACallHeader (cleanSelector sel)) io = (Some err, io1) \<and> b = Some (io1\<lparr>c_closed := True\<rparr>))"
  shows "\<exists>io1 cl. proxy_respond C D opened (chan_with (frame_bytes C (ACallHeader sel) @ args)) = Some (Inl (io1, b)) \<and> c_closed io1
    \<and> call_recv C ts (chan_with (wr_buf (c_out io1)))
        = Some (Some \<lparr>resp_error = Some (error_text err), resp_continue = False, resp_values = []\<rparr>, Some (RemoteError (error_text err)), cl)"
proof -
  let ?h = "AResponseHeader (Some (error_text err)) False"
  let ?io = "(out_frames C [?h, ANil] (chan_with args))\<lparr>c_closed := True\<rparr>"
  have r: "respond C [AError err] False (fresh_responder (chan_with args))
      = (None, \<lparr>responded = True, hdr_error = Some (error_text err), hdr_continue = False, ch = ?io\<rparr>)"
    using respond_ok [of C "[AError err]" "fresh_responder (chan_with args)" False] carries_encodes [OF assms(2)] assms(3)
    by (simp add: fresh_responder_def response_error_def response_values_def chan_with_def)
  have "ProxyHandler C D opened (cleanSelector sel) (fresh_responder (chan_with args))
      = Refused \<lparr>responded = True, hdr_error = Some (error_text err), hdr_continue = False, ch = ?io\<rparr> b"
    using assms(4) r by (auto simp: ProxyHandler_def io_Close_def)
  then have "proxy_respond C D opened (chan_with (frame_bytes C (ACallHeader sel) @ args)) = Some (Inl (?io, b))"
    using rf.dec_enc [OF assms(1), of args None]
    by (simp add: proxy_respond_def chan_with_def fresh_responder_def respond_finish_def io_Close_def)
  moreover have "c_in (chan_with (wr_buf (c_out ?io))) = \<lparr>rd_buf = frame_bytes C ?h @ frame_bytes C ANil, rd_end = None\<rparr>"
    by (simp add: chan_with_def)
  from call_recv_error [OF assms(2) this, of ts] obtain cl where "call_recv C ts (chan_with (wr_buf (c_out ?io)))
      = Some (Some \<lparr>resp_error = Some (error_text err), resp_continue = False, resp_values = []\<rparr>, Some (RemoteError (error_text err)), cl)" by blast
  ultimately show ?thesis by auto
qed

text \<open>
  A peer answers calls. After a handler that receives one value and returns others has been registered under a name, \<^verbatim>\<open>Respond\<close> answers a call for
  this name, in its dotted or its path form, on any channel among those it accepts: the caller's reply variables get the handler's values, whatever the other channels carry.
\<close>

theorem peer_answers_calls:
  assumes "Peer_Handle pat (HFunc f) p = Inr p'" and "cleanSelector sel = cleanSelector pat" and "p_Codec p = C"
    and "funcs f (cleanSelector sel) = unary t g" and "vs = g (Inr arg)" and "single_error vs = None"
    and "carries C TCall (ACallHeader sel)" and "carries C (TVar t) arg" and "carries C TResponse (AResponseHeader None False)"
    and "list_all2 (\<lambda>t v. carries C (TVar t) v) ts vs" and "ts \<noteq> []"
    and "i < length chs" and "wr_fail (c_out (chs ! i)) = None"
    and "c_in (chs ! i) = \<lparr>rd_buf = concat (map (frame_bytes C) [ACallHeader sel, arg]), rd_end = e\<rparr>"
  shows "\<exists>sv1 response cl2. answers (Peer_Respond st funcs p' (map Inr chs @ rest)) ! i = Some sv1 \<and> c_closed sv1
    \<and> wr_buf (c_out sv1) = wr_buf (c_out (chs ! i)) @ response
    \<and> call_recv C ts (cl\<lparr>c_in := \<lparr>rd_buf = response, rd_end = e'\<rparr>\<rparr>)
        = Some (Some \<lparr>resp_error = None, resp_continue = False, resp_values = vs\<rparr>, None, cl2) \<and> c_closed cl2"
proof -
  let ?s = "cleanSelector sel" and ?st = "st(0 := p_RespondMux p')"
  from assms(1) obtain mx where mx: "Handle pat (HFunc f) (p_RespondMux p) = Inr mx" "p' = p\<lparr>p_RespondMux := mx\<rparr>"
    by (auto simp: Peer_Handle_def split: sum.splits)
  have ss: "cleanSelector ?s = ?s" by (simp add: pattern_ok_clean cleanSelector_ok)
  have "m (p_RespondMux p') ?s = Some \<lparr>h = HFunc f, pattern = ?s\<rparr>"
    using mx assms(2) by (auto simp: Handle_cases registered_def Let_def split: if_splits)
  then have "Match ?st 0 ?s = Some (HFunc f, ?s)" by (simp add: Match_step [OF ss [symmetric]])
  then have "mux_prog ?st funcs 0 ?s = Some (unary t g)"
    using assms(4) by (simp add: mux_prog_def mux_Handler_def mux_RespondRPC.simps [of ?st 0])
  moreover have C: "p_Codec p' = C" using mx assms(3) by simp
  ultimately have a: "answers (Peer_Respond st funcs p' (map Inr chs @ rest)) ! i = Server_respond C (\<lambda>_. unary t g) (chs ! i)"
    using answer_ok [OF assms(7), of "chs ! i" "frame_bytes C arg" e "mux_prog ?st funcs 0"] assms(12,14)
    by (simp add: Peer_Respond_def Server_Respond_def respond_loop_answers Let_def nth_append)
  have vs: "list_all (encodes C) vs" "vs \<noteq> []" using assms(10,11) all_encode by auto
  then have r: "response_values vs = vs" "response_error vs None = None"
    using assms(6) by (simp_all add: response_values_def response_error_def)
  let ?r = "concat (map (frame_bytes C) (AResponseHeader None False # vs))"
  obtain sv1 where sv1: "Server_respond C (\<lambda>_. unary t g) (chs ! i) = Some sv1" "c_closed sv1"
    "wr_buf (c_out sv1) = wr_buf (c_out (chs ! i)) @ ?r"
    using server_unary [where hn = "\<lambda>_. unary t g", OF assms(7,8) refl assms(5) _ _ assms(13,14), unfolded r] vs carries_encodes [OF assms(9)] by auto
  from a sv1 call_recv_values [OF assms(9-11), of "cl\<lparr>c_in := \<lparr>rd_buf = ?r, rd_end = e'\<rparr>\<rparr>" "[]" e'] show ?thesis
    by (rule_tac x = sv1 in exI, rule_tac x = ?r in exI) simp
qed

theorem peer_answers_calls_witness:
  "\<exists>p' sv1 response cl2. Peer_Handle ''math.id'' (HFunc 3) (NewPeer () byte_codec) = Inr p'
     \<and> answers (Peer_Respond (\<lambda>_. NewRespondMux) (\<lambda>_ _. unary () (\<lambda>_. [AData [9]])) p'
          [Inr (chan_with [1]), Inr (chan_with (concat (map (frame_bytes byte_codec) [ACallHeader ''/math/id'', AData [9]])))]) ! 1 = Some sv1
     \<and> wr_buf (c_out sv1) = response
     \<and> call_recv byte_codec [()] (idle_io\<lparr>c_in := \<lparr>rd_buf = response, rd_end = None\<rparr>\<rparr>)
         = Some (Some \<lparr>resp_error = None, resp_continue = False, resp_values = [AData [9]]\<rparr>, None, cl2)"
proof -
  let ?p = "NewPeer () byte_codec :: (unit, bytes, unit) Peer"
  let ?chs = "[chan_with [1], chan_with (concat (map (frame_bytes byte_codec) [ACallHeader ''/math/id'', AData [9]]))]"
  have h: "Handle ''math.id'' (HFunc 3) NewRespondMux \<noteq> Inl e" for e
    by (simp add: Handle_cases NewRespondMux_def Let_def)
  then obtain p' where p': "Peer_Handle ''math.id'' (HFunc 3) ?p = Inr p'"
    by (cases "Handle ''math.id'' (HFunc 3) NewRespondMux") (auto simp: Peer_Handle_def NewPeer_def)
  have c: "cleanSelector ''/math/id'' = cleanSelector ''math.id''" by (simp add: cleanSelector_def dots_to_slashes_def)
  have k: "carries byte_codec TCall (ACallHeader ''/math/id'')" "carries byte_codec (TVar ()) (AData [9])"
    "carries byte_codec TResponse (AResponseHeader None False)" "list_all2 (\<lambda>t v. carries byte_codec (TVar t) v) [()] [AData [9]]"
    by (simp_all add: byte_codec_carries)
  from peer_answers_calls [OF p' c _ _ _ _ k, where funcs = "\<lambda>_ _. unary () (\<lambda>_. [AData [9]])" and g = "\<lambda>_. [AData [9]]"
      and i = 1 and chs = ?chs and rest = "[]" and e = None and st = "\<lambda>_. NewRespondMux" and cl = idle_io and e' = None]
  obtain sv1 response cl2 where
    "answers (Peer_Respond (\<lambda>_. NewRespondMux) (\<lambda>_ _. unary () (\<lambda>_. [AData [9]])) p' (map Inr ?chs)) ! 1 = Some sv1"
    "wr_buf (c_out sv1) = response"
    "call_recv byte_codec [()] (idle_io\<lparr>c_in := \<lparr>rd_buf = response, rd_end = None\<rparr>\<rparr>)
       = Some (Some \<lparr>resp_error = None, resp_continue = False, resp_values = [AData [9]]\<rparr>, None, cl2)"
    by (auto simp: NewPeer_def chan_with_def)
  with p' show ?thesis by simp
qed

end
