(* ===== verification/X_Transports.thy ===== *)
theory X_Transports
  imports Rpc_Server
begin

text \<open>
  Sessions over other transports: QUIC (\<^verbatim>\<open>src/x/quic/quic.go\<close>) and WebRTC data channels (\<^verbatim>\<open>src/x/webrtc/webrtc.go\<close>). The packages \<^verbatim>\<open>quic-go\<close> and \<^verbatim>\<open>pion\<close> are
  parameters: what their functions return, and for a data channel a record of its send and receive operations, with the order of messages as a hypothesis where a property needs it. A
  QUIC stream is a byte stream in each direction.

  The lemmas show that the byte with which \<^verbatim>\<open>Open\<close> announces a stream is taken away again by \<^verbatim>\<open>Accept\<close>, what a stream without it does to a
  server, that a WebRTC channel carries the messages written to it and then its end, and that \<^verbatim>\<open>Accept\<close> of a closed WebRTC session waits for ever.
\<close>

section \<open>QUIC\<close>

fun contains :: "string \<Rightarrow> string \<Rightarrow> bool" where
  "contains [] pat = (pat = [])"
| "contains (c # s) pat = (take (length pat) (c # s) = pat \<or> contains s pat)"

definition quic_Dial :: "(string \<Rightarrow> go_error + 'c) \<Rightarrow> string \<Rightarrow> go_error + 'c" where
  "quic_Dial DialAddr addr = (case DialAddr addr of Inl e \<Rightarrow> Inl e | Inr conn \<Rightarrow> Inr conn)"

text \<open>\<^verbatim>\<open>init\<close> adds the dialer to the table of \<^verbatim>\<open>talk\<close>.\<close>

definition quic_init :: "(string \<Rightarrow> go_error + 'c) \<Rightarrow> (string \<rightharpoonup> 'c Dialer) \<Rightarrow> string \<rightharpoonup> 'c Dialer" where
  "quic_init DialAddr dialers = dialers(''quic'' \<mapsto> quic_Dial DialAddr)"

definition quic_Close :: "(nat \<Rightarrow> string \<Rightarrow> 'c \<Rightarrow> go_error option \<times> 'c) \<Rightarrow> 'c \<Rightarrow> go_error option \<times> 'c" where
  "quic_Close CloseWithError conn = CloseWithError 42 ''close connection'' conn"

text \<open>\<^verbatim>\<open>Accept\<close> with what \<^verbatim>\<open>AcceptStream\<close> returned; \<open>None\<close> while the first byte of the stream has not arrived.\<close>

definition quic_Accept :: "go_error + chan_io \<Rightarrow> (go_error + chan_io) option" where
  "quic_Accept accepted =
     (case accepted of
        Inl err \<Rightarrow> Some (Inl (if contains (error_text err) ''close connection'' then EOF else err))
      | Inr stream \<Rightarrow>
          (case ReadFull 1 (c_in stream) of
             RdBlock \<Rightarrow> None
           | RdErr err rd \<Rightarrow> Some (Inl err)
           | RdOk header rd \<Rightarrow> Some (Inr (stream\<lparr>c_in := rd\<rparr>))))"

definition quic_Open :: "go_error + chan_io \<Rightarrow> go_error + chan_io" where
  "quic_Open opened =
     (case opened of
        Inl err \<Rightarrow> Inl err
      | Inr stream \<Rightarrow>
          (case Write [33] (c_out stream) of
             (Some err, w) \<Rightarrow> Inl err
           | (None, w) \<Rightarrow> Inr (stream\<lparr>c_out := w\<rparr>)))"

definition quic_CloseWrite :: "('s \<Rightarrow> go_error option \<times> 's) \<Rightarrow> 's \<Rightarrow> go_error option \<times> 's" where
  "quic_CloseWrite stream_Close s = stream_Close s"

definition quic_chan_Close :: "(nat \<Rightarrow> 's \<Rightarrow> 's) \<Rightarrow> ('s \<Rightarrow> go_error option \<times> 's) \<Rightarrow> 's \<Rightarrow> go_error option \<times> 's" where
  "quic_chan_Close CancelRead stream_Close s = quic_CloseWrite stream_Close (CancelRead 42 s)"

text \<open>\<^verbatim>\<open>Read\<close> and \<^verbatim>\<open>Write\<close> are those of the stream; \<^verbatim>\<open>ID\<close> cuts the stream's 64-bit id, so streams whose ids differ by 2^32 have the same one.\<close>

definition quic_Read :: "(nat \<Rightarrow> 's \<Rightarrow> ((bytes \<times> go_error option) \<times> 's) option) \<Rightarrow> nat \<Rightarrow> 's \<Rightarrow> ((bytes \<times> go_error option) \<times> 's) option" where
  "quic_Read stream_Read n s = stream_Read n s"

definition quic_Write :: "(bytes \<Rightarrow> 's \<Rightarrow> (nat \<times> go_error option) \<times> 's) \<Rightarrow> bytes \<Rightarrow> 's \<Rightarrow> (nat \<times> go_error option) \<times> 's" where
  "quic_Write stream_Write p s = stream_Write p s"

definition quic_ID :: "('s \<Rightarrow> 64 word) \<Rightarrow> 's \<Rightarrow> u32" where
  "quic_ID StreamID s = ucast (StreamID s)"

lemma ucast_wraps: "(ucast (w + 2 ^ 32 :: 64 word) :: u32) = ucast w"
  by transfer (simp add: take_bit_eq_mod mod_add_eq mod_mod_cancel)

lemma quic_ID_wraps: "StreamID s' = StreamID s + 2 ^ 32 \<Longrightarrow> quic_ID StreamID s' = quic_ID StreamID s"
  unfolding quic_ID_def by (simp only: ucast_wraps)

text \<open>\<^verbatim>\<open>Wait\<close> returns the error of the connection's context once it is done; \<open>None\<close> while it waits.\<close>

definition quic_Wait :: "('c \<Rightarrow> go_error option) \<Rightarrow> 'c \<Rightarrow> go_error option" where
  "quic_Wait Context_Err conn = Context_Err conn"

section \<open>WebRTC\<close>

text \<open>
  \<^verbatim>\<open>Offer\<close> and \<^verbatim>\<open>Answer\<close>: the connection that is being set up, with what each step returns. On an error it is closed.
\<close>

datatype 'p peer_setup = Ready 'p | Failed go_error "'p option"   \<comment> \<open>the connection that was closed\<close>

definition Offer :: "go_error + 'p \<Rightarrow> ('p \<Rightarrow> string \<Rightarrow> go_error option) \<Rightarrow> ('p \<Rightarrow> go_error + 'o) \<Rightarrow> ('p \<Rightarrow> 'o \<Rightarrow> go_error option) \<Rightarrow> 'p peer_setup" where
  "Offer newPeer CreateDataChannel CreateOffer SetLocalDescription =
     (case newPeer of
        Inl err \<Rightarrow> Failed err None
      | Inr peer \<Rightarrow>
          (case CreateDataChannel peer ''qtalk-meta'' of
             Some err \<Rightarrow> Failed err (Some peer)
           | None \<Rightarrow>
               (case CreateOffer peer of
                  Inl err \<Rightarrow> Failed err (Some peer)
                | Inr offer \<Rightarrow>
                    (case SetLocalDescription peer offer of
                       Some err \<Rightarrow> Failed err (Some peer)
                     | None \<Rightarrow> Ready peer))))"

definition Answer :: "go_error + 'p \<Rightarrow> 'o \<Rightarrow> ('p \<Rightarrow> 'o \<Rightarrow> go_error option) \<Rightarrow> ('p \<Rightarrow> go_error + 'o) \<Rightarrow> ('p \<Rightarrow> 'o \<Rightarrow> go_error option) \<Rightarrow> 'p peer_setup" where
  "Answer newPeer offer SetRemoteDescription CreateAnswer SetLocalDescription =
     (case newPeer of
        Inl err \<Rightarrow> Failed err None
      | Inr peer \<Rightarrow>
          (case SetRemoteDescription peer offer of
             Some err \<Rightarrow> Failed err (Some peer)
           | None \<Rightarrow>
               (case CreateAnswer peer of
                  Inl err \<Rightarrow> Failed err (Some peer)
                | Inr ans \<Rightarrow>
                    (case SetLocalDescription peer ans of
                       Some err \<Rightarrow> Failed err (Some peer)
                     | None \<Rightarrow> Ready peer))))"

text \<open>A detached data channel sends and receives messages that are marked as text or not; receiving has room for so many bytes, and may wait (\<open>None\<close>).\<close>

record 'q data_channel =
  WriteDataChannel :: "bytes \<Rightarrow> bool \<Rightarrow> 'q \<Rightarrow> go_error option \<times> 'q"
  ReadDataChannel :: "nat \<Rightarrow> 'q \<Rightarrow> ((go_error + bytes \<times> bool) \<times> 'q) option"

record 'q rtc_channel =
  rtc_id :: u32
  rwc :: 'q
  gotEOF :: bool
  closedWrite :: bool

text \<open>\<^verbatim>\<open>newChannel\<close> with what \<^verbatim>\<open>Detach\<close> returned and the channel's 16-bit id.\<close>

definition rtc_newChannel :: "go_error + 'q \<Rightarrow> 16 word \<Rightarrow> go_error + 'q rtc_channel" where
  "rtc_newChannel detached i =
     (case detached of
        Inl err \<Rightarrow> Inl err
      | Inr q \<Rightarrow> Inr \<lparr>rtc_id = ucast i, rwc = q, gotEOF = False, closedWrite = False\<rparr>)"

definition EOF_text :: bytes where "EOF_text = [69, 79, 70]"

definition rtc_Read :: "'q data_channel \<Rightarrow> nat \<Rightarrow> 'q rtc_channel \<Rightarrow> ((go_error + bytes) \<times> 'q rtc_channel) option" where
  "rtc_Read D n c =
     (if gotEOF c then Some (Inl EOF, c)
      else
        map_option
          (\<lambda>(res, q).
             (case res of
                Inl err \<Rightarrow> Inl err
              | Inr (bs, isString) \<Rightarrow> if isString \<and> bs = EOF_text then Inl EOF else Inr bs,
              c\<lparr>rwc := q\<rparr>))
          (ReadDataChannel D n (rwc c)))"

definition rtc_Write :: "'q data_channel \<Rightarrow> bytes \<Rightarrow> 'q rtc_channel \<Rightarrow> go_error option \<times> 'q rtc_channel" where
  "rtc_Write D p c =
     (if closedWrite c then (Some ErrClosedPipe, c)
      else (case WriteDataChannel D p False (rwc c) of (e, q) \<Rightarrow> (e, c\<lparr>rwc := q\<rparr>)))"

definition rtc_CloseWrite :: "'q data_channel \<Rightarrow> 'q rtc_channel \<Rightarrow> go_error option \<times> 'q rtc_channel" where
  "rtc_CloseWrite D c =
     (case WriteDataChannel D EOF_text True (rwc c) of
        (Some e, q) \<Rightarrow> (Some e, c\<lparr>rwc := q\<rparr>)
      | (None, q) \<Rightarrow> (None, c\<lparr>rwc := q, closedWrite := True\<rparr>))"

definition rtc_chan_Close :: "('q \<Rightarrow> go_error option \<times> 'q) \<Rightarrow> 'q rtc_channel \<Rightarrow> go_error option \<times> 'q rtc_channel" where
  "rtc_chan_Close rwc_Close c = (case rwc_Close (rwc c) of (e, q) \<Rightarrow> (e, c\<lparr>rwc := q\<rparr>))"

text \<open>\<^verbatim>\<open>Open\<close>: the data channel opens, or the context ends first and the data channel is closed.\<close>

definition rtc_Open :: "go_error + 'd \<Rightarrow> go_error option \<Rightarrow> ('d \<Rightarrow> go_error + 'q) \<Rightarrow> ('d \<Rightarrow> 16 word) \<Rightarrow> (go_error \<times> 'd option) + 'q rtc_channel" where
  "rtc_Open created ctx_err Detach ID =
     (case created of
        Inl err \<Rightarrow> Inl (err, None)
      | Inr d \<Rightarrow>
          (case ctx_err of
             Some err \<Rightarrow> Inl (err, Some d)
           | None \<Rightarrow> (case rtc_newChannel (Detach d) (ID d) of Inl err \<Rightarrow> Inl (err, None) | Inr c \<Rightarrow> Inr c)))"

text \<open>The session: callbacks that wait to hand over a data channel, and calls of \<^verbatim>\<open>Accept\<close>. Nothing ever closes \<^verbatim>\<open>done\<close>.\<close>

record rtc_session =
  offering :: "nat list"
  acceptors :: nat
  accepted :: "nat list"
  peer_closed :: bool
  rtc_done :: bool

definition rtc_New :: rtc_session where
  "rtc_New = \<lparr>offering = [], acceptors = 0, accepted = [], peer_closed = False, rtc_done = False\<rparr>"

definition on_open :: "string \<Rightarrow> nat \<Rightarrow> rtc_session \<Rightarrow> rtc_session" where
  "on_open label d s = (if label = ''qtalk'' then s\<lparr>offering := offering s @ [d]\<rparr> else s)"

definition rtc_Close :: "rtc_session \<Rightarrow> rtc_session" where
  "rtc_Close s = s\<lparr>peer_closed := True\<rparr>"

inductive rtc_step :: "rtc_session \<Rightarrow> rtc_session \<Rightarrow> bool" where
  opened: "\<not> peer_closed s \<Longrightarrow> rtc_step s (on_open label d s)"
| accept: "rtc_step s (s\<lparr>acceptors := acceptors s + 1\<rparr>)"
| meet: "offering s = d # ds \<Longrightarrow> acceptors s = Suc n
    \<Longrightarrow> rtc_step s (s\<lparr>offering := ds, acceptors := n, accepted := accepted s @ [d]\<rparr>)"
| session_closed: "rtc_done s \<Longrightarrow> acceptors s = Suc n \<Longrightarrow> rtc_step s (s\<lparr>acceptors := n\<rparr>)"
| close: "rtc_step s (rtc_Close s)"

section \<open>Messages in order\<close>

text \<open>A data channel that neither loses nor reorders messages: \<open>msgs\<close> are those on the way.\<close>

definition in_order :: "'q data_channel \<Rightarrow> ('q \<Rightarrow> (bytes \<times> bool) list) \<Rightarrow> bool" where
  "in_order D msgs \<longleftrightarrow>
     (\<forall>m b q. \<exists>q'. WriteDataChannel D m b q = (None, q') \<and> msgs q' = msgs q @ [(m, b)])
     \<and> (\<forall>n q m b ms. msgs q = (m, b) # ms \<and> length m \<le> n \<longrightarrow> (\<exists>q'. ReadDataChannel D n q = Some (Inr (m, b), q') \<and> msgs q' = ms))"

fun rtc_writes :: "'q data_channel \<Rightarrow> bytes list \<Rightarrow> 'q rtc_channel \<Rightarrow> 'q rtc_channel" where
  "rtc_writes D [] c = c"
| "rtc_writes D (p # ps) c = rtc_writes D ps (snd (rtc_Write D p c))"

fun rtc_reads :: "'q data_channel \<Rightarrow> nat \<Rightarrow> nat \<Rightarrow> 'q rtc_channel \<Rightarrow> (go_error + bytes) list option" where
  "rtc_reads D n 0 c = Some []"
| "rtc_reads D n (Suc k) c =
     (case rtc_Read D n c of
        None \<Rightarrow> None
      | Some (res, c1) \<Rightarrow> map_option (\<lambda>rs. res # rs) (rtc_reads D n k c1))"

lemma rtc_writes_msgs:
  assumes "in_order D msgs" and "\<not> closedWrite c"
  shows "msgs (rwc (rtc_writes D ps c)) = msgs (rwc c) @ map (\<lambda>p. (p, False)) ps \<and> \<not> closedWrite (rtc_writes D ps c)
    \<and> gotEOF (rtc_writes D ps c) = gotEOF c"
  using assms(2)
proof (induction ps arbitrary: c)
  case (Cons p ps)
  obtain q' where "WriteDataChannel D p False (rwc c) = (None, q')" "msgs q' = msgs (rwc c) @ [(p, False)]"
    using assms(1) unfolding in_order_def by blast
  then show ?case using Cons by (simp add: rtc_Write_def)
qed simp

lemma rtc_reads_msgs:
  assumes "in_order D msgs" and "\<not> gotEOF c" and "msgs (rwc c) = map (\<lambda>p. (p, False)) ps @ [(EOF_text, True)]"
    and "\<forall>p \<in> set ps. length p \<le> n" and "3 \<le> n"
  shows "rtc_reads D n (length ps + 1) c = Some (map Inr ps @ [Inl EOF])"
  using assms(2-4)
proof (induction ps arbitrary: c)
  case Nil
  then have "msgs (rwc c) = (EOF_text, True) # [] \<and> length EOF_text \<le> n" using assms(5) by (simp add: EOF_text_def)
  then obtain q' where "ReadDataChannel D n (rwc c) = Some (Inr (EOF_text, True), q')" using assms(1) unfolding in_order_def by blast
  with Nil show ?case by (simp add: rtc_Read_def)
next
  case (Cons p ps)
  then have "msgs (rwc c) = (p, False) # map (\<lambda>p. (p, False)) ps @ [(EOF_text, True)] \<and> length p \<le> n" by simp
  then obtain q' where q': "ReadDataChannel D n (rwc c) = Some (Inr (p, False), q')" "msgs q' = map (\<lambda>p. (p, False)) ps @ [(EOF_text, True)]"
    using assms(1) unfolding in_order_def by blast
  with Cons.IH [of "c\<lparr>rwc := q'\<rparr>"] Cons.prems show ?case by (simp add: rtc_Read_def)
qed

section \<open>Properties\<close>

text \<open>
  Over QUIC, one stream is enough to end a server. \<^verbatim>\<open>Open\<close> sends a byte to announce the stream and \<^verbatim>\<open>Accept\<close> takes it away, so that everything written afterwards is read on the other side; but
  a stream that ends, or is reset, before this byte makes \<^verbatim>\<open>Accept\<close> return the stream's error as its own: \<^verbatim>\<open>Respond\<close> stops serving the session, and panics unless the error is \<^verbatim>\<open>io.EOF\<close>.
\<close>

theorem quic_first_byte:
  assumes "srv_Codec s = Some C" and "wr_fail (c_out a) = None" and "c_in b = \<lparr>rd_buf = [33] @ bs, rd_end = e\<rparr>"
    and "c_in d = \<lparr>rd_buf = [], rd_end = Some err\<rparr>"
  shows "(\<exists>a'. quic_Open (Inr a) = Inr a' \<and> wr_buf (c_out a') = wr_buf (c_out a) @ [33])
    \<and> quic_Accept (Inr b) = Some (Inr (b\<lparr>c_in := \<lparr>rd_buf = bs, rd_end = e\<rparr>\<rparr>))
    \<and> (\<exists>x. quic_Accept (Inr d) = Some (Inl x) \<and> x = err
        \<and> sess_closed (Server_Respond s (map Inr chs @ Inl x # rest))
        \<and> ending (Server_Respond s (map Inr chs @ Inl x # rest)) = (if err = EOF then Returns else Panics (error_text err)))"
proof (intro conjI)
  show "\<exists>a'. quic_Open (Inr a) = Inr a' \<and> wr_buf (c_out a') = wr_buf (c_out a) @ [33]"
    using assms(2) by (simp add: quic_Open_def Write_ok)
  show "quic_Accept (Inr b) = Some (Inr (b\<lparr>c_in := \<lparr>rd_buf = bs, rd_end = e\<rparr>\<rparr>))"
    using assms(3) ReadFull_append [of "[33]" bs e] by (simp add: quic_Accept_def)
  have "quic_Accept (Inr d) = Some (Inl err)" using assms(4) by (simp add: quic_Accept_def ReadFull_def)
  then show "\<exists>x. quic_Accept (Inr d) = Some (Inl x) \<and> x = err
        \<and> sess_closed (Server_Respond s (map Inr chs @ Inl x # rest))
        \<and> ending (Server_Respond s (map Inr chs @ Inl x # rest)) = (if err = EOF then Returns else Panics (error_text err))"
    using assms(1) by (simp add: Server_Respond_def respond_loop_answers Let_def)
qed

theorem quic_first_byte_witness:
  "ending (Server_Respond \<lparr>srv_Handler = None, srv_Codec = Some byte_codec\<rparr> [Inl (ErrorString ''reset'')]) = Panics ''reset''
     \<and> quic_Accept (Inr ((chan_with [])\<lparr>c_in := \<lparr>rd_buf = [], rd_end = Some (ErrorString ''reset'')\<rparr>\<rparr>)) = Some (Inl (ErrorString ''reset''))"
proof -
  let ?d = "(chan_with [])\<lparr>c_in := \<lparr>rd_buf = [], rd_end = Some (ErrorString ''reset'')\<rparr>\<rparr>"
  have "srv_Codec \<lparr>srv_Handler = None, srv_Codec = Some byte_codec\<rparr> = Some byte_codec" "wr_fail (c_out (chan_with [])) = None"
    "c_in (chan_with [33]) = \<lparr>rd_buf = [33] @ [], rd_end = None\<rparr>" "c_in ?d = \<lparr>rd_buf = [], rd_end = Some (ErrorString ''reset'')\<rparr>"
    by (simp_all add: chan_with_def)
  from quic_first_byte [OF this, of "[]" "[]"] show ?thesis by simp
qed

text \<open>
  A WebRTC channel over a data channel that keeps messages in order: what is written message by message and then ended by \<^verbatim>\<open>CloseWrite\<close> is read as the same messages and then \<^verbatim>\<open>io.EOF\<close>, given a
  buffer that has room for each of them. A written message that consists of the very bytes of the end mark is data, because it is not marked as text. No \<^verbatim>\<open>Write\<close> succeeds after \<^verbatim>\<open>CloseWrite\<close>.
\<close>

theorem webrtc_messages:
  assumes "in_order D msgs" and "msgs (rwc c) = []" and "\<not> closedWrite c" and "\<not> gotEOF c"
    and "\<forall>p \<in> set ps. length p \<le> n" and "3 \<le> n" and "rtc_CloseWrite D (rtc_writes D ps c) = (err, c')"
  shows "err = None \<and> rtc_reads D n (length ps + 1) c' = Some (map Inr ps @ [Inl EOF]) \<and> rtc_Write D p c' = (Some ErrClosedPipe, c')"
proof -
  let ?c = "rtc_writes D ps c"
  have w: "msgs (rwc ?c) = map (\<lambda>p. (p, False)) ps" "\<not> gotEOF ?c" using rtc_writes_msgs [OF assms(1,3), of ps] assms(2,4) by simp_all
  obtain q' where q': "WriteDataChannel D EOF_text True (rwc ?c) = (None, q')" "msgs q' = msgs (rwc ?c) @ [(EOF_text, True)]"
    using assms(1) unfolding in_order_def by blast
  then have c': "err = None" "c' = ?c\<lparr>rwc := q', closedWrite := True\<rparr>" using assms(7) by (simp_all add: rtc_CloseWrite_def)
  then have "\<not> gotEOF c'" "msgs (rwc c') = map (\<lambda>p. (p, False)) ps @ [(EOF_text, True)]" using w q' by simp_all
  from rtc_reads_msgs [OF assms(1) this assms(5,6)] c' show ?thesis by (simp add: rtc_Write_def)
qed

text \<open>A queue of messages as a data channel, for the witness.\<close>

definition queue_channel :: "(bytes \<times> bool) list data_channel" where
  "queue_channel = \<lparr>WriteDataChannel = (\<lambda>m b q. (None, q @ [(m, b)])),
     ReadDataChannel = (\<lambda>n q. case q of [] \<Rightarrow> None | x # xs \<Rightarrow> Some (Inr x, xs))\<rparr>"

theorem webrtc_messages_witness:
  "\<exists>c'. rtc_CloseWrite queue_channel (rtc_writes queue_channel [[1], EOF_text] \<lparr>rtc_id = 0, rwc = [], gotEOF = False, closedWrite = False\<rparr>) = (None, c')
     \<and> rtc_reads queue_channel 8 3 c' = Some [Inr [1], Inr EOF_text, Inl EOF]"
proof -
  let ?c = "\<lparr>rtc_id = 0, rwc = [], gotEOF = False, closedWrite = False\<rparr> :: (bytes \<times> bool) list rtc_channel"
  obtain err c' where r: "rtc_CloseWrite queue_channel (rtc_writes queue_channel [[1], EOF_text] ?c) = (err, c')" by fastforce
  have "in_order queue_channel (\<lambda>q. q)" by (simp add: in_order_def queue_channel_def)
  from webrtc_messages [OF this _ _ _ _ _ r, of 8] r show ?thesis by (simp add: EOF_text_def numeral_3_eq_3)
qed

text \<open>
  \<^verbatim>\<open>Accept\<close> of a closed WebRTC session. Once the session is closed and no data channel is waiting to be handed over, no step of any kind lets a call of \<^verbatim>\<open>Accept\<close> return: a server
  that responds on the session waits for ever.
\<close>

theorem webrtc_accept_waits:
  assumes "rtc_step\<^sup>*\<^sup>* rtc_New s" and "peer_closed s" and "offering s = []" and "rtc_step\<^sup>*\<^sup>* s s'"
  shows "acceptors s \<le> acceptors s' \<and> accepted s' = accepted s"
proof -
  have d: "\<not> rtc_done s" using assms(1)
    by (induction rule: rtranclp_induct) (auto simp: rtc_New_def on_open_def rtc_Close_def elim!: rtc_step.cases split: if_splits)
  from assms(4) have "acceptors s \<le> acceptors s' \<and> accepted s' = accepted s \<and> peer_closed s' \<and> offering s' = [] \<and> \<not> rtc_done s'"
  proof (induction rule: rtranclp_induct)
    case base
    then show ?case using assms(2,3) d by simp
  next
    case (step y z)
    from step(2,3) show ?case by (cases rule: rtc_step.cases) (auto simp: rtc_Close_def)
  qed
  then show ?thesis by simp
qed

theorem webrtc_accept_waits_witness:
  "\<exists>s. rtc_step\<^sup>*\<^sup>* rtc_New s \<and> peer_closed s \<and> acceptors s = 1 \<and> 1 \<le> acceptors s"
proof -
  let ?t = "rtc_New\<lparr>acceptors := acceptors rtc_New + 1\<rparr>"
  have "rtc_step\<^sup>*\<^sup>* rtc_New (rtc_Close ?t)" using rtc_step.accept [of rtc_New] rtc_step.close [of ?t] by (rule converse_rtranclp_into_rtranclp [OF _ r_into_rtranclp])
  then have r: "rtc_step\<^sup>*\<^sup>* rtc_New (rtc_Close ?t)" "peer_closed (rtc_Close ?t)" "offering (rtc_Close ?t) = []" "acceptors (rtc_Close ?t) = 1"
    by (simp_all add: rtc_Close_def rtc_New_def)
  from webrtc_accept_waits [OF r(1-3) rtranclp.rtrancl_refl] r show ?thesis by auto
qed

end
