(* ===== verification/Json_Codec.thy ===== *)
theory Json_Codec
  imports Json_Text Rpc_Call "HOL-Library.List_Lexorder" "HOL-Library.Char_ord"
begin

text \<open>
  The JSON codec (\<^verbatim>\<open>src/codec/json.go\<close>): what \<^verbatim>\<open>json.NewEncoder\<close> and \<^verbatim>\<open>json.NewDecoder\<close> do with the values that this program
  sends and with the variables it decodes into: headers, the byte slice of \<^verbatim>\<open>Receive(nil)\<close>, and variables of type \<^verbatim>\<open>any\<close>. The exported fields of an error value depend on
  its Go type and are a parameter (\<open>json_lib\<close>), as is the formatting of numbers that are no integers.

  The lemmas show that the codec carries the headers and values that the properties of the RPC layer assume a codec to carry, so calls over JSON return what the
  handler returned.
\<close>

section \<open>Encoding values\<close>

record json_lib =
  formatFloat :: format_float
  err_fields :: "go_error \<Rightarrow> (string \<times> json) list"

text \<open>The values of the RPC layer; a header is a struct, whose fields are in the order of the source.\<close>

fun any_json :: "json_lib \<Rightarrow> json any \<Rightarrow> json" where
  "any_json L ANil = JNull"
| "any_json L (ACallHeader s) = JObj [(''Selector'', JStr s)]"
| "any_json L (AResponseHeader e c) = JObj [(''Error'', case e of None \<Rightarrow> JNull | Some s \<Rightarrow> JStr s), (''Continue'', JBool c)]"
| "any_json L (AError e) = JObj (err_fields L e)"
| "any_json L (AData j) = j"

definition json_Encode :: "json_lib \<Rightarrow> json any \<Rightarrow> go_error + bytes" where
  "json_Encode L v = Inr (map char_byte (json_text (formatFloat L) (any_json L v) @ [newline]))"

section \<open>Decoding into variables\<close>

text \<open>A literal as sign, digits without the decimal point, and exponent.\<close>

definition literal_parts :: "string \<Rightarrow> bool \<times> nat \<times> int" where
  "literal_parts l =
     (let neg = (take 1 l = ''-'');
          s = (if neg then tl l else l);
          ip = takeWhile is_digit s;
          s1 = dropWhile is_digit s;
          (fp, s2) = (if take 1 s1 = ''.'' then (takeWhile is_digit (tl s1), dropWhile is_digit (tl s1)) else ([], s1));
          sign = take 1 (tl s2);
          ex = (case digits_value 0 (if sign = ''+'' \<or> sign = ''-'' then tl (tl s2) else tl s2) of None \<Rightarrow> 0 | Some n \<Rightarrow> int n)
      in (neg, the (digits_value 0 (ip @ fp)), (if sign = ''-'' then - ex else ex) - int (length fp)))"

text \<open>From here on a number rounds to infinity.\<close>

definition float64_limit :: int where "float64_limit = 2 ^ 1024 - 2 ^ 970"

definition overflows :: "string \<Rightarrow> bool" where
  "overflows l = (case literal_parts l of (neg, mant, e) \<Rightarrow>
     if e \<ge> 0 then float64_limit \<le> int mant * 10 ^ nat e else float64_limit * 10 ^ nat (- e) \<le> int mant)"

definition go_number :: "string \<Rightarrow> json" where
  "go_number l =
     (case literal_parts l of (neg, mant, e) \<Rightarrow>
        if e \<ge> 0 \<or> int mant mod 10 ^ nat (- e) = 0 then
          (let n = (if e \<ge> 0 then int mant * 10 ^ nat e else int mant div 10 ^ nat (- e)) in
           if n \<le> 2 ^ 53 \<and> \<not> (neg \<and> n = 0) then JNum (if neg then - n else n) else JLit l)
        else JLit l)"

fun obj_put :: "string \<Rightarrow> json \<Rightarrow> (string \<times> json) list \<Rightarrow> (string \<times> json) list" where
  "obj_put k v [] = [(k, v)]"
| "obj_put k v ((k', v') # kvs) =
     (if k = k' then (k, v) # kvs else if k < k' then (k, v) # (k', v') # kvs else (k', v') # obj_put k v kvs)"

text \<open>The value of a tree in a variable of type \<^verbatim>\<open>any\<close>; of members with the same key the last one counts.\<close>

fun go_value :: "json \<Rightarrow> json" where
  "go_value (JLit l) = go_number l"
| "go_value (JArr vs) = JArr (map go_value vs)"
| "go_value (JObj kvs) = JObj (foldl (\<lambda>acc (k, v). obj_put k v acc) [] (map (\<lambda>(k, v). (k, go_value v)) kvs))"
| "go_value j = j"

fun literals :: "json \<Rightarrow> string list" where
  "literals (JLit l) = [l]"
| "literals (JArr vs) = concat (map literals vs)"
| "literals (JObj kvs) = concat (map (\<lambda>(k, v). literals v) kvs)"
| "literals j = []"

text \<open>The type errors; the first one is kept and the rest of the value still decoded.\<close>

fun kind_text :: "json \<Rightarrow> string" where
  "kind_text (JBool _) = ''bool''"
| "kind_text (JStr _) = ''string''"
| "kind_text (JArr _) = ''array''"
| "kind_text (JObj _) = ''object''"
| "kind_text _ = ''number''"

definition type_error :: "string \<Rightarrow> string \<Rightarrow> string \<Rightarrow> go_error" where
  "type_error what into T = ErrorString (''json: cannot unmarshal '' @ what @ '' into Go '' @ into @ '' of type '' @ T)"

definition save :: "go_error option \<Rightarrow> go_error \<Rightarrow> go_error option" where
  "save old e = (case old of None \<Rightarrow> Some e | Some x \<Rightarrow> Some x)"

definition into_any :: "json \<Rightarrow> go_error + json any" where
  "into_any j =
     (case find overflows (literals j) of
        Some l \<Rightarrow> Inl (type_error (''number '' @ l) ''value'' ''float64'')
      | None \<Rightarrow> Inr (case go_value j of JNull \<Rightarrow> ANil | v \<Rightarrow> AData v))"

text \<open>Keys and names of fields are compared without regard to case; two letters beyond ASCII fold to \<^verbatim>\<open>s\<close> and \<^verbatim>\<open>k\<close>.\<close>

function fold_key :: "string \<Rightarrow> string" where
  "fold_key [] = []"
| "fold_key (c # s) =
     (if take 2 (c # s) = encode_rune 0x17F then CHR ''s'' # fold_key (tl s)
      else if take 3 (c # s) = encode_rune 0x212A then CHR ''k'' # fold_key (drop 2 s)
      else (if 65 \<le> code c \<and> code c \<le> 90 then char_of (code c + 32) else c) # fold_key s)"
  by pat_completeness auto
termination by (relation "measure length") auto

definition call_field :: "string \<times> go_error option \<Rightarrow> string \<times> json \<Rightarrow> string \<times> go_error option" where
  "call_field st kv =
     (case (st, kv) of ((sel, err), (k, v)) \<Rightarrow>
        if fold_key k = ''selector'' then
          (case v of
             JStr s \<Rightarrow> (s, err)
           | JNull \<Rightarrow> (sel, err)
           | _ \<Rightarrow> (sel, save err (type_error (kind_text v) ''struct field Call.Selector'' ''string'')))
        else
          (case find (\<lambda>(f, T). fold_key f = fold_key k)
                 [(''Caller'', ''rpc.Caller''), (''Decoder'', ''codec.Decoder''), (''Context'', ''context.Context''), (''Channel'', ''mux.Channel'')] of
             Some (f, T) \<Rightarrow> (sel, if v = JNull then err else save err (type_error (kind_text v) (''struct field Call.'' @ f) T))
           | None \<Rightarrow> (sel, err)))"

definition into_call :: "json \<Rightarrow> go_error + json any" where
  "into_call j =
     (case j of
        JNull \<Rightarrow> Inr (ACallHeader [])
      | JObj kvs \<Rightarrow> (case foldl call_field ([], None) kvs of (sel, Some e) \<Rightarrow> Inl e | (sel, None) \<Rightarrow> Inr (ACallHeader sel))
      | _ \<Rightarrow> Inl (type_error (kind_text j) ''value'' ''rpc.Call''))"

definition response_field :: "(string option \<times> bool) \<times> go_error option \<Rightarrow> string \<times> json \<Rightarrow> (string option \<times> bool) \<times> go_error option" where
  "response_field st kv =
     (case (st, kv) of (((e, c), err), (k, v)) \<Rightarrow>
        if fold_key k = ''error'' then
          (case v of
             JStr s \<Rightarrow> ((Some s, c), err)
           | JNull \<Rightarrow> ((None, c), err)
           | _ \<Rightarrow> ((e, c), save err (type_error (kind_text v) ''struct field ResponseHeader.Error'' ''string'')))
        else if fold_key k = ''continue'' then
          (case v of
             JBool b \<Rightarrow> ((e, b), err)
           | JNull \<Rightarrow> ((e, c), err)
           | _ \<Rightarrow> ((e, c), save err (type_error (kind_text v) ''struct field ResponseHeader.Continue'' ''bool'')))
        else ((e, c), err))"

definition into_response :: "json \<Rightarrow> go_error + json any" where
  "into_response j =
     (case j of
        JNull \<Rightarrow> Inr (AResponseHeader None False)
      | JObj kvs \<Rightarrow>
          (case foldl response_field ((None, False), None) kvs of
             (_, Some e) \<Rightarrow> Inl e
           | ((e, c), None) \<Rightarrow> Inr (AResponseHeader e c))
      | _ \<Rightarrow> Inl (type_error (kind_text j) ''value'' ''rpc.ResponseHeader''))"

text \<open>Where \<^verbatim>\<open>base64.StdEncoding\<close> finds its input corrupt: \<open>j\<close> characters of the current group have been read.\<close>

definition base64_char :: "char \<Rightarrow> bool" where
  "base64_char c \<longleftrightarrow> is_digit c \<or> 65 \<le> code c \<and> code c \<le> 90 \<or> 97 \<le> code c \<and> code c \<le> 122 \<or> c = CHR ''+'' \<or> c = CHR 0x2F"

abbreviation skip_nl :: "string \<Rightarrow> string" where "skip_nl \<equiv> dropWhile (\<lambda>c. c = newline \<or> c = CHR 0x0D)"

definition base64_end :: "nat \<Rightarrow> string \<Rightarrow> nat option" where
  "base64_end i s = (if skip_nl s = [] then None else Some (i + length s - length (skip_nl s)))"

fun base64_corrupt :: "nat \<Rightarrow> nat \<Rightarrow> string \<Rightarrow> nat option" where
  "base64_corrupt i j [] = (if j = 0 then None else Some (i - j))"
| "base64_corrupt i j (c # s) =
     (if base64_char c then base64_corrupt (i + 1) ((j + 1) mod 4) s
      else if c = newline \<or> c = CHR 0x0D then base64_corrupt (i + 1) j s
      else if c \<noteq> CHR ''='' \<or> j < 2 then Some i
      else if j = 2 then
        (case skip_nl s of
           [] \<Rightarrow> Some (i + 1 + length s)
         | x # s1 \<Rightarrow>
             if x \<noteq> CHR ''='' then Some (i + length s - length (skip_nl s))
             else base64_end (i + 2 + length s - length (skip_nl s)) s1)
      else base64_end (i + 1) s)"

definition byte_error :: "json \<Rightarrow> go_error option" where
  "byte_error v =
     (case v of
        JNull \<Rightarrow> None
      | JLit l \<Rightarrow>
          (case digits_value 0 l of
             Some n \<Rightarrow> if n < 256 then None else Some (type_error (''number '' @ l) ''value'' ''uint8'')
           | None \<Rightarrow> Some (type_error (''number '' @ l) ''value'' ''uint8''))
      | _ \<Rightarrow> Some (type_error (kind_text v) ''value'' ''uint8''))"

text \<open>The byte slice that is thrown away; what it holds does not matter.\<close>

definition into_bytes :: "json \<Rightarrow> go_error + json any" where
  "into_bytes j =
     (case j of
        JNull \<Rightarrow> Inr ANil
      | JStr s \<Rightarrow>
          (case base64_corrupt 0 0 s of
             None \<Rightarrow> Inr ANil
           | Some n \<Rightarrow> Inl (ErrorString (''illegal base64 data at input byte '' @ show_nat n)))
      | JArr vs \<Rightarrow> (case List.map_filter byte_error vs of [] \<Rightarrow> Inr ANil | e # _ \<Rightarrow> Inl e)
      | _ \<Rightarrow> Inl (type_error (kind_text j) ''value'' ''[]uint8''))"

fun unmarshal :: "unit target \<Rightarrow> json \<Rightarrow> go_error + json any" where
  "unmarshal TCall j = into_call j"
| "unmarshal TResponse j = into_response j"
| "unmarshal TDiscard j = into_bytes j"
| "unmarshal (TVar _) j = into_any j"

text \<open>\<^verbatim>\<open>strconv.Quote\<close> of a character between single quotes, for the errors of the scanner.\<close>

definition quote_rune :: "char \<Rightarrow> string" where
  "quote_rune c =
     (let n = code c; q = CHR 0x27 in
      [q] @
      (if c = q then [bslash, q]
       else if c = bslash then [bslash, bslash]
       else if 7 \<le> n \<and> n \<le> 13 then [bslash, ''abtnvfr'' ! (n - 7)]
       else if n < 32 \<or> n = 127 then [bslash, CHR ''x'', hex_char (n div 16), hex_char (n mod 16)]
       else if n < 127 then [c]
       else if n < 0xA0 \<or> n = 0xAD then u_escape n
       else encode_rune n)
      @ [q])"

primrec json_error_of :: "json_error \<Rightarrow> go_error" where
  "json_error_of AtEnd = ErrUnexpectedEOF"
| "json_error_of (BadChar c ctx) = ErrorString (''invalid character '' @ quote_rune c @ '' '' @ ctx)"
| "json_error_of TooDeep = ErrorString ''exceeded max depth''"

text \<open>\<^verbatim>\<open>Decode\<close> reads one value; what follows it in the buffer is left alone.\<close>

definition json_Decode :: "unit target \<Rightarrow> bytes \<Rightarrow> go_error + json any" where
  "json_Decode t b =
     (let s = map byte_char b in
      if skip_ws s = [] then Inl EOF
      else (case parse_value 0 s of Inl e \<Rightarrow> Inl (json_error_of e) | Inr (j, _) \<Rightarrow> unmarshal t j))"

definition JSONCodec :: "json_lib \<Rightarrow> (json, unit) codec" where
  "JSONCodec L = \<lparr>c_enc = json_Encode L, c_dec = json_Decode\<rparr>"

section \<open>Values come back\<close>

text \<open>
  To come back as the same value, a map has to be in the order of its keys and an integer within the range in which \<^verbatim>\<open>float64\<close> is exact.
\<close>

fun json_ok :: "json \<Rightarrow> bool" where
  "json_ok (JNum n) \<longleftrightarrow> \<bar>n\<bar> \<le> 2 ^ 53"
| "json_ok (JLit s) \<longleftrightarrow> False"
| "json_ok (JStr s) \<longleftrightarrow> valid_utf8 s"
| "json_ok (JArr vs) \<longleftrightarrow> list_all json_ok vs"
| "json_ok (JObj kvs) \<longleftrightarrow> sorted_wrt (<) (map fst kvs) \<and> list_all (\<lambda>(k, v). valid_utf8 k \<and> json_ok v) kvs"
| "json_ok _ \<longleftrightarrow> True"

lemma json_ok_readable: "json_ok v \<Longrightarrow> readable v"
proof (induction v)
  case (JObj kvs)
  then show ?case by (fastforce simp: list_all_iff)
qed (auto simp: list_all_iff)

lemma literal_parts_show: "literal_parts (show_int n) = (n < 0, nat \<bar>n\<bar>, 0)"
proof -
  have d: "takeWhile is_digit (show_nat k) = show_nat k" "dropWhile is_digit (show_nat k) = []" for k
    using digits_append [OF show_nat_digits, of "[]" k] by (simp_all add: delim_def)
  have m: "take 1 (show_nat k) \<noteq> ''-''" for k using show_nat_hd [of k] by (cases "show_nat k") auto
  show ?thesis
    using m [of "nat n"] by (auto simp: literal_parts_def show_int_def d digits_value_show Let_def)
qed

lemma go_number_show: "\<bar>n\<bar> \<le> 2 ^ 53 \<Longrightarrow> go_number (show_int n) = JNum n"
  by (auto simp: go_number_def literal_parts_show Let_def)

lemma overflows_show: "\<bar>n\<bar> \<le> 2 ^ 53 \<Longrightarrow> \<not> overflows (show_int n)"
  by (simp add: overflows_def literal_parts_show float64_limit_def)

section \<open>The codec carries values\<close>

lemma obj_put_last: "list_all (\<lambda>k'. k' < k) (map fst kvs) \<Longrightarrow> obj_put k v kvs = kvs @ [(k, v)]"
  by (induction kvs) auto

lemma obj_put_sorted:
  "sorted_wrt (<) (map fst (acc @ kvs)) \<Longrightarrow> foldl (\<lambda>acc (k, v). obj_put k v acc) acc kvs = acc @ kvs"
proof (induction kvs arbitrary: acc)
  case (Cons kv kvs)
  obtain k v where kv: "kv = (k, v)" by (cases kv)
  from Cons.prems have "list_all (\<lambda>k'. k' < k) (map fst acc)" by (auto simp: kv sorted_wrt_append list_all_iff)
  then have "obj_put k v acc = acc @ [kv]" by (simp add: obj_put_last kv)
  with Cons.IH [of "acc @ [kv]"] Cons.prems show ?case by (simp add: kv)
qed simp

lemma go_value_tree: "json_ok v \<Longrightarrow> go_value (tree_of v) = v"
proof (induction v)
  case (JArr vs)
  then show ?case by (auto simp: list_all_iff intro: map_idI)
next
  case (JObj kvs)
  have "map (\<lambda>(k, v). (k, go_value v)) (map (\<lambda>(k, v). (k, tree_of v)) kvs) = kvs"
    using JObj by (fastforce simp: list_all_iff intro!: map_idI)
  with obj_put_sorted [of "[]" kvs] JObj.prems show ?case by simp
qed (auto simp: go_number_show)

lemma literals_tree: "json_ok v \<Longrightarrow> l \<in> set (literals (tree_of v)) \<Longrightarrow> \<not> overflows l"
proof (induction v arbitrary: l)
  case (JObj kvs)
  then show ?case by (fastforce simp: list_all_iff)
qed (auto simp: overflows_show list_all_iff)

definition fits :: "json \<Rightarrow> bool" where
  "fits v \<longleftrightarrow> readable v \<and> json_depth v \<le> maxNestingDepth"

lemma spell_not_blank: "fits v \<Longrightarrow> (\<And>i. list_all json_space (ws i)) \<Longrightarrow> list_all json_space col \<Longrightarrow> skip_ws (spell L ws col i v @ t) \<noteq> []"
  using reads_spell [of v 0 ws col L i] by (auto simp: fits_def reads_def)

lemma byte_char_text: "map byte_char (map char_byte s) = s"
  by (induction s) simp_all

lemma json_Decode_spell:
  assumes "fits v" and "\<And>i. list_all json_space (ws i)" and "list_all json_space col" and "delim t"
  shows "json_Decode g (map char_byte (spell L ws col i v @ t)) = unmarshal g (tree_of v)"
proof -
  have "parse_value 0 (spell L ws col i v @ t) = Inr (tree_of v, t)"
    using reads_spell [of v 0 ws col L i] assms by (simp add: fits_def reads_def)
  then show ?thesis using spell_not_blank [of v ws col L i t] assms(1-3) byte_char_text [of "spell L ws col i v @ t"]
    by (auto simp: json_Decode_def Let_def simp del: map_map map_append dropWhile_eq_Nil_conv)
qed

lemma into_any_tree: "json_ok v \<Longrightarrow> into_any (tree_of v) = Inr (if v = JNull then ANil else AData v)"
proof -
  assume v: "json_ok v"
  then have "find overflows (literals (tree_of v)) = None" using literals_tree by (auto simp: find_None_iff)
  with go_value_tree [OF v] show ?thesis by (simp add: into_any_def split: json.splits)
qed


text \<open>What is sent is at most six times as long as the string.\<close>

lemma u_escape_length: "length (u_escape n) = 6"
  by (simp add: u_escape_def)

lemma escape_length: "length (escape c) \<le> 6"
  by (auto simp: escape_def u_escape_length)

lemma quote_body_length: "length (quote_body s) \<le> 6 * length s"
proof (induction s rule: quote_body.induct)
  case (2 c cs)
  let ?k = "rune_len (c # cs)"
  show ?case
  proof (cases "code c < 0x80")
    case True
    with "2.IH"(1) escape_length [of c] show ?thesis by simp
  next
    case False
    note k = False refl
    show ?thesis
    proof (cases "?k = 0")
      case True
      with "2.IH"(2) [OF k] False show ?thesis by (simp add: u_escape_length)
    next
      case k0: False
      with "2.IH"(3,4) [OF k k0] False rune_len_le [of "c # cs"] show ?thesis
        by (cases "line_separator (c # cs)") (auto simp: u_escape_length Let_def min_def)
    qed
  qed
qed simp

definition sendable :: "string \<Rightarrow> bool" where
  "sendable s \<longleftrightarrow> valid_utf8 s \<and> length s < 2 ^ 29"

lemma json_text_string: "length (json_quote s) \<le> 6 * length s + 2"
  using quote_body_length [of s] by (simp add: json_quote_def)

lemma json_Decode_text:
  assumes "fits (any_json L v)"
  shows "json_Encode L v = Inr b \<Longrightarrow> json_Decode g b = unmarshal g (tree_of (any_json L v))"
  using json_Decode_spell [OF assms, of "\<lambda>_. []" "[]" "[newline]" g "formatFloat L" 0] by (auto simp: json_Encode_def json_text_def)

lemma carries_JSONCodec:
  assumes "fits (any_json L v)" and "length (json_text (formatFloat L) (any_json L v)) < 2 ^ 32 - 1" and "unmarshal g (tree_of (any_json L v)) = Inr v"
  shows "carries (JSONCodec L) g v"
proof -
  obtain b where b: "json_Encode L v = Inr b" by (simp add: json_Encode_def)
  then have "length b < 2 ^ 32" using assms(2) by (auto simp: json_Encode_def)
  with b json_Decode_text [OF assms(1) b] assms(3) show ?thesis by (simp add: carries_def JSONCodec_def)
qed

lemma fold_key_ascii: "code c < 0x80 \<Longrightarrow> fold_key (c # s) = (if 65 \<le> code c \<and> code c \<le> 90 then char_of (code c + 32) else c) # fold_key s"
  by (auto simp: encode_rune_def fold_key.simps(2))

declare fold_key.simps(2) [simp del]

lemma field_names:
  "fold_key ''Selector'' = ''selector''" "fold_key ''Error'' = ''error''" "fold_key ''Continue'' = ''continue''"
  "valid_utf8 ''Selector''" "valid_utf8 ''Error''" "valid_utf8 ''Continue''"
  by (simp_all add: fold_key_ascii valid_utf8_Cons rune_len_ascii char_of_def bit_0 valid_utf8.simps [of "[]"])

lemma json_carries_nil: "carries (JSONCodec L) (TVar x) ANil"
  by (rule carries_JSONCodec) (simp_all add: fits_def json_text_def into_any_def)

lemma json_carries_call:
  assumes "sendable s"
  shows "carries (JSONCodec L) TCall (ACallHeader s)"
proof (rule carries_JSONCodec)
  show "fits (any_json L (ACallHeader s))" using assms by (simp add: fits_def sendable_def field_names maxNestingDepth_def)
  have "length (json_quote s) < 2 ^ 32 - 100" "length (json_quote ''Selector'') \<le> 50"
    using json_text_string [of s] json_text_string [of "''Selector''"] assms by (auto simp: sendable_def)
  then show "length (json_text (formatFloat L) (any_json L (ACallHeader s))) < 2 ^ 32 - 1" by (simp add: json_text_def)
qed (simp add: into_call_def call_field_def field_names)

lemma json_carries_response:
  assumes "pred_option sendable err"
  shows "carries (JSONCodec L) TResponse (AResponseHeader err c)"
proof (rule carries_JSONCodec)
  show "fits (any_json L (AResponseHeader err c))"
    using assms by (auto simp: fits_def sendable_def field_names maxNestingDepth_def split: option.splits)
  have "length (json_quote s) < 2 ^ 32 - 200" if "err = Some s" for s
    using json_text_string [of s] assms that by (auto simp: sendable_def)
  moreover have "length (json_quote ''Error'') \<le> 32" "length (json_quote ''Continue'') \<le> 50"
    using json_text_string [of "''Error''"] json_text_string [of "''Continue''"] by auto
  ultimately show "length (json_text (formatFloat L) (any_json L (AResponseHeader err c))) < 2 ^ 32 - 1"
    by (cases err) (auto simp: json_text_def)
qed (cases err; simp add: into_response_def response_field_def field_names)

definition carried :: "json_lib \<Rightarrow> json any \<Rightarrow> bool" where
  "carried L v \<longleftrightarrow> v = ANil
     \<or> (\<exists>j. v = AData j \<and> j \<noteq> JNull \<and> json_ok j \<and> json_depth j \<le> maxNestingDepth \<and> length (json_text (formatFloat L) j) < 2 ^ 32 - 1)"

lemma json_carries_data: "carried L v \<Longrightarrow> carries (JSONCodec L) (TVar x) v"
  by (auto simp: carried_def json_carries_nil json_ok_readable fits_def into_any_tree intro: carries_JSONCodec)

text \<open>The indented text is read like the other.\<close>

lemma json_indented:
  assumes "json_ok v" and "json_depth v \<le> maxNestingDepth"
  shows "json_Decode (TVar ()) (map char_byte (MarshalIndent F v)) = Inr (if v = JNull then ANil else AData v)"
proof -
  have f: "fits v" using assms json_ok_readable by (simp add: fits_def)
  have "list_all json_space (newline # concat (replicate i ''  ''))" for i by (induction i) (auto simp: json_space_def)
  with json_Decode_spell [OF f, where t = "[]"] into_any_tree [OF assms(1)] show ?thesis
    by (simp add: MarshalIndent_def json_space_def)
qed

section \<open>Properties\<close>


definition sample_json :: json where
  "sample_json = JObj [(''a'', JArr [JNum (- 12), JStr [bslash, newline, CHR 0x3C]]), (''b'', JNull)]"


text \<open>
  C11: a call over the JSON codec, end to end. The selector and the text of an error are UTF-8 and of reasonable length, the argument and
  the values are such as JSON carries. Then the request is sent, the server answers it, and the caller gets the values that the handler returned for the argument or, when it
  returned a single error, a remote error with its text.
\<close>

theorem json_call:
  assumes "sendable sel" and "carried L arg" and "hn (cleanSelector sel) = unary () f" and "vs = f (Inr arg)" and "vs \<noteq> []"
    and "case single_error vs of None \<Rightarrow> list_all (carried L) vs | Some x \<Rightarrow> sendable (error_text x)"
    and "wr_fail (c_out cl) = None" and "wr_fail (c_out sv) = None"
  shows "\<exists>cl1 request sv1 response cl2. call_send (JSONCodec L) sel (Single arg) cl = (None, cl1) \<and> wr_buf (c_out cl1) = wr_buf (c_out cl) @ request
    \<and> Server_respond (JSONCodec L) hn (sv\<lparr>c_in := \<lparr>rd_buf = request, rd_end = None\<rparr>\<rparr>) = Some sv1
    \<and> wr_buf (c_out sv1) = wr_buf (c_out sv) @ response \<and> c_closed sv1
    \<and> call_recv (JSONCodec L) (map (\<lambda>_. ()) vs) (cl1\<lparr>c_in := \<lparr>rd_buf = response, rd_end = Some EOF\<rparr>\<rparr>)
      = (case single_error vs of
           None \<Rightarrow> Some (Some \<lparr>resp_error = None, resp_continue = False, resp_values = vs\<rparr>, None, cl2)
         | Some x \<Rightarrow> Some (Some \<lparr>resp_error = Some (error_text x), resp_continue = False, resp_values = []\<rparr>, Some (RemoteError (error_text x)), cl2))
    \<and> c_closed cl2"
proof -
  let ?C = "JSONCodec L"
  have h: "carries ?C TResponse (AResponseHeader (response_error vs None) False)"
    using assms(6) by (auto simp: response_error_def json_carries_response split: option.splits)
  have vs: "list_all (encodes ?C) (response_values vs)"
    using assms(5,6) json_carries_data json_carries_nil
    by (fastforce simp: response_values_def list_all_iff split: option.splits intro: carries_encodes)
  note call = unary_call [where C = ?C and vs = vs and hn = hn, OF json_carries_call [OF assms(1)] json_carries_data [OF assms(2)] assms(3) h vs assms(7,8,4)]
  from call(2) [where e = None] obtain sv1 where sv1:
    "Server_respond ?C hn (sv\<lparr>c_in := \<lparr>rd_buf = concat (map (frame_bytes ?C) [ACallHeader sel, arg]), rd_end = None\<rparr>\<rparr>) = Some sv1" "c_closed sv1"
    "wr_buf (c_out sv1) = wr_buf (c_out sv) @ concat (map (frame_bytes ?C) (AResponseHeader (response_error vs None) False # response_values vs))" by blast
  show ?thesis
  proof (cases "single_error vs")
    case None
    have "list_all2 (\<lambda>t. carries ?C (TVar t)) (map (\<lambda>_. ()) vs) vs"
      using assms(6) None json_carries_data by (auto simp: list_all2_map1 list_all2_same list_all_iff)
    from call(1) sv1 call(3) [OF None this, where io = "out_frames ?C [ACallHeader sel, arg] cl" and e = "Some EOF"] assms(5) None show ?thesis by fastforce
  next
    case (Some x)
    from call(1) sv1 call(4) [OF Some, where ts = "map (\<lambda>_. ()) vs" and io = "out_frames ?C [ACallHeader sel, arg] cl" and e = "Some EOF"] Some show ?thesis by fastforce
  qed
qed

text \<open>The parameters for values that need neither of them.\<close>

definition plain_json :: json_lib where
  "plain_json = \<lparr>formatFloat = (\<lambda>s. s), err_fields = (\<lambda>_. [])\<rparr>"

theorem json_call_witness:
  "\<exists>cl1 request sv1 response cl2. call_send (JSONCodec plain_json) ''double'' (Single (AData (JNum 4))) idle_io = (None, cl1)
    \<and> wr_buf (c_out cl1) = request
    \<and> Server_respond (JSONCodec plain_json) (\<lambda>_. unary () (\<lambda>x. case x of Inr (AData (JNum n)) \<Rightarrow> [AData (JNum (2 * n))] | _ \<Rightarrow> [ANil]))
        (idle_io\<lparr>c_in := \<lparr>rd_buf = request, rd_end = None\<rparr>\<rparr>) = Some sv1
    \<and> wr_buf (c_out sv1) = response
    \<and> call_recv (JSONCodec plain_json) [()] (cl1\<lparr>c_in := \<lparr>rd_buf = response, rd_end = Some EOF\<rparr>\<rparr>)
      = Some (Some \<lparr>resp_error = None, resp_continue = False, resp_values = [AData (JNum 8)]\<rparr>, None, cl2)"
proof -
  let ?L = plain_json and ?f = "\<lambda>x. case x of Inr (AData (JNum n)) \<Rightarrow> [AData (JNum (2 * n))] | _ \<Rightarrow> [ANil]"
  have "sendable ''double''" by (simp add: sendable_def valid_utf8_Cons rune_len_ascii valid_utf8.simps [of "[]"])
  moreover have "carried ?L (AData (JNum 4))" "carried ?L (AData (JNum 8))"
    by (simp_all add: carried_def json_text_def show_int_def show_nat.simps plain_json_def)
  ultimately show ?thesis
    using json_call [of "''double''" ?L "AData (JNum 4)" "\<lambda>_. unary () ?f" ?f "[AData (JNum 8)]" idle_io idle_io] by (auto simp: idle_io_def)
qed

text \<open>
  \<^verbatim>\<open>Call.Receive(nil)\<close> decodes into a byte slice. Over JSON that discards \<^verbatim>\<open>null\<close>, but a boolean, a number or
  an object is an error, with the value taken off the channel.
\<close>

theorem json_discard_fails:
  assumes "v = JBool b \<or> v = JNum n \<or> v = JObj kvs" and "fits v" and "length (json_text (formatFloat L) v) < 2 ^ 32 - 1"
  shows "Call_Receive (JSONCodec L) None \<lparr>rd_buf = frame_bytes (JSONCodec L) (AData v) @ rest, rd_end = e\<rparr>
      = RdErr (ErrorString (''json: cannot unmarshal '' @ kind_text v @ '' into Go value of type []uint8'')) \<lparr>rd_buf = rest, rd_end = e\<rparr>
    \<and> Call_Receive (JSONCodec L) None \<lparr>rd_buf = frame_bytes (JSONCodec L) ANil @ rest, rd_end = e\<rparr> = RdOk ANil \<lparr>rd_buf = rest, rd_end = e\<rparr>"
proof
  let ?b = "map char_byte (json_text (formatFloat L) v @ [newline])"
  have "json_Decode TDiscard ?b = Inl (type_error (kind_text v) ''value'' ''[]uint8'')"
    using json_Decode_text [of L "AData v" ?b TDiscard] assms(1,2) by (auto simp: json_Encode_def into_bytes_def)
  with frame_Decode_any [of "JSONCodec L" "AData v" ?b TDiscard rest e] assms(3)
  show "Call_Receive (JSONCodec L) None \<lparr>rd_buf = frame_bytes (JSONCodec L) (AData v) @ rest, rd_end = e\<rparr>
      = RdErr (ErrorString (''json: cannot unmarshal '' @ kind_text v @ '' into Go value of type []uint8'')) \<lparr>rd_buf = rest, rd_end = e\<rparr>"
    by (simp add: Call_Receive_def JSONCodec_def json_Encode_def type_error_def)
  have "carries (JSONCodec L) TDiscard ANil"
    by (rule carries_JSONCodec) (simp_all add: fits_def json_text_def into_bytes_def)
  then show "Call_Receive (JSONCodec L) None \<lparr>rd_buf = frame_bytes (JSONCodec L) ANil @ rest, rd_end = e\<rparr> = RdOk ANil \<lparr>rd_buf = rest, rd_end = e\<rparr>"
    by (simp add: Call_Receive_def rf.dec_enc)
qed

theorem json_discard_fails_witness:
  "Call_Receive (JSONCodec plain_json) None
      \<lparr>rd_buf = frame_bytes (JSONCodec plain_json) (AData (JNum 7)), rd_end = None\<rparr>
    = RdErr (ErrorString ''json: cannot unmarshal number into Go value of type []uint8'') \<lparr>rd_buf = [], rd_end = None\<rparr>"
proof -
  have "length (show_int 7) < 2 ^ 32 - 1" by (simp add: show_int_def show_nat.simps)
  then show ?thesis
    using json_discard_fails [of "JNum 7" True 7 "[]" plain_json "[]" None]
    by (simp add: fits_def json_text_def)
qed

end
