(* ===== verification/Interop.thy ===== *)
theory Interop
  imports Rpc_Server
begin

text \<open>
  The interop services (\<^verbatim>\<open>src/interop\<close>) and the conversations of the tool's interop check (\<^verbatim>\<open>src/cmd/qtalk/check.go\<close>). \<^verbatim>\<open>CallbackService\<close> echoes
  what it is sent; \<^verbatim>\<open>InteropService\<close> answers by calling the same method back on the caller's session and passing everything on. A handler here
  takes the responder, with the channel of its call, and gives the responder when it is done, or \<open>None\<close> while it waits for input. The channel of a call
  that a handler makes itself is a parameter, whose input is what the other side sends on it. The two loops of \<^verbatim>\<open>InteropService.Stream\<close> and \<^verbatim>\<open>Bytes\<close>
  run in two goroutines, one reading the caller's channel and writing the inner one, the other the reverse: they share no stream, so each is
  a function of the stream it reads. \<open>t\<close> is the type \<^verbatim>\<open>any\<close> of the variables that values are decoded into.

  The lemmas put the caller, \<^verbatim>\<open>InteropService\<close> and \<^verbatim>\<open>CallbackService\<close> together: values, streams of values and bytes come back to the caller as they were sent.
\<close>

section \<open>Loops\<close>

lemma ReadFull_shorter: "ReadFull n r = RdOk bs r1 \<Longrightarrow> length (rd_buf r1) + n = length (rd_buf r)"
  by (auto simp: ReadFull_def split: if_splits option.splits)

lemma frame_Decode_shorter: "frame_Decode C t r = RdOk v r1 \<Longrightarrow> length (rd_buf r1) < length (rd_buf r)"
  by (auto simp: frame_Decode_def rd_bind_def Let_def dest!: ReadFull_shorter split: rd_result.splits sum.splits)

text \<open>
  A loop that receives a value from one channel and sends it on another, until either fails. It writes the
  output of \<open>dst\<close> and reads the input of \<open>src\<close> only.
\<close>

function pump :: "('d, 't) codec \<Rightarrow> 't \<Rightarrow> chan_io \<Rightarrow> chan_io \<Rightarrow> (chan_io \<times> chan_io) option" where
  "pump C t dst src =
     (case frame_Decode C (TVar t) (c_in src) of
        RdBlock \<Rightarrow> None
      | RdErr e rd \<Rightarrow> Some (dst, src\<lparr>c_in := rd\<rparr>)
      | RdOk v rd \<Rightarrow>
          (case io_Encode C v dst of
             (Some e, dst1) \<Rightarrow> Some (dst1, src\<lparr>c_in := rd\<rparr>)
           | (None, dst1) \<Rightarrow> pump C t dst1 (src\<lparr>c_in := rd\<rparr>)))"
  by pat_completeness auto
termination
  by (relation "measure (\<lambda>(C, t, dst, src). length (rd_buf (c_in src)))") (auto dest: frame_Decode_shorter)

declare pump.simps [simp del]

text \<open>A channel whose two directions were worked on separately.\<close>

definition both :: "chan_io \<Rightarrow> chan_io \<Rightarrow> chan_io \<Rightarrow> chan_io" where
  "both dst src io = io\<lparr>c_out := c_out dst, c_in := c_in src\<rparr>"

section \<open>CallbackService\<close>

type_synonym service = "responder \<Rightarrow> responder option"

definition receive :: "('d, 't) codec \<Rightarrow> 't \<Rightarrow> ('d any \<Rightarrow> service) \<Rightarrow> service" where
  "receive C t k r =
     (case Call_Receive C (Some t) (c_in (ch r)) of
        RdBlock \<Rightarrow> None
      | RdErr e rd \<Rightarrow> Some (r\<lparr>ch := (ch r)\<lparr>c_in := rd\<rparr>\<rparr>)
      | RdOk v rd \<Rightarrow> k v (r\<lparr>ch := (ch r)\<lparr>c_in := rd\<rparr>\<rparr>))"

definition Callback_Unary :: "('d, 't) codec \<Rightarrow> 't \<Rightarrow> service" where
  "Callback_Unary C t = receive C t (\<lambda>params r. Some (snd (responder_Return C [params] r)))"

definition Callback_Stream :: "('d, 't) codec \<Rightarrow> 't \<Rightarrow> service" where
  "Callback_Stream C t = receive C t (\<lambda>v r.
     case responder_Continue C [v] r of
       (Some e, r1) \<Rightarrow> Some r1
     | (None, r1) \<Rightarrow>
         map_option (\<lambda>(dst, src). r1\<lparr>ch := snd (io_Close (both dst src (ch r1)))\<rparr>) (pump C t (ch r1) (ch r1)))"

definition Callback_Bytes :: "('d, 't) codec \<Rightarrow> 't \<Rightarrow> service" where
  "Callback_Bytes C t = receive C t (\<lambda>params r.
     case responder_Continue C [params] r of
       (Some e, r1) \<Rightarrow> Some r1
     | (None, r1) \<Rightarrow>
         map_option (\<lambda>(e, dst, src). r1\<lparr>ch := snd (io_Close (both dst src (ch r1)))\<rparr>) (io_Copy (ch r1) (ch r1)))"

section \<open>InteropService\<close>

text \<open>The variable \<^verbatim>\<open>ret\<close> after the call; nil unless a reply was stored.\<close>

definition reply_of :: "'d response option \<Rightarrow> 'd any" where
  "reply_of resp = (case map_option resp_values resp of Some (v # _) \<Rightarrow> v | _ \<Rightarrow> ANil)"

text \<open>\<^verbatim>\<open>call.Caller.Call(ctx, selector, params, &ret)\<close> on the channel that \<^verbatim>\<open>Open\<close> gives: an error, or the reply and the channel.\<close>

definition call_back ::
    "('d, 't) codec \<Rightarrow> 't \<Rightarrow> go_error + chan_io \<Rightarrow> string \<Rightarrow> 'd any \<Rightarrow> (call_error + 'd any \<times> chan_io) option" where
  "call_back C t opened sel params =
     (case opened of
        Inl e \<Rightarrow> Some (Inl (CErr e))
      | Inr io \<Rightarrow>
          (case call_send C sel (Single params) io of
             (Some e, io1) \<Rightarrow> Some (Inl (CErr e))
           | (None, io1) \<Rightarrow>
               map_option
                 (\<lambda>(resp, err, io2). case err of Some e \<Rightarrow> Inl e | None \<Rightarrow> Inr (reply_of resp, io2))
                 (call_recv C [t] io1)))"

definition Interop_Unary :: "('d, 't) codec \<Rightarrow> 't \<Rightarrow> go_error + chan_io \<Rightarrow> service" where
  "Interop_Unary C t opened = receive C t (\<lambda>params r.
     Option.bind (call_back C t opened ''Unary'' params) (\<lambda>res.
       case res of
         Inl err \<Rightarrow> Some r
       | Inr (ret, io) \<Rightarrow> Some (snd (responder_Return C [ret] r))))"

text \<open>The text of a value that was decoded into a string is \<open>str\<close>.\<close>

definition Interop_Error :: "('d, 't) codec \<Rightarrow> 't \<Rightarrow> ('d any \<Rightarrow> string) \<Rightarrow> service" where
  "Interop_Error C t str = receive C t (\<lambda>text r. Some (snd (responder_Return C [AError (ErrorString (str text))] r)))"

text \<open>
  \<^verbatim>\<open>Stream\<close> and \<^verbatim>\<open>Bytes\<close> return when the inner channel has ended, whether or not their goroutine has. The result is the responder with the output to the caller,
  and what the goroutine has done: \<open>None\<close> while it still waits for the caller, otherwise the inner channel and the caller's as it leaves them.
\<close>

definition Interop_Stream :: "('d, 't) codec \<Rightarrow> 't \<Rightarrow> go_error + chan_io
    \<Rightarrow> responder \<Rightarrow> (responder \<times> (chan_io \<times> chan_io) option) option" where
  "Interop_Stream C t opened r =
     (case Call_Receive C (Some t) (c_in (ch r)) of
        RdBlock \<Rightarrow> None
      | RdErr e rd \<Rightarrow> Some (r\<lparr>ch := (ch r)\<lparr>c_in := rd\<rparr>\<rparr>, None)
      | RdOk params rd \<Rightarrow>
          (let r1 = r\<lparr>ch := (ch r)\<lparr>c_in := rd\<rparr>\<rparr>
           in Option.bind (call_back C t opened ''Stream'' params) (\<lambda>res.
                case res of
                  Inl err \<Rightarrow> Some (r1, None)
                | Inr (ret, stream) \<Rightarrow>
                    (case responder_Continue C [ret] r1 of
                       (Some e, r2) \<Rightarrow> Some (r2, None)
                     | (None, r2) \<Rightarrow>
                         (let forth = map_option (\<lambda>(dst, src). (io_CloseWrite dst, src)) (pump C t stream (ch r2))
                          in map_option (\<lambda>(dst, src). (r2\<lparr>ch := snd (io_Close dst)\<rparr>, forth)) (pump C t (ch r2) stream))))))"

definition Interop_Bytes :: "('d, 't) codec \<Rightarrow> 't \<Rightarrow> go_error + chan_io
    \<Rightarrow> responder \<Rightarrow> (responder \<times> (chan_io \<times> chan_io) option) option" where
  "Interop_Bytes C t opened r =
     (case Call_Receive C (Some t) (c_in (ch r)) of
        RdBlock \<Rightarrow> None
      | RdErr e rd \<Rightarrow> Some (r\<lparr>ch := (ch r)\<lparr>c_in := rd\<rparr>\<rparr>, None)
      | RdOk params rd \<Rightarrow>
          (let r1 = r\<lparr>ch := (ch r)\<lparr>c_in := rd\<rparr>\<rparr>
           in Option.bind (call_back C t opened ''Bytes'' params) (\<lambda>res.
                case res of
                  Inl err \<Rightarrow> Some (r1, None)
                | Inr (ret, stream) \<Rightarrow>
                    (case responder_Continue C [ret] r1 of
                       (Some e, r2) \<Rightarrow> Some (r2, None)
                     | (None, r2) \<Rightarrow>
                         (let forth = map_option (\<lambda>(e, dst, src). (io_CloseWrite dst, src)) (io_Copy stream (ch r2))
                          in map_option (\<lambda>(e, dst, src). (r2\<lparr>ch := snd (io_Close dst)\<rparr>, forth)) (io_Copy (ch r2) stream))))))"

section \<open>The check\<close>

text \<open>The loop of the stream check: values are received until an error.\<close>

function receive_all :: "('d, 't) codec \<Rightarrow> 't \<Rightarrow> reader \<Rightarrow> ('d any list \<times> go_error) option" where
  "receive_all C t r =
     (case frame_Decode C (TVar t) r of
        RdBlock \<Rightarrow> None
      | RdErr e rd \<Rightarrow> Some ([], e)
      | RdOk v rd \<Rightarrow> map_option (\<lambda>(vs, e). (v # vs, e)) (receive_all C t rd))"
  by pat_completeness auto
termination
  by (relation "measure (\<lambda>(C, t, r). length (rd_buf r))") (auto dest: frame_Decode_shorter)

declare receive_all.simps [simp del]

text \<open>\<^verbatim>\<open>Server.respond\<close> with a service as the handler of the selector.\<close>

definition serve_call :: "('d, 't) codec \<Rightarrow> (string \<Rightarrow> responder \<Rightarrow> (responder \<times> 'x) option) \<Rightarrow> chan_io \<Rightarrow> (chan_io \<times> 'x option) option" where
  "serve_call C hn io =
     (case frame_Decode C TCall (c_in io) of
        RdBlock \<Rightarrow> None
      | RdErr e rd \<Rightarrow> Some (io\<lparr>c_in := rd\<rparr>, None)
      | RdOk v rd \<Rightarrow>
          map_option (\<lambda>(r, x). (respond_finish C r, Some x))
            (hn (cleanSelector (selector_of v)) (fresh_responder (io\<lparr>c_in := rd\<rparr>))))"

section \<open>Streams that have ended\<close>

abbreviation frames_of :: "('d, 't) codec \<Rightarrow> 'd any list \<Rightarrow> bytes" where
  "frames_of C vs \<equiv> concat (map (frame_bytes C) vs)"

text \<open>A fresh channel on which the other side sends these bytes and then ends.\<close>

definition ended :: "bytes \<Rightarrow> chan_io" where
  "ended bs = \<lparr>c_in = \<lparr>rd_buf = bs, rd_end = Some EOF\<rparr>, c_out = \<lparr>wr_buf = [], wr_fail = None\<rparr>, c_eof = False, c_closed = False\<rparr>"

lemma ended_simps [simp]:
  "c_in (ended bs) = \<lparr>rd_buf = bs, rd_end = Some EOF\<rparr>" "c_out (ended bs) = \<lparr>wr_buf = [], wr_fail = None\<rparr>"
  "\<not> c_closed (ended bs)" "\<not> c_eof (ended bs)" "(ended bs)\<lparr>c_in := \<lparr>rd_buf = bs', rd_end = Some EOF\<rparr>\<rparr> = ended bs'"
  by (simp_all add: ended_def)

lemma frame_Decode_EOF: "frame_Decode C t \<lparr>rd_buf = [], rd_end = Some EOF\<rparr> = RdErr EOF \<lparr>rd_buf = [], rd_end = Some EOF\<rparr>"
  by (simp add: frame_Decode_def ReadFull_def)

lemma pump_ok:
  assumes "list_all (carries C (TVar t)) vs" and "wr_fail (c_out dst) = None"
    and "c_in src = \<lparr>rd_buf = frames_of C vs, rd_end = Some EOF\<rparr>"
  shows "pump C t dst src = Some (out_frames C vs dst, src\<lparr>c_in := \<lparr>rd_buf = [], rd_end = Some EOF\<rparr>\<rparr>)"
  using assms
proof (induction vs arbitrary: dst src)
  case Nil
  then show ?case by (subst pump.simps) (simp add: frame_Decode_EOF out_frames_def)
next
  case (Cons v vs)
  let ?src = "src\<lparr>c_in := \<lparr>rd_buf = frames_of C vs, rd_end = Some EOF\<rparr>\<rparr>"
  have "pump C t dst src = pump C t (out_frames C [v] dst) ?src"
    using Cons.prems rf.dec_enc [of C "TVar t" v "frames_of C vs" "Some EOF"] io_Encode_ok [of C v dst] carries_encodes [of C "TVar t" v]
    by (subst pump.simps) simp
  also have "\<dots> = Some (out_frames C (v # vs) dst, src\<lparr>c_in := \<lparr>rd_buf = [], rd_end = Some EOF\<rparr>\<rparr>)"
    using Cons.IH [of "out_frames C [v] dst" ?src] Cons.prems by simp
  finally show ?case .
qed

lemma receive_all_ok:
  "list_all (carries C (TVar t)) vs \<Longrightarrow> receive_all C t \<lparr>rd_buf = frames_of C vs, rd_end = Some EOF\<rparr> = Some (vs, EOF)"
  by (induction vs) (subst receive_all.simps, simp add: frame_Decode_EOF rf.dec_enc)+

lemma receive_ok:
  assumes "carries C (TVar t) x" and "c_in (ch r) = \<lparr>rd_buf = frame_bytes C x @ rest, rd_end = e\<rparr>"
  shows "receive C t k r = k x (r\<lparr>ch := (ch r)\<lparr>c_in := \<lparr>rd_buf = rest, rd_end = e\<rparr>\<rparr>\<rparr>)"
  using rf.dec_enc [OF assms(1), of rest e] assms(2) by (simp add: receive_def Call_Receive_def)

lemma serve_call_ok:
  assumes "carries C TCall (ACallHeader sel)" and "c_in io = \<lparr>rd_buf = frame_bytes C (ACallHeader sel) @ rest, rd_end = e\<rparr>"
    and "hn (cleanSelector sel) (fresh_responder (io\<lparr>c_in := \<lparr>rd_buf = rest, rd_end = e\<rparr>\<rparr>)) = Some (r, x)"
  shows "serve_call C hn io = Some (respond_finish C r, Some x)"
  using rf.dec_enc [OF assms(1), of rest e] assms(2,3) by (simp add: serve_call_def)

text \<open>The reply of a call whose response has arrived.\<close>

lemma call_back_ok:
  assumes "carries C (TVar t) params" and "encodes C (ACallHeader sel)" and "carries C TResponse (AResponseHeader None cont)"
    and "carries C (TVar t) ret"
  shows "call_back C t (Inr (ended (frames_of C [AResponseHeader None cont, ret] @ rest))) sel params
    = Some (Inr (ret, (out_frames C [ACallHeader sel, params] (ended []))\<lparr>c_in := \<lparr>rd_buf = rest, rd_end = Some EOF\<rparr>, c_closed := \<not> cont\<rparr>))"
proof -
  let ?io = "ended (frames_of C [AResponseHeader None cont, ret] @ rest)"
  have s: "call_send C sel (Single params) ?io = (None, out_frames C [ACallHeader sel, params] ?io)"
    using call_send_ok [of C sel "Single params" ?io] assms(1,2) carries_encodes by (fastforce simp: arg_values_def)
  have "list_all2 (\<lambda>t v. carries C (TVar t) v) [t] [ret]" using assms(4) by simp
  from s call_recv_values [OF assms(3) this, of "out_frames C [ACallHeader sel, params] ?io" rest "Some EOF"]
  show ?thesis by (simp add: call_back_def reply_of_def out_frames_def ended_def)
qed

text \<open>\<^verbatim>\<open>Continue\<close> with one value on a fresh responder.\<close>

lemma Continue_one:
  assumes "encodes C (AResponseHeader None True)" and "encodes C x" and "single_error [x] = None" and "wr_fail (c_out io) = None"
  shows "responder_Continue C [x] (fresh_responder io)
    = (None, \<lparr>responded = True, hdr_error = None, hdr_continue = True, ch = out_frames C [AResponseHeader None True, x] io\<rparr>)"
  using respond_ok [of C "[x]" "fresh_responder io" True] assms
  by (simp add: fresh_responder_def response_error_def response_values_def)

section \<open>The services on whole conversations\<close>

lemma fresh_ch [simp]: "ch (fresh_responder io) = io" "(fresh_responder io)\<lparr>ch := io'\<rparr> = fresh_responder io'"
  by (simp_all add: fresh_responder_def)

lemma respond_finish_done [simp]:
  "responded r \<Longrightarrow> respond_finish C r = (if hdr_continue r then ch r else (ch r)\<lparr>c_closed := True\<rparr>)"
  by (simp add: respond_finish_def io_Close_def)

lemma Callback_Stream_ok:
  assumes "encodes C (AResponseHeader None True)" and "list_all (carries C (TVar t)) (x # vs)" and "single_error [x] = None"
  shows "\<exists>r1. Callback_Stream C t (fresh_responder (ended (frames_of C (x # vs)))) = Some r1
    \<and> responded r1 \<and> hdr_continue r1 \<and> wr_buf (c_out (ch r1)) = frames_of C (AResponseHeader None True # x # vs) \<and> c_closed (ch r1)"
proof -
  let ?h = "AResponseHeader None True"
  have x: "carries C (TVar t) x" "encodes C x" using assms(2) carries_encodes by auto
  let ?r1 = "\<lparr>responded = True, hdr_error = None, hdr_continue = True, ch = out_frames C [?h, x] (ended (frames_of C vs))\<rparr>"
  have "pump C t (ch ?r1) (ch ?r1) = Some (out_frames C vs (ch ?r1), (ch ?r1)\<lparr>c_in := \<lparr>rd_buf = [], rd_end = Some EOF\<rparr>\<rparr>)"
    by (rule pump_ok) (use assms(2) in simp_all)
  moreover have "receive C t k (fresh_responder (ended (frames_of C (x # vs)))) = k x (fresh_responder (ended (frames_of C vs)))" for k
    using receive_ok [OF x(1), of "fresh_responder (ended (frames_of C (x # vs)))" "frames_of C vs" "Some EOF" k] by (simp add: ended_def)
  ultimately show ?thesis using Continue_one [OF assms(1) x(2) assms(3), of "ended (frames_of C vs)"]
    by (simp add: Callback_Stream_def both_def io_Close_def)
qed

lemma Callback_Bytes_ok:
  assumes "encodes C (AResponseHeader None True)" and "carries C (TVar t) x" and "single_error [x] = None"
  shows "\<exists>r1. Callback_Bytes C t (fresh_responder (ended (frame_bytes C x @ data))) = Some r1
    \<and> responded r1 \<and> hdr_continue r1 \<and> wr_buf (c_out (ch r1)) = frames_of C [AResponseHeader None True, x] @ data \<and> c_closed (ch r1)"
proof -
  let ?h = "AResponseHeader None True"
  have x: "encodes C x" using assms(2) by (rule carries_encodes)
  let ?r1 = "\<lparr>responded = True, hdr_error = None, hdr_continue = True, ch = out_frames C [?h, x] (ended data)\<rparr>"
  from io_Copy_all [of "ch ?r1" "ch ?r1"] obtain d s where
    "io_Copy (ch ?r1) (ch ?r1) = Some (None, d, s)" "wr_buf (c_out d) = frames_of C [?h, x] @ data" by auto
  moreover have "receive C t k (fresh_responder (ended (frame_bytes C x @ data))) = k x (fresh_responder (ended data))" for k
    using receive_ok [OF assms(2), of "fresh_responder (ended (frame_bytes C x @ data))" data "Some EOF" k] by (simp add: ended_def)
  ultimately show ?thesis using Continue_one [OF assms(1) x assms(3), of "ended data"]
    by (simp add: Callback_Bytes_def both_def io_Close_def)
qed

lemma Interop_Stream_ok:
  assumes "encodes C (ACallHeader ''Stream'')" and "carries C TResponse (AResponseHeader None True)"
    and "list_all (carries C (TVar t)) (x # vs)" and "single_error [x] = None"
    and "response = frames_of C (AResponseHeader None True # x # vs)"
  shows "\<exists>r1 inner rest. Interop_Stream C t (Inr (ended response)) (fresh_responder (ended (frames_of C (x # vs)))) = Some (r1, Some (inner, rest))
    \<and> wr_buf (c_out inner) = frames_of C (ACallHeader ''Stream'' # x # vs) \<and> c_eof inner
    \<and> responded r1 \<and> hdr_continue r1 \<and> wr_buf (c_out (ch r1)) = response \<and> c_closed (ch r1)"
proof -
  let ?h = "AResponseHeader None True"
  have x: "carries C (TVar t) x" "encodes C x" "encodes C ?h" using assms(2,3) carries_encodes by auto
  let ?s = "(out_frames C [ACallHeader ''Stream'', x] (ended []))\<lparr>c_in := \<lparr>rd_buf = frames_of C vs, rd_end = Some EOF\<rparr>, c_closed := False\<rparr>"
  have s: "call_back C t (Inr (ended response)) ''Stream'' x = Some (Inr (x, ?s))"
    using call_back_ok [OF x(1) assms(1,2) x(1), of "frames_of C vs"] assms(5) by simp
  let ?r = "\<lparr>responded = True, hdr_error = None, hdr_continue = True, ch = out_frames C [?h, x] (ended (frames_of C vs))\<rparr>"
  have f: "pump C t ?s (ch ?r) = Some (out_frames C vs ?s, (ch ?r)\<lparr>c_in := \<lparr>rd_buf = [], rd_end = Some EOF\<rparr>\<rparr>)"
    "pump C t (ch ?r) ?s = Some (out_frames C vs (ch ?r), ?s\<lparr>c_in := \<lparr>rd_buf = [], rd_end = Some EOF\<rparr>\<rparr>)"
    by (rule pump_ok; use assms(3) in \<open>simp add: out_frames_def\<close>)+
  show ?thesis
    using rf.dec_enc [OF x(1), of "frames_of C vs" "Some EOF"] s f Continue_one [OF x(3,2) assms(4), of "ended (frames_of C vs)"] assms(5)
    by (simp add: Interop_Stream_def Call_Receive_def io_Close_def io_CloseWrite_def Let_def del: run_respond)
qed

lemma Interop_Bytes_ok:
  assumes "encodes C (ACallHeader ''Bytes'')" and "carries C TResponse (AResponseHeader None True)"
    and "carries C (TVar t) x" and "single_error [x] = None"
    and "response = frames_of C [AResponseHeader None True, x] @ data"
  shows "\<exists>r1 inner rest. Interop_Bytes C t (Inr (ended response)) (fresh_responder (ended (frame_bytes C x @ data))) = Some (r1, Some (inner, rest))
    \<and> wr_buf (c_out inner) = frames_of C [ACallHeader ''Bytes'', x] @ data \<and> c_eof inner
    \<and> responded r1 \<and> hdr_continue r1 \<and> wr_buf (c_out (ch r1)) = response \<and> c_closed (ch r1)"
proof -
  let ?h = "AResponseHeader None True"
  have x: "encodes C x" "encodes C ?h" using assms(2,3) carries_encodes by auto
  let ?s = "(out_frames C [ACallHeader ''Bytes'', x] (ended []))\<lparr>c_in := \<lparr>rd_buf = data, rd_end = Some EOF\<rparr>, c_closed := False\<rparr>"
  have s: "call_back C t (Inr (ended response)) ''Bytes'' x = Some (Inr (x, ?s))"
    using call_back_ok [OF assms(3,1,2,3), of data] assms(5) by simp
  let ?r = "\<lparr>responded = True, hdr_error = None, hdr_continue = True, ch = out_frames C [?h, x] (ended data)\<rparr>"
  from io_Copy_all [of ?s "ch ?r"] obtain d1 s1 where f: "io_Copy ?s (ch ?r) = Some (None, d1, s1)"
    "wr_buf (c_out d1) = frames_of C [ACallHeader ''Bytes'', x] @ data" by (auto simp: out_frames_def)
  from io_Copy_all [of "ch ?r" ?s] obtain d2 s2 where b: "io_Copy (ch ?r) ?s = Some (None, d2, s2)"
    "wr_buf (c_out d2) = frames_of C [?h, x] @ data" by auto
  show ?thesis
    using rf.dec_enc [OF assms(3), of data "Some EOF"] s f b Continue_one [OF x(2,1) assms(4), of "ended data"] assms(5)
    by (simp add: Interop_Bytes_def Call_Receive_def io_Close_def io_CloseWrite_def Let_def del: run_respond)
qed

text \<open>The methods that return a value at once.\<close>

lemma Return_fresh:
  assumes "encodes C (AResponseHeader (response_error vs None) False)" and "list_all (encodes C) (response_values vs)"
    and "wr_fail (c_out io) = None" and "\<not> c_closed io"
  shows "respond_finish C (snd (responder_Return C vs (fresh_responder io)))
    = (out_frames C (AResponseHeader (response_error vs None) False # response_values vs) io)\<lparr>c_closed := True\<rparr>"
  using respond_ok [of C vs "fresh_responder io" False] assms by (simp add: fresh_responder_def)

lemma receive_ended:
  "carries C (TVar t) x \<Longrightarrow> receive C t k (fresh_responder (ended (frame_bytes C x))) = k x (fresh_responder (ended []))"
  using receive_ok [of C t x "fresh_responder (ended (frame_bytes C x))" "[]" "Some EOF" k] by simp

lemma Interop_Unary_ok:
  assumes "carries C (TVar t) x" and "carries C TResponse (AResponseHeader None False)" and "encodes C v" and "encodes C ANil" and "single_error [v] = None"
    and "call_back C t opened ''Unary'' x = Some res" and "v = (case res of Inl err \<Rightarrow> ANil | Inr (y, _) \<Rightarrow> y)"
  shows "\<exists>r1. Interop_Unary C t opened (fresh_responder (ended (frame_bytes C x))) = Some r1
    \<and> respond_finish C r1 = (out_frames C [AResponseHeader None False, v] (ended []))\<lparr>c_closed := True\<rparr>"
proof (cases res)
  case (Inl err)
  have "respond_finish C (fresh_responder (ended [])) = respond_finish C (snd (responder_Return C [] (fresh_responder (ended []))))"
    using respond_ok [of C "[]" "fresh_responder (ended [])" False] carries_encodes [OF assms(2)] assms(4)
    by (simp add: respond_finish_def io_Close_def fresh_responder_def response_error_def response_values_def)
  with Inl assms Return_fresh [of C "[]" "ended []"] carries_encodes [OF assms(2)] show ?thesis
    by (simp add: Interop_Unary_def receive_ended response_error_def response_values_def del: run_respond)
next
  case (Inr yio)
  with assms Return_fresh [of C "[v]" "ended []"] carries_encodes [OF assms(2)] show ?thesis
    by (cases yio) (simp add: Interop_Unary_def receive_ended response_error_def response_values_def del: run_respond)
qed

lemma Callback_Unary_ok:
  assumes "carries C (TVar t) x" and "carries C TResponse (AResponseHeader None False)" and "single_error [x] = None"
  shows "\<exists>r1. Callback_Unary C t (fresh_responder (ended (frame_bytes C x))) = Some r1
    \<and> respond_finish C r1 = (out_frames C [AResponseHeader None False, x] (ended []))\<lparr>c_closed := True\<rparr>"
  using assms Return_fresh [of C "[x]" "ended []"] carries_encodes [OF assms(1)] carries_encodes [OF assms(2)]
  by (simp add: Callback_Unary_def receive_ended response_error_def response_values_def del: run_respond)

lemma Interop_Error_ok:
  assumes "carries C (TVar t) x" and "carries C TResponse (AResponseHeader (Some (str x)) False)" and "encodes C ANil"
  shows "\<exists>r1. Interop_Error C t str (fresh_responder (ended (frame_bytes C x))) = Some r1
    \<and> respond_finish C r1 = (out_frames C [AResponseHeader (Some (str x)) False, ANil] (ended []))\<lparr>c_closed := True\<rparr>"
  using assms Return_fresh [of C "[AError (ErrorString (str x))]" "ended []"] carries_encodes [OF assms(2)]
  by (simp add: Interop_Error_def receive_ended response_error_def response_values_def del: run_respond)

section \<open>Properties\<close>

text \<open>
  The stream check, end to end. The caller sends a first value, then more values, and closes its side; \<^verbatim>\<open>InteropService.Stream\<close> passes them on to the caller's own
  \<^verbatim>\<open>CallbackService.Stream\<close>, which echoes them. On each of the two channels what one end writes is what the other end reads, and with these
  streams: the inner channel carries the caller's request unchanged and is half-closed after it, the callback's response comes back on the caller's channel unchanged, both servers
  close theirs, and the caller receives the first value as the reply and then the others, in order, up to \<^verbatim>\<open>io.EOF\<close>.
\<close>

theorem interop_stream_echo:
  assumes "carries C TCall (ACallHeader ''Stream'')" and "carries C TResponse (AResponseHeader None True)"
    and "list_all (carries C (TVar t)) (x # vs)" and "single_error [x] = None"
    and "request = frames_of C (ACallHeader ''Stream'' # x # vs)" and "response = frames_of C (AResponseHeader None True # x # vs)"
  shows "(\<exists>sv1 inner rest. serve_call C (\<lambda>_. Interop_Stream C t (Inr (ended response))) (ended request) = Some (sv1, Some (Some (inner, rest)))
        \<and> wr_buf (c_out inner) = request \<and> c_eof inner \<and> wr_buf (c_out sv1) = response \<and> c_closed sv1)
    \<and> (\<exists>cb1 y. serve_call C (\<lambda>_ r. map_option (\<lambda>r1. (r1, ())) (Callback_Stream C t r)) (ended request) = Some (cb1, y)
        \<and> wr_buf (c_out cb1) = response \<and> c_closed cb1)
    \<and> (\<exists>cl. call_recv C [t] (ended response) = Some (Some \<lparr>resp_error = None, resp_continue = True, resp_values = [x]\<rparr>, None, cl)
        \<and> receive_all C t (c_in cl) = Some (vs, EOF))"
proof (intro conjI)
  have e: "encodes C (ACallHeader ''Stream'')" "encodes C (AResponseHeader None True)" using assms(1,2) carries_encodes by auto
  have req: "c_in (ended request) = \<lparr>rd_buf = frame_bytes C (ACallHeader ''Stream'') @ frames_of C (x # vs), rd_end = Some EOF\<rparr>"
    using assms(5) by simp
  from Interop_Stream_ok [OF e(1) assms(2-4,6)] obtain r1 inner rest where
    "Interop_Stream C t (Inr (ended response)) (fresh_responder (ended (frames_of C (x # vs)))) = Some (r1, Some (inner, rest))"
    "wr_buf (c_out inner) = request" "c_eof inner" "responded r1" "hdr_continue r1" "wr_buf (c_out (ch r1)) = response" "c_closed (ch r1)"
    using assms(5) by blast
  with serve_call_ok [OF assms(1) req, of "\<lambda>_. Interop_Stream C t (Inr (ended response))" r1]
  show "\<exists>sv1 inner rest. serve_call C (\<lambda>_. Interop_Stream C t (Inr (ended response))) (ended request) = Some (sv1, Some (Some (inner, rest)))
        \<and> wr_buf (c_out inner) = request \<and> c_eof inner \<and> wr_buf (c_out sv1) = response \<and> c_closed sv1" by simp
  from Callback_Stream_ok [OF e(2) assms(3,4)] obtain r2 where
    "Callback_Stream C t (fresh_responder (ended (frames_of C (x # vs)))) = Some r2" "responded r2" "hdr_continue r2"
    "wr_buf (c_out (ch r2)) = response" "c_closed (ch r2)" using assms(6) by blast
  with serve_call_ok [OF assms(1) req, of "\<lambda>_ r. map_option (\<lambda>r1. (r1, ())) (Callback_Stream C t r)" r2]
  show "\<exists>cb1 y. serve_call C (\<lambda>_ r. map_option (\<lambda>r1. (r1, ())) (Callback_Stream C t r)) (ended request) = Some (cb1, y)
        \<and> wr_buf (c_out cb1) = response \<and> c_closed cb1" by simp
  have "list_all2 (\<lambda>t v. carries C (TVar t) v) [t] [x]" "list_all (carries C (TVar t)) vs" using assms(3) by simp_all
  with call_recv_values [OF assms(2), of "[t]" "[x]" "ended response" "frames_of C vs" "Some EOF"] receive_all_ok [of C t vs]
  show "\<exists>cl. call_recv C [t] (ended response) = Some (Some \<lparr>resp_error = None, resp_continue = True, resp_values = [x]\<rparr>, None, cl)
        \<and> receive_all C t (c_in cl) = Some (vs, EOF)" using assms(6) by simp
qed

theorem interop_stream_echo_witness:
  "\<exists>cl. call_recv byte_codec [()] (ended (frames_of byte_codec [AResponseHeader None True, ANil, AData [1], AData [2]]))
       = Some (Some \<lparr>resp_error = None, resp_continue = True, resp_values = [ANil]\<rparr>, None, cl)
     \<and> receive_all byte_codec () (c_in cl) = Some ([AData [1], AData [2]], EOF)"
proof -
  have "list_all (carries byte_codec (TVar ())) [ANil, AData [1], AData [2]]" by (simp add: byte_codec_carries)
  then have "list_all (carries byte_codec (TVar ())) (ANil # [AData [1], AData [2]])" .
  from interop_stream_echo [OF _ _ this _ refl refl] show ?thesis by (auto simp: byte_codec_carries)
qed

text \<open>
  The byte check: the same for raw bytes after the first value, copied by \<^verbatim>\<open>io.Copy\<close>. The bytes that the caller finds on its channel after the reply are exactly the bytes it sent.
\<close>

theorem interop_bytes_echo:
  assumes "carries C TCall (ACallHeader ''Bytes'')" and "carries C TResponse (AResponseHeader None True)"
    and "carries C (TVar t) x" and "single_error [x] = None"
    and "request = frames_of C [ACallHeader ''Bytes'', x] @ data" and "response = frames_of C [AResponseHeader None True, x] @ data"
  shows "(\<exists>sv1 inner rest. serve_call C (\<lambda>_. Interop_Bytes C t (Inr (ended response))) (ended request) = Some (sv1, Some (Some (inner, rest)))
        \<and> wr_buf (c_out inner) = request \<and> c_eof inner \<and> wr_buf (c_out sv1) = response \<and> c_closed sv1)
    \<and> (\<exists>cb1 y. serve_call C (\<lambda>_ r. map_option (\<lambda>r1. (r1, ())) (Callback_Bytes C t r)) (ended request) = Some (cb1, y)
        \<and> wr_buf (c_out cb1) = response \<and> c_closed cb1)
    \<and> (\<exists>cl. call_recv C [t] (ended response) = Some (Some \<lparr>resp_error = None, resp_continue = True, resp_values = [x]\<rparr>, None, cl)
        \<and> c_in cl = \<lparr>rd_buf = data, rd_end = Some EOF\<rparr>)"
proof (intro conjI)
  have e: "encodes C (ACallHeader ''Bytes'')" "encodes C (AResponseHeader None True)" using assms(1,2) carries_encodes by auto
  have req: "c_in (ended request) = \<lparr>rd_buf = frame_bytes C (ACallHeader ''Bytes'') @ frame_bytes C x @ data, rd_end = Some EOF\<rparr>"
    using assms(5) by simp
  from Interop_Bytes_ok [OF e(1) assms(2-4,6)] obtain r1 inner rest where
    "Interop_Bytes C t (Inr (ended response)) (fresh_responder (ended (frame_bytes C x @ data))) = Some (r1, Some (inner, rest))"
    "wr_buf (c_out inner) = request" "c_eof inner" "responded r1" "hdr_continue r1" "wr_buf (c_out (ch r1)) = response" "c_closed (ch r1)"
    using assms(5) by blast
  with serve_call_ok [OF assms(1) req, of "\<lambda>_. Interop_Bytes C t (Inr (ended response))" r1]
  show "\<exists>sv1 inner rest. serve_call C (\<lambda>_. Interop_Bytes C t (Inr (ended response))) (ended request) = Some (sv1, Some (Some (inner, rest)))
        \<and> wr_buf (c_out inner) = request \<and> c_eof inner \<and> wr_buf (c_out sv1) = response \<and> c_closed sv1" by simp
  from Callback_Bytes_ok [OF e(2) assms(3,4), of data] obtain r2 where
    "Callback_Bytes C t (fresh_responder (ended (frame_bytes C x @ data))) = Some r2" "responded r2" "hdr_continue r2"
    "wr_buf (c_out (ch r2)) = response" "c_closed (ch r2)" using assms(6) by blast
  with serve_call_ok [OF assms(1) req, of "\<lambda>_ r. map_option (\<lambda>r1. (r1, ())) (Callback_Bytes C t r)" r2]
  show "\<exists>cb1 y. serve_call C (\<lambda>_ r. map_option (\<lambda>r1. (r1, ())) (Callback_Bytes C t r)) (ended request) = Some (cb1, y)
        \<and> wr_buf (c_out cb1) = response \<and> c_closed cb1" by simp
  have "list_all2 (\<lambda>t v. carries C (TVar t) v) [t] [x]" using assms(3) by simp
  with call_recv_values [OF assms(2), of "[t]" "[x]" "ended response" data "Some EOF"]
  show "\<exists>cl. call_recv C [t] (ended response) = Some (Some \<lparr>resp_error = None, resp_continue = True, resp_values = [x]\<rparr>, None, cl)
        \<and> c_in cl = \<lparr>rd_buf = data, rd_end = Some EOF\<rparr>" using assms(6) by simp
qed

theorem interop_bytes_echo_witness:
  "\<exists>cl. call_recv byte_codec [()] (ended (frames_of byte_codec [AResponseHeader None True, ANil] @ [1, 2, 3]))
       = Some (Some \<lparr>resp_error = None, resp_continue = True, resp_values = [ANil]\<rparr>, None, cl)
     \<and> c_in cl = \<lparr>rd_buf = [1, 2, 3], rd_end = Some EOF\<rparr>"
  using interop_bytes_echo [OF _ _ _ _ refl refl, of byte_codec "()" ANil "[1, 2, 3]"] by (auto simp: byte_codec_carries)

text \<open>
  \<^verbatim>\<open>InteropService.Unary\<close>. When the call back to the caller returns a value, the caller's own call gets that value. When it fails, with a remote error or any other, \<^verbatim>\<open>Unary\<close>
  only logs the error and returns without a response, so the server answers nil: the caller sees a successful call without a value.
\<close>

theorem interop_unary:
  assumes "carries C TCall (ACallHeader ''Unary'')" and "carries C (TVar t) x" and "carries C TResponse (AResponseHeader None False)"
    and "carries C (TVar t) ANil" and "single_error [v] = None" and "carries C (TVar t) v"
    and "call_back C t opened ''Unary'' x = Some res" and "v = (case res of Inl err \<Rightarrow> ANil | Inr (y, _) \<Rightarrow> y)"
  shows "\<exists>sv1 y cl. serve_call C (\<lambda>_ r. map_option (\<lambda>r1. (r1, ())) (Interop_Unary C t opened r)) (ended (frames_of C [ACallHeader ''Unary'', x])) = Some (sv1, y)
    \<and> c_closed sv1 \<and> call_recv C [t] (ended (wr_buf (c_out sv1)))
        = Some (Some \<lparr>resp_error = None, resp_continue = False, resp_values = [v]\<rparr>, None, cl)"
proof -
  let ?h = "AResponseHeader None False"
  have e: "encodes C ANil" "encodes C v" using assms(4,6) carries_encodes by auto
  from Interop_Unary_ok [OF assms(2,3) e(2,1) assms(5,7,8)] obtain r1 where
    r1: "Interop_Unary C t opened (fresh_responder (ended (frame_bytes C x))) = Some r1"
    "respond_finish C r1 = (out_frames C [?h, v] (ended []))\<lparr>c_closed := True\<rparr>" by blast
  have "list_all2 (\<lambda>t v. carries C (TVar t) v) [t] [v]" using assms(6) by simp
  with call_recv_values [OF assms(3), of "[t]" "[v]" "ended (frames_of C [?h, v])" "[]" "Some EOF"] r1
    serve_call_ok [OF assms(1), of "ended (frames_of C [ACallHeader ''Unary'', x])" "frame_bytes C x" "Some EOF"
      "\<lambda>_ r. map_option (\<lambda>r1. (r1, ())) (Interop_Unary C t opened r)" r1]
  show ?thesis by simp
qed

theorem interop_unary_witness:
  "\<exists>sv1 y cl. serve_call byte_codec (\<lambda>_ r. map_option (\<lambda>r1. (r1, ())) (Interop_Unary byte_codec () (Inl EOF) r))
        (ended (frames_of byte_codec [ACallHeader ''Unary'', AData [5]])) = Some (sv1, y)
     \<and> call_recv byte_codec [()] (ended (wr_buf (c_out sv1)))
         = Some (Some \<lparr>resp_error = None, resp_continue = False, resp_values = [ANil]\<rparr>, None, cl)"
proof -
  have "call_back byte_codec () (Inl EOF) ''Unary'' (AData [5]) = Some (Inl (CErr EOF))" by (simp add: call_back_def)
  from interop_unary [OF _ _ _ _ _ _ this, of ANil] show ?thesis by (auto simp: byte_codec_carries)
qed

end
