(* ===== verification/Cli_Command.thy ===== *)
theory Cli_Command
  imports Qtalk_Prelude
begin

text \<open>
  The command tree of the \<^verbatim>\<open>qtalk\<close> tool (\<^verbatim>\<open>src/cmd/qtalk/cli/command.go\<close> and \<^verbatim>\<open>Execute\<close> of
  \<^verbatim>\<open>framework.go\<close>). Commands are objects linked by pointers in both directions, so the model has a store of
  commands by reference. \<^verbatim>\<open>CommandPath\<close> follows the parents and is a \<open>partial_function\<close>: two commands may be added to each other.
  Flags are those of the standard library's package \<^verbatim>\<open>flag\<close>; its parser is an argument of \<^verbatim>\<open>Execute\<close>. The field \<^verbatim>\<open>Annotations\<close>, which
  no code of the package reads, is left out.

  The lemmas show that \<^verbatim>\<open>Find\<close> consumes exactly the longest chain of subcommand names, so that the slice
  expression of \<^verbatim>\<open>Execute\<close> is in range, that command paths end in a tree, and what \<^verbatim>\<open>Execute\<close> runs.
\<close>

section \<open>Commands\<close>

text \<open>The constructors of \<^verbatim>\<open>PositionalArgs\<close> in the source.\<close>

datatype PositionalArgs = MinArgs int | MaxArgs int | ExactArgs int | RangeArgs int int

text \<open>A flag of a flag set, with the kind of its value. A kind of the program's own has the text of its zero value and says whether it is boolean.\<close>

datatype flag_kind = FBool | FString | FInt | FUint | FFloat | FDuration | FOther string bool

record Flag =
  f_Name :: string
  f_Usage :: string
  f_DefValue :: string
  f_Value :: flag_kind

record Command =
  Usage :: string
  Short :: string
  Long :: string
  Hidden :: bool
  Aliases :: "string list"
  Example :: string
  Version :: string
  Args :: "PositionalArgs option"
  Run :: bool                   \<comment> \<open>whether Run is set\<close>
  commands :: "nat list"
  parent :: "nat option"
  flags :: "Flag list"

type_synonym cmds = "nat \<Rightarrow> Command"

text \<open>\<^verbatim>\<open>strings.Index(s, " ")\<close>.\<close>

fun index_space :: "string \<Rightarrow> nat option" where
  "index_space [] = None"
| "index_space (c # s) = (if c = CHR '' '' then Some 0 else map_option Suc (index_space s))"

definition Name :: "Command \<Rightarrow> string" where
  "Name c = (case index_space (Usage c) of Some i \<Rightarrow> take i (Usage c) | None \<Rightarrow> Usage c)"

definition AddCommand :: "nat \<Rightarrow> nat \<Rightarrow> cmds \<Rightarrow> cmds option" where
  "AddCommand c sub st =
     (if sub = c then None
      else
        (let st1 = st(sub := (st sub)\<lparr>parent := Some c\<rparr>)
         in Some (st1(c := (st1 c)\<lparr>commands := commands (st1 c) @ [sub]\<rparr>))))"

partial_function (option) CommandPath :: "cmds \<Rightarrow> nat \<Rightarrow> string option" where
  "CommandPath st c =
     (case parent (st c) of
        Some p \<Rightarrow> Option.bind (CommandPath st p) (\<lambda>s. Some (s @ '' '' @ Name (st c)))
      | None \<Rightarrow> Some (Name (st c)))"

definition UseLine :: "cmds \<Rightarrow> nat \<Rightarrow> string option" where
  "UseLine st c =
     (let use = (if Usage (st c) = Name (st c) \<and> commands (st c) \<noteq> [] then Name (st c) @ '' [command]'' else Usage (st c))
      in case parent (st c) of
           Some p \<Rightarrow> map_option (\<lambda>s. s @ '' '' @ use) (CommandPath st p)
         | None \<Rightarrow> Some use)"

fun hasAlias :: "string list \<Rightarrow> string \<Rightarrow> bool" where
  "hasAlias [] name = False"
| "hasAlias (a # as) name = (if a = name then True else hasAlias as name)"

fun findSub :: "cmds \<Rightarrow> nat list \<Rightarrow> string \<Rightarrow> nat option" where
  "findSub st [] name = None"
| "findSub st (c # cs) name =
     (if Name (st c) = name \<or> hasAlias (Aliases (st c)) name then Some c else findSub st cs name)"

text \<open>The loop of \<^verbatim>\<open>Find\<close>; \<open>n\<close> is the index of the argument at hand.\<close>

fun find_loop :: "cmds \<Rightarrow> nat \<Rightarrow> nat \<Rightarrow> string list \<Rightarrow> nat \<times> nat" where
  "find_loop st cmd n [] = (cmd, n)"
| "find_loop st cmd n (arg # args) =
     (case findSub st (commands (st cmd)) arg of
        Some cc \<Rightarrow> find_loop st cc (n + 1) args
      | None \<Rightarrow> (cmd, n))"

definition Find :: "cmds \<Rightarrow> nat \<Rightarrow> string list \<Rightarrow> nat \<times> nat" where
  "Find st c args = (if args = [] then (c, 0) else find_loop st c 0 args)"

fun check_args :: "PositionalArgs \<Rightarrow> string list \<Rightarrow> go_error option" where
  "check_args (MinArgs n) args =
     (if int (length args) < n
      then Some (ErrorString (''requires at least '' @ show_int n @ '' arg(s), only received '' @ show_nat (length args)))
      else None)"
| "check_args (MaxArgs n) args =
     (if int (length args) > n
      then Some (ErrorString (''accepts at most '' @ show_int n @ '' arg(s), received '' @ show_nat (length args)))
      else None)"
| "check_args (ExactArgs n) args =
     (if int (length args) \<noteq> n
      then Some (ErrorString (''accepts '' @ show_int n @ '' arg(s), received '' @ show_nat (length args)))
      else None)"
| "check_args (RangeArgs mn mx) args =
     (if int (length args) < mn \<or> int (length args) > mx
      then Some (ErrorString (''accepts between '' @ show_int mn @ '' and '' @ show_int mx
                  @ '' arg(s), received '' @ show_nat (length args)))
      else None)"

section \<open>Execute\<close>

text \<open>What \<^verbatim>\<open>f.Parse\<close> returns: an error, the help request, or the remaining arguments and whether \<^verbatim>\<open>-v\<close> was given.\<close>

datatype parsed = ParseErr go_error | ParseHelp | Parsed "string list" bool

datatype outcome =
    ExecErr go_error
  | ExecHelp nat
  | ExecVersion string
  | ExecRun nat "string list"
  | ExecPanic

text \<open>\<^verbatim>\<open>root.Flags().BoolVar(&showVersion, "v", false, "show version")\<close>; \<open>None\<close> is the panic for a flag that is already defined.\<close>

definition v_flag :: "Command \<Rightarrow> bool" where
  "v_flag c \<longleftrightarrow> list_ex (\<lambda>f. f_Name f = ''v'') (flags c)"

definition add_v_flag :: "Command \<Rightarrow> Command option" where
  "add_v_flag c =
     (if v_flag c then None
      else Some (c\<lparr>flags := flags c @ [\<lparr>f_Name = ''v'', f_Usage = ''show version'', f_DefValue = ''false'', f_Value = FBool\<rparr>]\<rparr>))"

text \<open>
  \<open>parse c fs args\<close> stands for the parser on the flag set of command \<open>c\<close>, with the flags \<open>fs\<close>. Defining a flag a second time
  panics, and so does a slice expression that is out of range.
\<close>

definition Execute :: "(nat \<Rightarrow> Flag list \<Rightarrow> string list \<Rightarrow> parsed) \<Rightarrow> cmds \<Rightarrow> nat \<Rightarrow> string list \<Rightarrow> outcome \<times> cmds" where
  "Execute parse st root args =
     (case (if Version (st root) \<noteq> [] then add_v_flag (st root) else Some (st root)) of
        None \<Rightarrow> (ExecPanic, st)
      | Some c1 \<Rightarrow>
          (let st1 = st(root := c1);
               (cmd, n) = Find st1 root args
           in if n > length args then (ExecPanic, st1)
              else
                (case parse cmd (flags (st1 cmd)) (drop n args) of
                   ParseErr e \<Rightarrow> (ExecErr e, st1)
                 | ParseHelp \<Rightarrow> (ExecHelp cmd, st1)
                 | Parsed rest showVersion \<Rightarrow>
                     if showVersion then (ExecVersion (Version (st1 root)), st1)
                     else
                       (case Option.bind (Args (st1 cmd)) (\<lambda>a. check_args a rest) of
                          Some e \<Rightarrow> (ExecErr e, st1)
                        | None \<Rightarrow> if \<not> Run (st1 cmd) then (ExecHelp cmd, st1) else (ExecRun cmd rest, st1)))))"

section \<open>Finding commands\<close>

text \<open>The chain of subcommands that a list of arguments names.\<close>

fun chain :: "cmds \<Rightarrow> nat \<Rightarrow> string list \<Rightarrow> nat option" where
  "chain st c [] = Some c"
| "chain st c (a # as) = Option.bind (findSub st (commands (st c)) a) (\<lambda>cc. chain st cc as)"

lemma hasAlias_set [simp]: "hasAlias as name \<longleftrightarrow> name \<in> set as"
  by (induction as) auto

lemma findSub_Some:
  "findSub st cs name = Some c \<Longrightarrow> c \<in> set cs \<and> (Name (st c) = name \<or> name \<in> set (Aliases (st c)))"
  by (induction cs) (auto split: if_splits)

lemma findSub_None:
  "findSub st cs name = None \<longleftrightarrow> (\<forall>c \<in> set cs. Name (st c) \<noteq> name \<and> name \<notin> set (Aliases (st c)))"
  by (induction cs) auto

lemma find_loop_chain:
  assumes "find_loop st c n args = (cmd, n')"
  shows "n \<le> n' \<and> n' - n \<le> length args \<and> chain st c (take (n' - n) args) = Some cmd
    \<and> (n' - n < length args \<longrightarrow> findSub st (commands (st cmd)) (args ! (n' - n)) = None)"
  using assms
proof (induction st c n args rule: find_loop.induct)
  case (2 st c n arg args)
  show ?case
  proof (cases "findSub st (commands (st c)) arg")
    case None
    with 2 show ?thesis by auto
  next
    case (Some cc)
    with 2 have IH: "n + 1 \<le> n'" "n' - (n + 1) \<le> length args" "chain st cc (take (n' - (n + 1)) args) = Some cmd"
      "n' - (n + 1) < length args \<longrightarrow> findSub st (commands (st cmd)) (args ! (n' - (n + 1))) = None" by auto
    then have "n' - n = Suc (n' - (n + 1))" by simp
    with IH Some show ?thesis by simp
  qed
qed auto

lemma Find_chain:
  assumes "Find st c args = (cmd, n)"
  shows "n \<le> length args \<and> chain st c (take n args) = Some cmd
    \<and> (n < length args \<longrightarrow> findSub st (commands (st cmd)) (args ! n) = None)"
  using assms find_loop_chain [of st c 0 args cmd n] by (auto simp: Find_def split: if_splits)

text \<open>The names do not depend on the flag sets.\<close>

lemma find_loop_cong:
  assumes "\<And>c. Name (st' c) = Name (st c) \<and> Aliases (st' c) = Aliases (st c) \<and> commands (st' c) = commands (st c)"
  shows "find_loop st' c n args = find_loop st c n args"
proof -
  have "findSub st' cs name = findSub st cs name" for cs name using assms by (induction cs) simp_all
  with assms show ?thesis by (induction st c n args rule: find_loop.induct) (auto split: option.splits)
qed

lemma Name_flags [simp]: "Name (c\<lparr>flags := fs\<rparr>) = Name c"
  by (cases "index_space (Usage c)") (simp_all add: Name_def)

lemma Find_flags: "Find (st(r := (st r)\<lparr>flags := fs\<rparr>)) c args = Find st c args"
  unfolding Find_def by (auto intro!: find_loop_cong)

text \<open>Paths end when no command is its own ancestor.\<close>

lemma CommandPath_total:
  assumes "\<And>c p. parent (st c) = Some p \<Longrightarrow> rank p < (rank c :: nat)"
  shows "\<exists>s. CommandPath st c = Some s"
proof (induction "rank c" arbitrary: c rule: less_induct)
  case less
  show ?case
  proof (cases "parent (st c)")
    case None
    then show ?thesis by (subst CommandPath.simps) simp
  next
    case (Some p)
    from less [OF assms [OF Some]] obtain s where "CommandPath st p = Some s" by blast
    with Some show ?thesis by (subst CommandPath.simps) simp
  qed
qed

section \<open>Properties\<close>

text \<open>
  \<^verbatim>\<open>Find\<close> follows subcommand names and aliases as far as they go: the arguments it consumes are a chain of
  subcommands from the starting command to the one returned, and the next argument, if any, names no subcommand of it.
\<close>

theorem Find_longest_chain:
  assumes "Find st c args = (cmd, n)"
  shows "n \<le> length args \<and> chain st c (take n args) = Some cmd
    \<and> (n < length args \<longrightarrow>
         (\<forall>s \<in> set (commands (st cmd)). Name (st s) \<noteq> args ! n \<and> args ! n \<notin> set (Aliases (st s))))"
  using Find_chain [OF assms] by (simp add: findSub_None)

definition sample_cmds :: cmds where
  "sample_cmds = (\<lambda>r. \<lparr>Usage = (if r = 0 then ''qtalk'' else if r = 1 then ''call [url]'' else ''x''), Short = [], Long = [], Hidden = False, Aliases = [], Example = [], Version = ''0.1'',
     Args = (if r = 1 then Some (ExactArgs 1) else None), Run = (r = 1), commands = (if r = 0 then [1] else []),
     parent = (if r = 1 then Some 0 else None), flags = []\<rparr>)"

theorem Find_longest_chain_witness:
  "Find sample_cmds 0 [''call'', ''url''] = (1, 1) \<and> chain sample_cmds 0 [''call''] = Some 1"
proof -
  have f: "Find sample_cmds 0 [''call'', ''url''] = (1, 1)"
    by (simp add: Find_def sample_cmds_def Name_def)
  from Find_longest_chain [OF f] f show ?thesis by simp
qed

text \<open>
  The first \<^verbatim>\<open>Execute\<close> on a command tree does not panic. If it runs a command, it is the one \<^verbatim>\<open>Find\<close> returns, the arguments
  are those the flag parser left over, and they satisfy the command's \<^verbatim>\<open>Args\<close>. A second
  \<^verbatim>\<open>Execute\<close> with the same versioned root always panics, because the flag \<^verbatim>\<open>v\<close> is defined again.
\<close>

theorem Execute_runs_found_command:
  assumes "Execute parse st root args = (res, st')" and "\<not> v_flag (st root)"
  shows "res \<noteq> ExecPanic
    \<and> (\<forall>cmd rest. res = ExecRun cmd rest \<longrightarrow>
         (\<exists>n. Find st root args = (cmd, n) \<and> parse cmd (flags (st' cmd)) (drop n args) = Parsed rest False
            \<and> Run (st cmd) \<and> (\<forall>a. Args (st cmd) = Some a \<longrightarrow> check_args a rest = None)))
    \<and> (Version (st root) \<noteq> [] \<longrightarrow> (\<forall>args2. fst (Execute parse st' root args2) = ExecPanic))"
proof -
  obtain fs where c1: "(if Version (st root) \<noteq> [] then add_v_flag (st root) else Some (st root)) = Some ((st root)\<lparr>flags := fs\<rparr>)"
    and v: "Version (st root) \<noteq> [] \<longrightarrow> v_flag ((st root)\<lparr>flags := fs\<rparr>)"
  proof (cases "Version (st root) = []")
    case True
    then show ?thesis by (intro that [of "flags (st root)"]) simp_all
  next
    case False
    with assms(2) show ?thesis
      by (intro that [of "flags (st root) @ [\<lparr>f_Name = ''v'', f_Usage = ''show version'', f_DefValue = ''false'', f_Value = FBool\<rparr>]"]) (simp_all add: add_v_flag_def v_flag_def list_ex_iff)
  qed
  let ?st1 = "st(root := (st root)\<lparr>flags := fs\<rparr>)"
  obtain cmd n where f: "Find st root args = (cmd, n)" by (cases "Find st root args")
  have same: "Find ?st1 root args = (cmd, n)" "Run (?st1 c) = Run (st c)" "Args (?st1 c) = Args (st c)" for c
    using f Find_flags [of st root fs root args] by auto
  have n: "\<not> n > length args" using Find_chain [OF f] by simp
  have ex: "(case parse cmd (flags (?st1 cmd)) (drop n args) of
       ParseErr e \<Rightarrow> (ExecErr e, ?st1)
     | ParseHelp \<Rightarrow> (ExecHelp cmd, ?st1)
     | Parsed rest showVersion \<Rightarrow>
         if showVersion then (ExecVersion (Version (?st1 root)), ?st1)
         else (case Option.bind (Args (?st1 cmd)) (\<lambda>a. check_args a rest) of
             Some e \<Rightarrow> (ExecErr e, ?st1)
           | None \<Rightarrow> if \<not> Run (?st1 cmd) then (ExecHelp cmd, ?st1) else (ExecRun cmd rest, ?st1))) = (res, st')"
    using assms(1) same(1) n unfolding Execute_def c1 by (simp add: Let_def del: fun_upd_apply)
  have st': "st' = ?st1" using ex by (auto split: parsed.splits if_splits option.splits)
  have "res \<noteq> ExecPanic" using ex by (auto split: parsed.splits if_splits option.splits)
  moreover have "\<exists>n. Find st root args = (c, n) \<and> parse c (flags (st' c)) (drop n args) = Parsed rest False
      \<and> Run (st c) \<and> (\<forall>a. Args (st c) = Some a \<longrightarrow> check_args a rest = None)" if "res = ExecRun c rest" for c rest
    using ex f st' that by (auto split: parsed.splits if_splits option.splits)
  moreover have "fst (Execute parse st' root args2) = ExecPanic" if "Version (st root) \<noteq> []" for args2
    using that st' v by (simp add: Execute_def add_v_flag_def)
  ultimately show ?thesis by blast
qed

theorem Execute_runs_found_command_witness:
  "\<exists>st'. Execute (\<lambda>c v as. Parsed as False) sample_cmds 0 [''call'', ''url''] = (ExecRun 1 [''url''], st')
     \<and> fst (Execute (\<lambda>c v as. Parsed as False) st' 0 []) = ExecPanic"
proof -
  obtain res st' where e: "Execute (\<lambda>c v as. Parsed as False) sample_cmds 0 [''call'', ''url''] = (res, st')"
    by (cases "Execute (\<lambda>c v as. Parsed as False) sample_cmds 0 [''call'', ''url'']")
  moreover have "res = ExecRun 1 [''url'']" using e by (auto simp: Execute_def Find_def sample_cmds_def Name_def add_v_flag_def v_flag_def)
  moreover have "\<not> v_flag (sample_cmds 0)" "Version (sample_cmds 0) \<noteq> []" by (simp_all add: sample_cmds_def v_flag_def)
  ultimately show ?thesis using Execute_runs_found_command [OF e] by blast
qed

end
