(* ===== verification/Cli_Help.thy ===== *)
theory Cli_Help
  imports Cli_Command "HOL-Library.Monad_Syntax"
begin

text \<open>
  The help text of a command (\<^verbatim>\<open>src/cmd/qtalk/cli/help.go\<close>): the methods of \<^verbatim>\<open>CommandHelp\<close> and the text that \<^verbatim>\<open>HelpTemplate\<close> makes of them. Of
  the standard library, \<^verbatim>\<open>flag.UnquoteUsage\<close>, the verbs \<^verbatim>\<open>%q\<close> and \<^verbatim>\<open>%-16s\<close> and \<^verbatim>\<open>strings.TrimRightFunc\<close> are modelled for ASCII text.
  \<^verbatim>\<open>Available\<close> and \<^verbatim>\<open>HasSubCommands\<close> call each other down the tree of commands, which need not be a tree, so
  they are a \<open>partial_function\<close>. \<^verbatim>\<open>FlagUsages\<close> overwrites the usage of the flags it prints; the new flag set is a result.

  The lemmas show which subcommands the text lists, that it is produced for every tree, and what printing it twice gives.
\<close>

section \<open>Text\<close>

definition nl :: string where "nl = [CHR 0x0A]"
definition tab :: string where "tab = [CHR 0x09]"
definition back_quote :: char where "back_quote = CHR 0x60"
definition double_quote :: char where "double_quote = CHR 0x22"

definition is_space :: "char \<Rightarrow> bool" where
  "is_space c \<longleftrightarrow> c \<in> {CHR 0x09, CHR 0x0A, CHR 0x0B, CHR 0x0C, CHR 0x0D, CHR '' ''}"

definition trimRight :: "string \<Rightarrow> string" where
  "trimRight s = rev (dropWhile is_space (rev s))"

definition padRight :: "string \<Rightarrow> nat \<Rightarrow> string" where
  "padRight s padding = s @ replicate (padding - length s) (CHR '' '')"

text \<open>\<^verbatim>\<open>strings.ReplaceAll(usage, "\n", "\n    \t")\<close>.\<close>

definition indent_lines :: "string \<Rightarrow> string" where
  "indent_lines s = concat (map (\<lambda>c. if c = CHR 0x0A then nl @ ''    '' @ tab else [c]) s)"

text \<open>The verb \<^verbatim>\<open>%q\<close>.\<close>

definition hex_digit :: "nat \<Rightarrow> char" where
  "hex_digit n = (if n < 10 then char_of (48 + n) else char_of (87 + n))"

definition quote_char :: "char \<Rightarrow> string" where
  "quote_char c =
     (if c = double_quote then [CHR 0x5C, double_quote]
      else if c = CHR 0x5C then [CHR 0x5C, CHR 0x5C]
      else if c = CHR 0x07 then [CHR 0x5C, CHR ''a''] else if c = CHR 0x08 then [CHR 0x5C, CHR ''b'']
      else if c = CHR 0x0C then [CHR 0x5C, CHR ''f''] else if c = CHR 0x0A then [CHR 0x5C, CHR ''n'']
      else if c = CHR 0x0D then [CHR 0x5C, CHR ''r''] else if c = CHR 0x09 then [CHR 0x5C, CHR ''t'']
      else if c = CHR 0x0B then [CHR 0x5C, CHR ''v'']
      else if of_char c < (32 :: nat) \<or> of_char c = (127 :: nat)
        then [CHR 0x5C, CHR ''x'', hex_digit (of_char c div 16), hex_digit (of_char c mod 16)]
      else [c])"

definition Quote :: "string \<Rightarrow> string" where
  "Quote s = [double_quote] @ concat (map quote_char s) @ [double_quote]"

section \<open>Flags\<close>

definition type_name :: "flag_kind \<Rightarrow> string" where
  "type_name k = (case k of FBool \<Rightarrow> [] | FString \<Rightarrow> ''string'' | FInt \<Rightarrow> ''int'' | FUint \<Rightarrow> ''uint'' | FFloat \<Rightarrow> ''float''
     | FDuration \<Rightarrow> ''duration'' | FOther _ b \<Rightarrow> if b then [] else ''value'')"

text \<open>A name between back quotes in the usage, otherwise the name of the type.\<close>

definition UnquoteUsage :: "Flag \<Rightarrow> string \<times> string" where
  "UnquoteUsage f =
     (let pre = takeWhile (\<lambda>c. c \<noteq> back_quote) (f_Usage f);
          rest = tl (dropWhile (\<lambda>c. c \<noteq> back_quote) (f_Usage f));
          name = takeWhile (\<lambda>c. c \<noteq> back_quote) rest
      in if back_quote \<in> set (f_Usage f) \<and> back_quote \<in> set rest
         then (name, pre @ name @ tl (dropWhile (\<lambda>c. c \<noteq> back_quote) rest))
         else (type_name (f_Value f), f_Usage f))"

definition isZeroValue :: "Flag \<Rightarrow> string \<Rightarrow> bool" where
  "isZeroValue f val \<longleftrightarrow>
     val = (case f_Value f of FBool \<Rightarrow> ''false'' | FString \<Rightarrow> [] | FInt \<Rightarrow> ''0'' | FUint \<Rightarrow> ''0'' | FFloat \<Rightarrow> ''0''
            | FDuration \<Rightarrow> ''0s'' | FOther z _ \<Rightarrow> z)"

text \<open>One visit of \<^verbatim>\<open>FlagUsages\<close>, with the text built so far: the text after it, and the flag without its usage.\<close>

definition flag_usage :: "string \<Rightarrow> Flag \<Rightarrow> string \<times> Flag" where
  "flag_usage sb f =
     (let (name, usage) = UnquoteUsage f;
          line = ''  -'' @ f_Name f @ (if length name > 0 then '' '' @ name else []);
          sep = (if length (sb @ line) \<le> 4 then tab else nl @ ''    '' @ tab);
          f1 = f\<lparr>f_Usage := []\<rparr>;
          dflt = (if \<not> isZeroValue f1 (f_DefValue f1) then
                    (if fst (UnquoteUsage f1) = ''string'' then '' (default '' @ Quote (f_DefValue f1) @ '')''
                     else '' (default '' @ f_DefValue f1 @ '')'')
                  else [])
      in (sb @ line @ sep @ indent_lines usage @ dflt @ nl, f1))"

text \<open>\<^verbatim>\<open>VisitAll\<close> goes through the flags in the order of their names.\<close>

fun visit_flags :: "string \<Rightarrow> Flag list \<Rightarrow> string \<times> Flag list" where
  "visit_flags sb [] = (sb, [])"
| "visit_flags sb (f # fs) =
     (case flag_usage sb f of (sb1, f1) \<Rightarrow> (case visit_flags sb1 fs of (sb2, fs1) \<Rightarrow> (sb2, f1 # fs1)))"

definition name_key :: "Flag \<Rightarrow> nat list" where
  "name_key f = map of_char (f_Name f)"

fun list_le :: "nat list \<Rightarrow> nat list \<Rightarrow> bool" where
  "list_le [] ys = True"
| "list_le (x # xs) [] = False"
| "list_le (x # xs) (y # ys) = (x < y \<or> (x = y \<and> list_le xs ys))"

fun insert_flag :: "Flag \<Rightarrow> Flag list \<Rightarrow> Flag list" where
  "insert_flag f [] = [f]"
| "insert_flag f (g # gs) = (if list_le (name_key f) (name_key g) then f # g # gs else g # insert_flag f gs)"

definition sort_flags :: "Flag list \<Rightarrow> Flag list" where
  "sort_flags fs = foldr insert_flag fs []"

definition FlagUsages :: "Flag list \<Rightarrow> string \<times> Flag list" where
  "FlagUsages fs = visit_flags [] (sort_flags fs)"

definition HasFlags :: "cmds \<Rightarrow> nat \<Rightarrow> bool" where
  "HasFlags st c \<longleftrightarrow> length (flags (st c)) > 0"

section \<open>CommandHelp\<close>

definition Runnable :: "cmds \<Rightarrow> nat \<Rightarrow> bool" where
  "Runnable st c \<longleftrightarrow> Run (st c)"

definition HasDescription :: "cmds \<Rightarrow> nat \<Rightarrow> bool" where
  "HasDescription st c \<longleftrightarrow> Short (st c) \<noteq> [] \<or> Long (st c) \<noteq> []"

definition Description :: "cmds \<Rightarrow> nat \<Rightarrow> string" where
  "Description st c = (if Long (st c) \<noteq> [] then Long (st c) else Short (st c))"

text \<open>The loop of \<^verbatim>\<open>HasSubCommands\<close>, with \<^verbatim>\<open>Available\<close> of each subcommand in it.\<close>

partial_function (option) any_available :: "cmds \<Rightarrow> nat list \<Rightarrow> bool option" where
  "any_available st cs =
     (case cs of
        [] \<Rightarrow> Some False
      | c # cs' \<Rightarrow>
          Option.bind
            (if Hidden (st c) then Some False else if Run (st c) then Some True else any_available st (commands (st c)))
            (\<lambda>b. if b then Some True else any_available st cs'))"

definition HasSubCommands :: "cmds \<Rightarrow> nat \<Rightarrow> bool option" where
  "HasSubCommands st c = any_available st (commands (st c))"

definition Available :: "cmds \<Rightarrow> nat \<Rightarrow> bool option" where
  "Available st c =
     (if Hidden (st c) then Some False
      else Option.bind (if Runnable st c then Some True else HasSubCommands st c) (\<lambda>b. Some b))"

definition NameAndAliases :: "cmds \<Rightarrow> nat \<Rightarrow> string" where
  "NameAndAliases st c = join '', '' (Name (st c) # Aliases (st c))"

definition HasExample :: "cmds \<Rightarrow> nat \<Rightarrow> bool" where
  "HasExample st c \<longleftrightarrow> length (Example (st c)) > 0"

definition NamePadding :: nat where "NamePadding = 16"

section \<open>The template\<close>

definition command_line :: "cmds \<Rightarrow> nat \<Rightarrow> string" where
  "command_line st c = nl @ ''  '' @ padRight (Name (st c)) NamePadding @ '' '' @ Short (st c)"

fun command_lines :: "cmds \<Rightarrow> nat list \<Rightarrow> string option" where
  "command_lines st [] = Some []"
| "command_lines st (c # cs) =
     do {
       a \<leftarrow> Available st c;
       rest \<leftarrow> command_lines st cs;
       Some ((if a \<or> Name (st c) = ''help'' then command_line st c else []) @ rest)
     }"

text \<open>The parts of the template, in order.\<close>

definition help_use :: "cmds \<Rightarrow> nat \<Rightarrow> string option" where
  "help_use st c = (if Runnable st c then map_option (\<lambda>u. ''Usage:'' @ nl @ u) (UseLine st c) else Some ''Usage:'')"

definition help_about :: "cmds \<Rightarrow> nat \<Rightarrow> string" where
  "help_about st c =
     (if HasDescription st c then nl @ nl @ Description st c else [])
     @ (if length (Aliases (st c)) > 0 then nl @ nl @ ''Aliases:'' @ nl @ NameAndAliases st c else [])
     @ (if HasExample st c then nl @ nl @ ''Examples:'' @ nl @ Example (st c) else [])"

definition help_commands :: "cmds \<Rightarrow> nat \<Rightarrow> bool \<Rightarrow> string option" where
  "help_commands st c subs =
     (if subs then map_option (\<lambda>l. nl @ nl @ ''Available Commands:'' @ l) (command_lines st (commands (st c))) else Some [])"

definition help_flags :: "cmds \<Rightarrow> nat \<Rightarrow> string" where
  "help_flags st c = (if HasFlags st c then nl @ nl @ ''Flags:'' @ nl @ trimRight (fst (FlagUsages (flags (st c)))) else [])"

definition help_more :: "cmds \<Rightarrow> nat \<Rightarrow> bool \<Rightarrow> string option" where
  "help_more st c subs =
     (if subs then map_option (\<lambda>p. nl @ nl @ ''Use '' @ [double_quote] @ p @ '' [command] -help'' @ [double_quote]
                                   @ '' for more information about a command.'') (CommandPath st c)
      else Some [])"

definition WriteHelp :: "cmds \<Rightarrow> nat \<Rightarrow> (string \<times> cmds) option" where
  "WriteHelp st c =
     do {
       use \<leftarrow> help_use st c;
       subs \<leftarrow> HasSubCommands st c;
       list \<leftarrow> help_commands st c subs;
       more \<leftarrow> help_more st c subs;
       Some (use @ help_about st c @ list @ help_flags st c @ more @ nl,
             if HasFlags st c then st(c := (st c)\<lparr>flags := snd (FlagUsages (flags (st c)))\<rparr>) else st)
     }"

section \<open>Which commands are shown\<close>

text \<open>Some chain of subcommands, none of them hidden, leads from the command to one that can be run.\<close>

inductive shown :: "cmds \<Rightarrow> nat \<Rightarrow> bool" for st where
  runs: "\<not> Hidden (st c) \<Longrightarrow> Run (st c) \<Longrightarrow> shown st c"
| has_sub: "\<not> Hidden (st c) \<Longrightarrow> d \<in> set (commands (st c)) \<Longrightarrow> shown st d \<Longrightarrow> shown st c"

inductive_simps shown_iff: "shown st c"

lemma any_available_shown:
  assumes "\<And>c d. d \<in> set (commands (st c)) \<Longrightarrow> rank d < (rank c :: nat)" and "\<And>c. c \<in> set cs \<Longrightarrow> rank c < n"
  shows "any_available st cs = Some (\<exists>c \<in> set cs. shown st c)"
  using assms(2)
proof (induction n arbitrary: cs rule: less_induct)
  case (less n)
  show ?case using less.prems
  proof (induction cs)
    case Nil
    then show ?case by (subst any_available.simps) simp
  next
    case (Cons c cs)
    have "any_available st (commands (st c)) = Some (\<exists>d \<in> set (commands (st c)). shown st d)"
      using less.IH [of "rank c"] Cons.prems assms(1) by simp
    with Cons shown_iff [of st c] show ?case by (subst any_available.simps) (auto split: if_splits)
  qed
qed

lemma Available_shown:
  assumes "\<And>c d. d \<in> set (commands (st c)) \<Longrightarrow> rank d < (rank c :: nat)"
  shows "Available st c = Some (shown st c)"
  using any_available_shown [OF assms, where cs = "commands (st c)" and n = "rank c"] assms shown_iff [of st c]
  by (auto simp: Available_def HasSubCommands_def Runnable_def)

lemma command_lines_shown:
  assumes "\<And>c d. d \<in> set (commands (st c)) \<Longrightarrow> rank d < (rank c :: nat)"
  shows "command_lines st cs = Some (concat (map (command_line st) (filter (\<lambda>s. shown st s \<or> Name (st s) = ''help'') cs)))"
  by (induction cs) (simp_all add: Available_shown [OF assms])

section \<open>Flag usages\<close>

definition clear_usage :: "Flag \<Rightarrow> Flag" where
  "clear_usage f = f\<lparr>f_Usage := []\<rparr>"

lemma flag_usage_text:
  "\<exists>x y. flag_usage sb f = (sb @ x @ indent_lines (snd (UnquoteUsage f)) @ y, clear_usage f)"
proof -
  obtain name usage where u: "UnquoteUsage f = (name, usage)" by fastforce
  let ?line = "''  -'' @ f_Name f @ (if length name > 0 then '' '' @ name else [])"
  let ?x = "?line @ (if length (sb @ ?line) \<le> 4 then tab else nl @ ''    '' @ tab)"
  have "\<exists>y. flag_usage sb f = (sb @ ?x @ indent_lines usage @ y, clear_usage f)"
    unfolding flag_usage_def u by (simp only: Let_def prod.case clear_usage_def append.assoc) blast
  with u show ?thesis by (metis snd_conv)
qed

lemma visit_flags_prefix: "\<exists>x. fst (visit_flags sb fs) = sb @ x"
proof (induction fs arbitrary: sb)
  case (Cons f fs)
  obtain x where "fst (flag_usage sb f) = sb @ x" using flag_usage_text [of sb f] by auto
  with Cons [of "fst (flag_usage sb f)"] show ?case by (auto split: prod.split)
qed simp

lemma visit_flags_snd: "snd (visit_flags sb fs) = map clear_usage fs"
proof (induction fs arbitrary: sb)
  case (Cons f fs)
  have "snd (flag_usage sb f) = clear_usage f" using flag_usage_text [of sb f] by auto
  with Cons [of "fst (flag_usage sb f)"] show ?case by (auto split: prod.split)
qed simp

lemma visit_flags_contains:
  "f \<in> set fs \<Longrightarrow> \<exists>x y. fst (visit_flags sb fs) = x @ indent_lines (snd (UnquoteUsage f)) @ y"
proof (induction fs arbitrary: sb)
  case (Cons g fs)
  obtain x y where g: "flag_usage sb g = (sb @ x @ indent_lines (snd (UnquoteUsage g)) @ y, clear_usage g)"
    using flag_usage_text by blast
  let ?sb = "sb @ x @ indent_lines (snd (UnquoteUsage g)) @ y"
  have v: "fst (visit_flags sb (g # fs)) = fst (visit_flags ?sb fs)" using g by (simp split: prod.split)
  show ?case
  proof (cases "f = g")
    case True
    obtain z where "fst (visit_flags ?sb fs) = ?sb @ z" using visit_flags_prefix by blast
    then have "fst (visit_flags sb (g # fs)) = (sb @ x) @ indent_lines (snd (UnquoteUsage f)) @ (y @ z)" using v True by simp
    then show ?thesis by blast
  next
    case False
    with Cons v show ?thesis by simp
  qed
qed simp

lemma insert_flag_clear: "insert_flag (clear_usage f) (map clear_usage gs) = map clear_usage (insert_flag f gs)"
  by (induction gs) (simp_all add: name_key_def clear_usage_def)

lemma sort_flags_clear: "sort_flags (map clear_usage fs) = map clear_usage (sort_flags fs)"
  by (induction fs) (simp_all add: sort_flags_def insert_flag_clear)

lemma insert_flag_set [simp]: "set (insert_flag f gs) = insert f (set gs)"
  by (induction gs) auto

lemma sort_flags_set [simp]: "set (sort_flags fs) = set fs"
  by (induction fs) (simp_all add: sort_flags_def)

lemma FlagUsages_snd: "snd (FlagUsages fs) = sort_flags (map clear_usage fs)"
  by (simp add: FlagUsages_def visit_flags_snd sort_flags_clear)

section \<open>Properties\<close>

text \<open>
  The help of a command in a tree is always produced, and lists, in their order, exactly the subcommands from which an unhidden chain leads to a command that can be run, and
  any that is called \<^verbatim>\<open>help\<close>; the section is left out when no subcommand can be shown.
\<close>

theorem help_lists_commands:
  assumes "\<And>c d. d \<in> set (commands (st c)) \<Longrightarrow> rank d < (rank c :: nat)"
    and "\<And>c p. parent (st c) = Some p \<Longrightarrow> depth p < (depth c :: nat)"
    and "listed = (if \<exists>s \<in> set (commands (st c)). shown st s
      then nl @ nl @ ''Available Commands:''
        @ concat (map (command_line st) (filter (\<lambda>s. shown st s \<or> Name (st s) = ''help'') (commands (st c))))
      else [])"
  shows "\<exists>before after st'. WriteHelp st c = Some (before @ listed @ after, st')"
proof -
  let ?some = "\<exists>s \<in> set (commands (st c)). shown st s"
  have sub: "HasSubCommands st c = Some ?some"
    using any_available_shown [OF assms(1), where cs = "commands (st c)" and n = "rank c"] assms(1) by (simp add: HasSubCommands_def)
  have path: "\<exists>p. CommandPath st c = Some p" for c using CommandPath_total [OF assms(2)] .
  then obtain more where more: "help_more st c ?some = Some more" by (fastforce simp: help_more_def)
  obtain u where "UseLine st c = Some u" using path by (fastforce simp: UseLine_def Let_def split: option.split)
  then have "\<exists>use. help_use st c = Some use" by (simp add: help_use_def)
  then obtain use where use: "help_use st c = Some use" by blast
  have "help_commands st c ?some = Some listed"
    using command_lines_shown [OF assms(1), where cs = "commands (st c)"] assms(3) by (simp add: help_commands_def)
  with sub use more have "WriteHelp st c = Some ((use @ help_about st c) @ listed @ help_flags st c @ more @ nl,
      if HasFlags st c then st(c := (st c)\<lparr>flags := snd (FlagUsages (flags (st c)))\<rparr>) else st)"
    by (simp only: WriteHelp_def bind.simps append.assoc)
  then show ?thesis by blast
qed

theorem help_lists_commands_witness:
  "\<exists>before after st'. WriteHelp sample_cmds 0 = Some (before @ nl @ nl @ ''Available Commands:'' @ command_line sample_cmds 1 @ after, st')"
proof -
  have s: "shown sample_cmds 1" by (rule shown.runs) (simp_all add: sample_cmds_def)
  have "\<exists>before after st'. WriteHelp sample_cmds 0 = Some (before @ (nl @ nl @ ''Available Commands:'' @ command_line sample_cmds 1) @ after, st')"
    by (rule help_lists_commands [where rank = "\<lambda>c. if c = 0 then 1 else 0" and depth = id])
       (use s in \<open>auto simp: sample_cmds_def split: if_splits\<close>)
  then show ?thesis by simp
qed

text \<open>
  Printing the flags forgets their usages. The first help has the usage text of every flag; after it, the help does not depend on the usages any more: two
  flag sets that differ in nothing else give the same text.
\<close>

theorem flag_usages_forgotten:
  assumes "map clear_usage fs = map clear_usage fs'"
  shows "(\<forall>f \<in> set fs. \<exists>x y. fst (FlagUsages fs) = x @ indent_lines (snd (UnquoteUsage f)) @ y)
    \<and> fst (FlagUsages (snd (FlagUsages fs))) = fst (FlagUsages (snd (FlagUsages fs')))"
  using assms visit_flags_contains [of _ "sort_flags fs" "[]"] by (auto simp: FlagUsages_snd) (simp add: FlagUsages_def)

theorem flag_usages_forgotten_witness:
  "\<exists>x y. fst (FlagUsages [\<lparr>f_Name = ''n'', f_Usage = ''count'', f_DefValue = ''3'', f_Value = FInt\<rparr>]) = x @ ''count'' @ y
     \<and> fst (FlagUsages (snd (FlagUsages [\<lparr>f_Name = ''n'', f_Usage = ''count'', f_DefValue = ''3'', f_Value = FInt\<rparr>])))
         = ''  -n int'' @ nl @ ''    '' @ tab @ '' (default 3)'' @ nl"
proof -
  let ?f = "\<lparr>f_Name = ''n'', f_Usage = ''count'', f_DefValue = ''3'', f_Value = FInt\<rparr>"
  have "map clear_usage [?f] = map clear_usage [?f\<lparr>f_Usage := []\<rparr>]" by (simp add: clear_usage_def)
  from flag_usages_forgotten [OF this] have
    "\<exists>x y. fst (FlagUsages [?f]) = x @ indent_lines (snd (UnquoteUsage ?f)) @ y"
    "fst (FlagUsages (snd (FlagUsages [?f]))) = fst (FlagUsages (snd (FlagUsages [?f\<lparr>f_Usage := []\<rparr>])))" by simp_all
  moreover have "indent_lines (snd (UnquoteUsage ?f)) = ''count''" by code_simp
  moreover have "fst (FlagUsages (snd (FlagUsages [?f\<lparr>f_Usage := []\<rparr>]))) = ''  -n int'' @ nl @ ''    '' @ tab @ '' (default 3)'' @ nl" by code_simp
  ultimately show ?thesis by metis
qed

end
