(* ===== verification/Go_Value.thy ===== *)
theory Go_Value
  imports Qtalk_Prelude Complex_Main
begin

text \<open>
  The fragment of Go's \<^verbatim>\<open>reflect\<close> package that \<^verbatim>\<open>src/fn\<close> and \<^verbatim>\<open>src/exp\<close> are written against: types and their
  kinds, values with their types, conversion, assignability and calls. A type is a tree whose
  defined types are named and looked up in the program's type definitions, so that recursive types are
  possible. A value carries its type; a value of interface type (the element of a \<^verbatim>\<open>[]any\<close>, a struct
  field of interface type) is \<open>VIface\<close> around what it holds, and \<^verbatim>\<open>Interface()\<close> takes the wrapper off. Maps and
  pointers are addresses of a heap. \<open>VInvalid\<close> is the zero \<^verbatim>\<open>reflect.Value\<close>, which stands for a nil
  interface; \<open>VZero t\<close> is the zero value of \<open>t\<close>, not expanded.

  Left out: complex numbers, channels, the remaining sizes of integers, variadic functions, and the conversion of a slice to a
  pointer to an array. A \<^verbatim>\<open>float64\<close> is
  the rational number it denotes (infinities and NaN are left out). Every panic is a value of the
  result type, with the text it prints.
\<close>

section \<open>Types\<close>

datatype ikind = IInt | IInt64 | IUint64 | IUint8

datatype gtype =
    TBool
  | TInteger ikind
  | TFloat64
  | TString
  | TIface string                            \<comment> \<open>an interface; \<open>''''\<close> is the empty one\<close>
  | TSlice gtype
  | TArray nat gtype
  | TMap gtype gtype
  | TPtr gtype
  | TStruct "(string \<times> string \<times> gtype) list" \<comment> \<open>name, json tag and type of the fields\<close>
  | TFunc "gtype list" "gtype list"
  | TNamed string                            \<comment> \<open>a defined type\<close>

datatype kind = KBool | KInteger ikind | KFloat64 | KString | KInterface | KSlice | KArray | KMap | KPtr | KStruct | KFunc

abbreviation TAny :: gtype where "TAny \<equiv> TIface []"
abbreviation TError :: gtype where "TError \<equiv> TIface ''error''"

text \<open>The definitions of the defined types; \<open>underlying\<close> looks through one name.\<close>

type_synonym tdefs = "string \<Rightarrow> gtype"

definition underlying :: "tdefs \<Rightarrow> gtype \<Rightarrow> gtype" where
  "underlying D t = (case t of TNamed n \<Rightarrow> D n | _ \<Rightarrow> t)"

fun kind_of :: "gtype \<Rightarrow> kind" where
  "kind_of TBool = KBool"
| "kind_of (TInteger k) = KInteger k"
| "kind_of TFloat64 = KFloat64"
| "kind_of TString = KString"
| "kind_of (TIface _) = KInterface"
| "kind_of (TSlice _) = KSlice"
| "kind_of (TArray _ _) = KArray"
| "kind_of (TMap _ _) = KMap"
| "kind_of (TPtr _) = KPtr"
| "kind_of (TStruct _) = KStruct"
| "kind_of (TFunc _ _) = KFunc"
| "kind_of (TNamed _) = KStruct"  \<comment> \<open>not reached: a definition is never a name\<close>

definition Kind :: "tdefs \<Rightarrow> gtype \<Rightarrow> kind" where
  "Kind D t = kind_of (underlying D t)"

text \<open>\<^verbatim>\<open>Type.Elem()\<close> of a slice or array type.\<close>

definition Elem :: "tdefs \<Rightarrow> gtype \<Rightarrow> gtype" where
  "Elem D t = (case underlying D t of TSlice e \<Rightarrow> e | TArray n e \<Rightarrow> e | TMap k e \<Rightarrow> e | TPtr e \<Rightarrow> e | u \<Rightarrow> u)"

fun kind_String :: "kind \<Rightarrow> string" where
  "kind_String KBool = ''bool''"
| "kind_String (KInteger IInt) = ''int''"
| "kind_String (KInteger IInt64) = ''int64''"
| "kind_String (KInteger IUint64) = ''uint64''"
| "kind_String (KInteger IUint8) = ''uint8''"
| "kind_String KFloat64 = ''float64''"
| "kind_String KString = ''string''"
| "kind_String KInterface = ''interface''"
| "kind_String KSlice = ''slice''"
| "kind_String KArray = ''array''"
| "kind_String KMap = ''map''"
| "kind_String KPtr = ''ptr''"
| "kind_String KStruct = ''struct''"
| "kind_String KFunc = ''func''"

text \<open>\<^verbatim>\<open>Type.String()\<close>; the tags of the fields of a struct literal type are not printed.\<close>

fun type_String :: "gtype \<Rightarrow> string" where
  "type_String TBool = ''bool''"
| "type_String (TInteger k) = kind_String (KInteger k)"
| "type_String TFloat64 = ''float64''"
| "type_String TString = ''string''"
| "type_String (TIface n) = (if n = [] then ''interface {}'' else n)"
| "type_String (TSlice t) = ''[]'' @ type_String t"
| "type_String (TArray n t) = ''['' @ show_nat n @ '']'' @ type_String t"
| "type_String (TMap k t) = ''map['' @ type_String k @ '']'' @ type_String t"
| "type_String (TPtr t) = ''*'' @ type_String t"
| "type_String (TStruct fs) =
     (if fs = [] then ''struct {}''
      else ''struct { '' @ join ''; '' (map (\<lambda>(n, _, t). n @ '' '' @ type_String t) fs) @ '' }'')"
| "type_String (TFunc ins outs) = ''func('' @ join '', '' (map type_String ins) @ '')''
     @ (case outs of [] \<Rightarrow> [] | [t] \<Rightarrow> '' '' @ type_String t | _ \<Rightarrow> '' ('' @ join '', '' (map type_String outs) @ '')'')"
| "type_String (TNamed n) = n"

section \<open>Values\<close>

datatype gval =
    VInvalid
  | VZero gtype
  | VBool gtype bool
  | VInt gtype int
  | VFloat gtype rat
  | VString gtype string
  | VSlice gtype "gval list"
  | VArray gtype "gval list"
  | VMap gtype nat           \<comment> \<open>the address of the entries\<close>
  | VPtr gtype nat           \<comment> \<open>the address of the value pointed to\<close>
  | VStruct gtype "gval list"
  | VIface gtype gval
  | VFunc gtype nat

text \<open>\<^verbatim>\<open>Value.Type()\<close>; it panics on the zero \<^verbatim>\<open>Value\<close>, which the callers below check.\<close>

fun type_of :: "gval \<Rightarrow> gtype" where
  "type_of VInvalid = TAny"
| "type_of (VZero t) = t"
| "type_of (VBool t _) = t"
| "type_of (VInt t _) = t"
| "type_of (VFloat t _) = t"
| "type_of (VString t _) = t"
| "type_of (VSlice t _) = t"
| "type_of (VArray t _) = t"
| "type_of (VMap t _) = t"
| "type_of (VPtr t _) = t"
| "type_of (VStruct t _) = t"
| "type_of (VIface t _) = t"
| "type_of (VFunc t _) = t"

text \<open>\<^verbatim>\<open>reflect.ValueOf(v.Interface())\<close>.\<close>

fun unwrap :: "gval \<Rightarrow> gval" where
  "unwrap (VIface _ x) = x"
| "unwrap v = v"

text \<open>The same data under another type of the same underlying type.\<close>

fun retype :: "gtype \<Rightarrow> gval \<Rightarrow> gval" where
  "retype t VInvalid = VZero t"
| "retype t (VZero _) = VZero t"
| "retype t (VBool _ b) = VBool t b"
| "retype t (VInt _ n) = VInt t n"
| "retype t (VFloat _ r) = VFloat t r"
| "retype t (VString _ s) = VString t s"
| "retype t (VSlice _ xs) = VSlice t xs"
| "retype t (VArray _ xs) = VArray t xs"
| "retype t (VMap _ a) = VMap t a"
| "retype t (VPtr _ a) = VPtr t a"
| "retype t (VStruct _ xs) = VStruct t xs"
| "retype t (VIface _ x) = VIface t x"
| "retype t (VFunc _ f) = VFunc t f"

lemma type_of_retype [simp]: "type_of (retype t v) = t"
  by (cases v) simp_all

fun elems :: "gval \<Rightarrow> gval list" where
  "elems (VSlice _ xs) = xs"
| "elems (VArray _ xs) = xs"
| "elems _ = []"

section \<open>Conversion\<close>

fun ik_signed :: "ikind \<Rightarrow> bool" where
  "ik_signed IInt = True" | "ik_signed IInt64 = True" | "ik_signed IUint64 = False" | "ik_signed IUint8 = False"

fun ik_width :: "ikind \<Rightarrow> nat" where
  "ik_width IInt = 64" | "ik_width IInt64 = 64" | "ik_width IUint64 = 64" | "ik_width IUint8 = 8"

definition wrap_int :: "ikind \<Rightarrow> int \<Rightarrow> int" where
  "wrap_int k n =
     (let w = 2 ^ ik_width k; r = n mod w in if ik_signed k \<and> w div 2 \<le> r then r - w else r)"

definition in_range :: "ikind \<Rightarrow> int \<Rightarrow> bool" where
  "in_range k n \<longleftrightarrow> (if ik_signed k then - (2 ^ (ik_width k - 1)) \<le> n \<and> n < 2 ^ (ik_width k - 1)
                    else 0 \<le> n \<and> n < 2 ^ ik_width k)"

text \<open>
  A floating-point number as an integer: truncation towards zero. Out of range the result depends on
  the machine; the value is the one of amd64 for signed integers.
\<close>

definition truncate_rat :: "rat \<Rightarrow> int" where
  "truncate_rat r = (if 0 \<le> r then \<lfloor>r\<rfloor> else \<lceil>r\<rceil>)"

definition float_to_int :: "ikind \<Rightarrow> rat \<Rightarrow> int" where
  "float_to_int k r =
     (let n = truncate_rat r in if in_range k n then n else wrap_int k (- (2 ^ 63)))"

text \<open>An integer as a floating-point number: the nearest multiple of the unit in the last of 53 places, ties to even.\<close>

fun f64_shift :: "nat \<Rightarrow> nat" where
  "f64_shift n = (if n < 2 ^ 53 then 0 else Suc (f64_shift (n div 2)))"

declare f64_shift.simps [simp del]

definition int_to_float :: "int \<Rightarrow> rat" where
  "int_to_float n =
     (let u = 2 ^ f64_shift (nat \<bar>n\<bar>); q = \<bar>n\<bar> div u; r = \<bar>n\<bar> mod u;
          q' = (if u < 2 * r \<or> (u = 2 * r \<and> odd q) then q + 1 else q)
      in of_int (sgn n * (q' * u)))"

text \<open>The UTF-8 encoding of a code point, as \<^verbatim>\<open>string(rune(n))\<close> gives it.\<close>

definition rune_String :: "int \<Rightarrow> string" where
  "rune_String n =
     (let c = (\<lambda>k. char_of (nat k)) in
      if 0 \<le> n \<and> n < 128 then [c n]
      else if 0 \<le> n \<and> n < 2048 then [c (192 + n div 64), c (128 + n mod 64)]
      else if 0 \<le> n \<and> n < 65536 \<and> \<not> (55296 \<le> n \<and> n < 57344) then
        [c (224 + n div 4096), c (128 + n div 64 mod 64), c (128 + n mod 64)]
      else if 65536 \<le> n \<and> n < 1114112 then
        [c (240 + n div 262144), c (128 + n div 4096 mod 64), c (128 + n div 64 mod 64), c (128 + n mod 64)]
      else [char_of (239::nat), char_of (191::nat), char_of (189::nat)])"

text \<open>Identity of types up to the tags of struct fields, as conversion uses it.\<close>

fun untag :: "gtype \<Rightarrow> gtype" where
  "untag (TSlice t) = TSlice (untag t)"
| "untag (TArray n t) = TArray n (untag t)"
| "untag (TMap k t) = TMap (untag k) (untag t)"
| "untag (TPtr t) = TPtr (untag t)"
| "untag (TStruct fs) = TStruct (map (\<lambda>(n, _, t). (n, [], untag t)) fs)"
| "untag (TFunc ins outs) = TFunc (map untag ins) (map untag outs)"
| "untag t = t"

datatype 'a fnres = Ok 'a | Err go_error | Panic string

fun fn_bind :: "'a fnres \<Rightarrow> ('a \<Rightarrow> 'b fnres) \<Rightarrow> 'b fnres" where
  "fn_bind (Ok a) f = f a"
| "fn_bind (Err e) f = Err e"
| "fn_bind (Panic s) f = Panic s"

lemma fn_bind_Ok_iff: "fn_bind x f = Ok b \<longleftrightarrow> (\<exists>a. x = Ok a \<and> f a = Ok b)"
  by (cases x) simp_all

text \<open>
  What the program around the library brings in: its type definitions, which types implement which
  interfaces, the error that a value of an error type is, the bodies of its functions (a panic or
  the results), and the package \<^verbatim>\<open>mapstructure\<close>, whose \<^verbatim>\<open>Decode\<close> fills a new variable of a struct type.
\<close>

record goprog =
  tdef :: tdefs
  impl :: "string \<Rightarrow> gtype \<Rightarrow> bool"
  error_of :: "gval \<Rightarrow> go_error"
  body :: "nat \<Rightarrow> gval list \<Rightarrow> string + gval list"
  ms_Decode :: "gval \<Rightarrow> gtype \<Rightarrow> go_error + gval"

definition Implements :: "goprog \<Rightarrow> gtype \<Rightarrow> string \<Rightarrow> bool" where
  "Implements P t i \<longleftrightarrow> i = [] \<or> t = TIface i \<or> impl P i t"

definition nil_deref :: string where
  "nil_deref = ''runtime error: invalid memory address or nil pointer dereference''"

definition int_data :: "gval \<Rightarrow> int" where
  "int_data v = (case v of VInt _ n \<Rightarrow> n | _ \<Rightarrow> 0)"

definition float_data :: "gval \<Rightarrow> rat" where
  "float_data v = (case v of VFloat _ r \<Rightarrow> r | _ \<Rightarrow> 0)"

definition string_data :: "gval \<Rightarrow> string" where
  "string_data v = (case v of VString _ s \<Rightarrow> s | _ \<Rightarrow> [])"

text \<open>\<^verbatim>\<open>Value.Convert\<close>, in the order in which the package tries its rules.\<close>

definition Convert :: "goprog \<Rightarrow> gval \<Rightarrow> gtype \<Rightarrow> gval fnres" where
  "Convert P v t =
     (if v = VInvalid then Panic nil_deref
      else
        (let D = tdef P; s = type_of v in
         case (Kind D s, Kind D t) of
           (KInteger _, KInteger k) \<Rightarrow> Ok (VInt t (wrap_int k (int_data v)))
         | (KInteger _, KFloat64) \<Rightarrow> Ok (VFloat t (int_to_float (int_data v)))
         | (KInteger _, KString) \<Rightarrow> Ok (VString t (rune_String (int_data v)))
         | (KFloat64, KInteger k) \<Rightarrow> Ok (VInt t (float_to_int k (float_data v)))
         | (KFloat64, KFloat64) \<Rightarrow> Ok (VFloat t (float_data v))
         | _ \<Rightarrow>
             if Kind D s = KString \<and> Kind D t = KSlice \<and> Kind D (Elem D t) = KInteger IUint8 then
               Ok (VSlice t (map (\<lambda>c. VInt (Elem D t) (of_char c)) (string_data v)))
             else if Kind D s = KSlice \<and> Kind D (Elem D s) = KInteger IUint8 \<and> Kind D t = KString then
               Ok (VString t (map (\<lambda>x. char_of (nat (int_data x))) (elems v)))
             else if untag (underlying D s) = untag (underlying D t) then Ok (retype t v)
             else if Kind D t = KInterface
                  \<and> Implements P s (case underlying D t of TIface i \<Rightarrow> i | _ \<Rightarrow> []) then Ok (VIface t (unwrap v))
             else Panic (''reflect.Value.Convert: value of type '' @ type_String s
                          @ '' cannot be converted to type '' @ type_String t)))"

lemma type_of_Convert: "Convert P v t = Ok w \<Longrightarrow> type_of w = t"
  by (auto simp: Convert_def Let_def split: if_splits kind.splits)

section \<open>Calls\<close>

text \<open>\<^verbatim>\<open>Type.AssignableTo\<close>: the same type, an interface that is implemented, or the same underlying type when one side has no name.\<close>

definition is_named :: "gtype \<Rightarrow> bool" where
  "is_named t \<longleftrightarrow> (case t of TNamed _ \<Rightarrow> True | TBool \<Rightarrow> True | TInteger _ \<Rightarrow> True | TFloat64 \<Rightarrow> True | TString \<Rightarrow> True | _ \<Rightarrow> False)"

definition AssignableTo :: "goprog \<Rightarrow> gtype \<Rightarrow> gtype \<Rightarrow> bool" where
  "AssignableTo P s t \<longleftrightarrow>
     s = t
     \<or> (case underlying (tdef P) t of TIface i \<Rightarrow> Implements P s i | _ \<Rightarrow> False)
     \<or> (\<not> (is_named s \<and> is_named t) \<and> underlying (tdef P) s = underlying (tdef P) t)"

definition assign :: "goprog \<Rightarrow> gval \<Rightarrow> gtype \<Rightarrow> gval" where
  "assign P v t = (if type_of v = t then v else if Kind (tdef P) t = KInterface then VIface t (unwrap v) else retype t v)"

fun pass_args :: "goprog \<Rightarrow> gtype list \<Rightarrow> gval list \<Rightarrow> gval list fnres" where
  "pass_args P (t # ts) (v # vs) =
     (if v = VInvalid then Panic ''reflect: Call using zero Value argument''
      else if \<not> AssignableTo P (type_of v) t then
        Panic (''reflect: Call using '' @ type_String (type_of v) @ '' as type '' @ type_String t)
      else fn_bind (pass_args P ts vs) (\<lambda>ws. Ok (assign P v t # ws)))"
| "pass_args P [] [] = Ok []"
| "pass_args P [] _ = Panic ''reflect: Call with too many input arguments''"
| "pass_args P _ [] = Panic ''reflect: Call with too few input arguments''"

text \<open>\<^verbatim>\<open>Value.Call\<close>; the type of a function is never a defined one here unless its definition is a function type.\<close>

definition ins_of :: "tdefs \<Rightarrow> gtype \<Rightarrow> gtype list" where
  "ins_of D t = (case underlying D t of TFunc ins _ \<Rightarrow> ins | _ \<Rightarrow> [])"

definition Value_Call :: "goprog \<Rightarrow> gval \<Rightarrow> gval list \<Rightarrow> gval list fnres" where
  "Value_Call P f args =
     (case f of
        VFunc t k \<Rightarrow>
          fn_bind (pass_args P (ins_of (tdef P) t) args)
            (\<lambda>ps. case body P k ps of Inl p \<Rightarrow> Panic p | Inr rs \<Rightarrow> Ok rs)
      | _ \<Rightarrow> Panic ''reflect.Value.Call: call of nil function'')"

text \<open>\<^verbatim>\<open>Value.IsNil\<close>.\<close>

definition IsNil :: "tdefs \<Rightarrow> gval \<Rightarrow> bool fnres" where
  "IsNil D v =
     (if v = VInvalid then Panic ''reflect: call of reflect.Value.IsNil on zero Value''
      else if Kind D (type_of v) \<in> {KInterface, KSlice, KMap, KPtr, KFunc}
      then Ok (case v of VZero _ \<Rightarrow> True | VIface _ x \<Rightarrow> x = VInvalid | _ \<Rightarrow> False)
      else Panic (''reflect: call of reflect.Value.IsNil on '' @ kind_String (Kind D (type_of v)) @ '' Value''))"

section \<open>Lemmas\<close>

lemma Kind_simps [simp]:
  "Kind D TBool = KBool" "Kind D (TInteger k) = KInteger k" "Kind D TFloat64 = KFloat64" "Kind D TString = KString"
  "Kind D (TIface i) = KInterface" "Kind D (TSlice t) = KSlice" "Kind D (TArray l t) = KArray" "Kind D (TMap a b) = KMap"
  "Kind D (TPtr t) = KPtr" "Kind D (TStruct fs) = KStruct" "Kind D (TFunc is os) = KFunc" "Kind D (TNamed n) = kind_of (D n)"
  by (simp_all add: Kind_def underlying_def)

lemma wrap_int_id:
  assumes "in_range k n"
  shows "wrap_int k n = n"
proof (cases "0 \<le> n")
  case True
  then show ?thesis using assms
    by (cases k) (simp_all add: in_range_def wrap_int_def)
next
  case False
  have "n mod 2 ^ 64 = n + 2 ^ 64" if "- (2 ^ 63) \<le> n"
    using False that by (intro mod_pos_pos_trivial [of "n + 2 ^ 64" "2 ^ 64", simplified mod_add_self2]) auto
  then show ?thesis using assms False by (cases k) (simp_all add: in_range_def wrap_int_def)
qed

lemma wrap_int_range: "in_range k (wrap_int k n)"
proof -
  have "0 \<le> n mod 2 ^ 64 \<and> n mod 2 ^ 64 < 2 ^ 64" "0 \<le> n mod 2 ^ 8 \<and> n mod 2 ^ 8 < 2 ^ 8" for n :: int
    by simp_all
  then show ?thesis by (cases k) (auto simp: in_range_def wrap_int_def Let_def)
qed

lemma truncate_of_int [simp]: "truncate_rat (of_int n) = n"
  by (simp add: truncate_rat_def)

lemma float_int_exact: "in_range k n \<Longrightarrow> float_to_int k (of_int n) = n"
  by (simp add: float_to_int_def)

lemma int_float_exact:
  assumes "\<bar>n\<bar> < 2 ^ 53"
  shows "int_to_float n = of_int n"
proof -
  have "f64_shift (nat \<bar>n\<bar>) = 0" using assms by (subst f64_shift.simps) (simp add: nat_less_iff)
  then show ?thesis by (simp add: int_to_float_def sgn_mult_abs del: of_int_mult flip: of_int_abs of_int_mult)
qed

end
