(* ===== verification/Fn_Call.thy ===== *)
theory Fn_Call
  imports Go_Value Rpc_Call
begin

text \<open>
  Handlers from Go functions and methods (\<^verbatim>\<open>src/fn/call.go\<close>, \<^verbatim>\<open>src/fn/handler.go\<close>). Arguments that a codec has
  decoded into a \<^verbatim>\<open>[]any\<close> are converted to the parameters of a function, the function is called,
  and its results are split into values and an error; every panic on the way becomes an error. The functions
  themselves and the package \<^verbatim>\<open>mapstructure\<close> belong to \<open>goprog\<close>; the stack of a panic, which the
  runtime gives to \<^verbatim>\<open>identifyPanic\<close>, is an argument.

  The lemmas show which types the converted arguments have, so that the call itself cannot fail for
  parameters that are not slices; which decoded arguments are always refused; how results and errors come back to a
  remote caller; and what a struct's methods are registered as.
\<close>

section \<open>Panics as errors\<close>

text \<open>The frames of a stack as \<^verbatim>\<open>runtime.FuncForPC\<close> describes them (name, file, line); \<open>None\<close> where it knows nothing.\<close>

record stack =
  frames :: "(string \<times> string \<times> nat) option list"
  pcs :: string   \<comment> \<open>the program counters as \<open>%x\<close> prints them\<close>

fun scan_frames :: "(string \<times> string \<times> nat) option list \<Rightarrow> string \<times> string \<times> nat \<Rightarrow> string \<times> string \<times> nat" where
  "scan_frames [] cur = cur"
| "scan_frames (None # fs) cur = scan_frames fs cur"
| "scan_frames (Some (name, file, line) # fs) cur =
     (if \<not> prefix ''runtime.'' name then (name, file, line) else scan_frames fs (name, file, line))"

definition identifyPanic :: "stack \<Rightarrow> string" where
  "identifyPanic st =
     (case scan_frames (take 16 (frames st)) ([], [], 0) of (name, file, line) \<Rightarrow>
        if name \<noteq> [] then name @ '':'' @ show_nat line
        else if file \<noteq> [] then file @ '':'' @ show_nat line
        else ''pc:'' @ pcs st)"

definition panic_error :: "stack \<Rightarrow> string \<Rightarrow> go_error" where
  "panic_error st p = ErrorString (''panic: '' @ p @ '' ['' @ identifyPanic st @ '']'')"

section \<open>Arguments\<close>

text \<open>The two loops of \<^verbatim>\<open>ensureType\<close>: storing into an array, and appending to a slice.\<close>

fun set_array :: "goprog \<Rightarrow> gtype \<Rightarrow> gval list \<Rightarrow> nat \<Rightarrow> gval list \<Rightarrow> gval list fnres" where
  "set_array P et arr i [] = Ok arr"
| "set_array P et arr i (x # xs) =
     (if length arr \<le> i then Panic ''reflect: array index out of range''
      else fn_bind (Convert P (unwrap x) et) (\<lambda>y. set_array P et (arr[i := y]) (i + 1) xs))"

fun append_elems :: "goprog \<Rightarrow> gtype \<Rightarrow> gval list \<Rightarrow> gval list \<Rightarrow> gval list fnres" where
  "append_elems P et acc [] = Ok acc"
| "append_elems P et acc (x # xs) = fn_bind (Convert P (unwrap x) et) (\<lambda>y. append_elems P et (acc @ [y]) xs)"

definition array_len :: "tdefs \<Rightarrow> gtype \<Rightarrow> nat" where
  "array_len D t = (case underlying D t of TArray n _ \<Rightarrow> n | _ \<Rightarrow> 0)"

definition ensureType :: "goprog \<Rightarrow> gval \<Rightarrow> gtype \<Rightarrow> gval fnres" where
  "ensureType P v t =
     (if v = VInvalid then Panic ''reflect: call of reflect.Value.Type on zero Value''
      else
        (let D = tdef P; et = Elem D t in
         fn_bind
           (if Kind D (type_of v) = KSlice \<and> Elem D (type_of v) \<noteq> t then
              (case Kind D t of
                 KArray \<Rightarrow>
                   fn_bind (set_array P et (replicate (array_len D t) (VZero et)) 0 (elems v)) (\<lambda>ys. Ok (VArray t ys))
               | KSlice \<Rightarrow> fn_bind (append_elems P et [] (elems v)) (\<lambda>ys. Ok (VSlice t ys))
               | _ \<Rightarrow> Panic ''unable to convert slice to non-array, non-slice type'')
            else Ok v)
           (\<lambda>nv. if type_of v \<noteq> t then Convert P nv t else Ok nv)))"

text \<open>
  \<^verbatim>\<open>rv.Len()\<close> and \<^verbatim>\<open>rv.Index(i)\<close> for all \<open>i\<close>, as the loop over a slice of structs uses them; \<open>msize\<close> gives the number of
  entries of a map, which has a length and no index.
\<close>

definition index_all :: "(nat \<Rightarrow> nat) \<Rightarrow> tdefs \<Rightarrow> gval \<Rightarrow> gval list fnres" where
  "index_all msize D v =
     (if v = VInvalid then Panic ''reflect: call of reflect.Value.Len on zero Value''
      else
        (case Kind D (type_of v) of
           KSlice \<Rightarrow> Ok (elems v)
         | KArray \<Rightarrow> Ok (case v of VArray _ xs \<Rightarrow> xs | _ \<Rightarrow> replicate (array_len D (type_of v)) (VZero (Elem D (type_of v))))
         | KString \<Rightarrow> Ok (map (\<lambda>c. VInt (TInteger IUint8) (of_char c)) (string_data v))
         | KMap \<Rightarrow> (case v of VMap _ a \<Rightarrow> if msize a = 0 then Ok [] else Panic ''reflect: call of reflect.Value.Index on map Value''
                   | _ \<Rightarrow> Ok [])
         | k \<Rightarrow> Panic (''reflect: call of reflect.Value.Len on '' @ kind_String k @ '' Value'')))"

definition ms_error :: "go_error \<Rightarrow> go_error" where
  "ms_error e = ErrorString (''fn: mapstructure: '' @ error_text e)"

fun decode_structs :: "goprog \<Rightarrow> gtype \<Rightarrow> gval list \<Rightarrow> gval list fnres" where
  "decode_structs P et [] = Ok []"
| "decode_structs P et (x # xs) =
     (case ms_Decode P (unwrap x) et of
        Inl e \<Rightarrow> Err (ms_error e)
      | Inr y \<Rightarrow> fn_bind (decode_structs P et xs) (\<lambda>ys. Ok (y # ys)))"

text \<open>One turn of the loop of \<^verbatim>\<open>ArgsTo\<close>, for a parameter of type \<open>t\<close>.\<close>

definition arg_to :: "goprog \<Rightarrow> (nat \<Rightarrow> nat) \<Rightarrow> gtype \<Rightarrow> gval \<Rightarrow> gval fnres" where
  "arg_to P msize t param =
     (let D = tdef P in
      case Kind D t of
        KStruct \<Rightarrow>
          (case ms_Decode P param t of
             Inl e \<Rightarrow> Err (ms_error e)
           | Inr arg \<Rightarrow> ensureType P arg t)
      | KSlice \<Rightarrow>
          if Kind D (Elem D t) = KStruct then
            fn_bind (index_all msize D param)
              (\<lambda>xs. fn_bind (decode_structs P (Elem D t) xs) (\<lambda>ys. Ok (VSlice t ys)))
          else Ok param
      | k \<Rightarrow>
          if k = KInteger IInt \<and> param = VInvalid then Panic nil_deref
          else if k = KInteger IInt \<and> Kind D (type_of param) = KFloat64 then
            (if type_of param \<noteq> TFloat64 then
               Panic (''interface conversion: interface {} is '' @ type_String (type_of param) @ '', not float64'')
             else ensureType P (VInt (TInteger IInt) (float_to_int IInt (float_data param))) t)
          else ensureType P param t)"

fun args_loop :: "goprog \<Rightarrow> (nat \<Rightarrow> nat) \<Rightarrow> gtype list \<Rightarrow> gval list \<Rightarrow> gval list fnres" where
  "args_loop P msize (t # ts) (x # xs) =
     fn_bind (arg_to P msize t x) (\<lambda>y. fn_bind (args_loop P msize ts xs) (\<lambda>ys. Ok (y # ys)))"
| "args_loop P msize _ _ = Ok []"

definition ArgsTo :: "goprog \<Rightarrow> (nat \<Rightarrow> nat) \<Rightarrow> gtype \<Rightarrow> gval list \<Rightarrow> gval list fnres" where
  "ArgsTo P msize fntyp args =
     (if Kind (tdef P) fntyp \<noteq> KFunc then Panic (''reflect: NumIn of non-func type '' @ type_String fntyp)
      else
        (let ins = ins_of (tdef P) fntyp in
         if length args \<noteq> length ins then
           Err (ErrorString (''fn: expected '' @ show_nat (length ins) @ '' params, got '' @ show_nat (length args)))
         else args_loop P msize ins args))"

section \<open>Results\<close>

definition ParseReturn :: "goprog \<Rightarrow> gval list \<Rightarrow> gval list fnres" where
  "ParseReturn P ret =
     (if ret = [] then Ok []
      else if Implements P (type_of (last ret)) ''error'' then
        fn_bind (IsNil (tdef P) (last ret))
          (\<lambda>nil. if \<not> nil then Err (error_of P (unwrap (last ret))) else Ok (map unwrap (butlast ret)))
      else Ok (map unwrap ret))"

definition Call :: "goprog \<Rightarrow> (nat \<Rightarrow> nat) \<Rightarrow> stack \<Rightarrow> gval \<Rightarrow> gval list \<Rightarrow> go_error + gval list" where
  "Call P msize st fnval args =
     (case (if fnval = VInvalid then Panic ''reflect: call of reflect.Value.Type on zero Value''
            else fn_bind (ArgsTo P msize (type_of fnval) args)
                   (\<lambda>fnParams. fn_bind (Value_Call P fnval fnParams) (ParseReturn P))) of
        Ok vs \<Rightarrow> Inr vs
      | Err e \<Rightarrow> Inl e
      | Panic p \<Rightarrow> Inl (panic_error st p))"

section \<open>Handlers\<close>

definition callRef :: gtype where "callRef = TPtr (TNamed ''rpc.Call'')"

definition expectsCallParam :: "tdefs \<Rightarrow> gtype \<Rightarrow> bool" where
  "expectsCallParam D fntyp \<longleftrightarrow> ins_of D fntyp \<noteq> [] \<and> last (ins_of D fntyp) = callRef"

text \<open>The values of \<^verbatim>\<open>src/rpc\<close> that Go values are: what is decoded into \<^verbatim>\<open>params\<close>, and what \<^verbatim>\<open>Return\<close> is given.\<close>

fun params_of :: "gval any \<Rightarrow> gval list" where
  "params_of (AData v) = map unwrap (elems v)"
| "params_of _ = []"

definition any_of :: "goprog \<Rightarrow> gval \<Rightarrow> gval any" where
  "any_of P v = (if v = VInvalid then ANil else if Implements P (type_of v) ''error'' then AError (error_of P v) else AData v)"

text \<open>The handler of \<^verbatim>\<open>fromFunc\<close> for a call whose pointer is \<open>c\<close>.\<close>

definition func_results :: "goprog \<Rightarrow> (nat \<Rightarrow> nat) \<Rightarrow> stack \<Rightarrow> gval \<Rightarrow> gval \<Rightarrow> go_error + gval any \<Rightarrow> gval any list" where
  "func_results P msize st fn c x =
     (case x of
        Inl e \<Rightarrow> [AError (ErrorString (''fn: args: '' @ error_text e))]
      | Inr v \<Rightarrow>
          (let params = (if expectsCallParam (tdef P) (type_of fn) then params_of v @ [c] else params_of v)
           in case Call P msize st fn params of
                Inl e \<Rightarrow> [AError e]
              | Inr ret \<Rightarrow> map (any_of P) ret))"

definition fromFunc :: "goprog \<Rightarrow> (nat \<Rightarrow> nat) \<Rightarrow> stack \<Rightarrow> gval \<Rightarrow> (gval \<Rightarrow> (gval, gtype) prog) fnres" where
  "fromFunc P msize st fn =
     (if Kind (tdef P) (type_of fn) \<noteq> KFunc then Panic (''reflect: NumIn of non-func type '' @ type_String (type_of fn))
      else Ok (\<lambda>c. Receive (Some (TSlice TAny)) (\<lambda>x. Return (func_results P msize st fn c x) (\<lambda>_. End))))"

text \<open>
  \<^verbatim>\<open>fromMethods\<close>: the methods of the receiver by name, in the order of \<^verbatim>\<open>Method(i)\<close>, then the receiver itself for all other selectors when it
  is a handler. Method \<open>i\<close> is the handler \<open>HFunc i\<close>.
\<close>

record rcvr_method =
  mt_name :: string
  mt_func :: gval
  mt_handler :: "(gval \<Rightarrow> (gval, gtype) prog) option"  \<comment> \<open>the method, when it has the signature of HandlerFunc\<close>

fun handle_methods :: "nat \<Rightarrow> rcvr_method list \<Rightarrow> RespondMux \<Rightarrow> handle_error + RespondMux" where
  "handle_methods i [] mx = Inr mx"
| "handle_methods i (mt # mts) mx =
     (case Handle (mt_name mt) (HFunc i) mx of
        Inl e \<Rightarrow> Inl e
      | Inr mx1 \<Rightarrow> handle_methods (i + 1) mts mx1)"

definition fromMethods :: "rcvr_method list \<Rightarrow> Handler option \<Rightarrow> handle_error + RespondMux" where
  "fromMethods mts rcvr =
     (case handle_methods 0 mts NewRespondMux of
        Inl e \<Rightarrow> Inl e
      | Inr mx \<Rightarrow> (case rcvr of None \<Rightarrow> Inr mx | Some hn \<Rightarrow> Handle ''/'' hn mx))"

definition method_handler :: "goprog \<Rightarrow> (nat \<Rightarrow> nat) \<Rightarrow> stack \<Rightarrow> rcvr_method \<Rightarrow> (gval \<Rightarrow> (gval, gtype) prog) fnres" where
  "method_handler P msize st mt =
     (case mt_handler mt of Some hn \<Rightarrow> Ok hn | None \<Rightarrow> fromFunc P msize st (mt_func mt))"

fun handle_error_text :: "handle_error \<Rightarrow> string" where
  "handle_error_text NilHandler = ''rpc: nil handler''"
| "handle_error_text (MultipleRegistrations p) = ''rpc: multiple registrations for '' @ p"

text \<open>\<^verbatim>\<open>HandlerFrom\<close>: a function gives its handler, a struct or a pointer to one the mux of its methods.\<close>

definition HandlerFrom ::
    "goprog \<Rightarrow> (nat \<Rightarrow> nat) \<Rightarrow> stack \<Rightarrow> gval \<Rightarrow> rcvr_method list \<Rightarrow> Handler option \<Rightarrow> ((gval \<Rightarrow> (gval, gtype) prog) + RespondMux) fnres" where
  "HandlerFrom P msize st v mts rcvr =
     (let D = tdef P; ptr = (Kind D (type_of v) = KPtr) in
      if v = VInvalid \<or> (ptr \<and> v = VZero (type_of v)) then Panic ''reflect: call of reflect.Value.Type on zero Value''
      else
        (case Kind D (if ptr then Elem D (type_of v) else type_of v) of
           KFunc \<Rightarrow> fn_bind (fromFunc P msize st v) (\<lambda>hn. Ok (Inl hn))
         | KStruct \<Rightarrow> (case fromMethods mts rcvr of Inl e \<Rightarrow> Panic (handle_error_text e) | Inr mx \<Rightarrow> Ok (Inr mx))
         | _ \<Rightarrow> Panic ''must be func or struct''))"

section \<open>Converted arguments\<close>

lemma Convert_valid [simp]: "Convert P v t \<noteq> Ok VInvalid"
  by (cases v) (auto simp: Convert_def Let_def split: if_splits kind.splits)

lemma ensureType_ok:
  assumes "ensureType P v t = Ok w"
  shows "type_of w = t \<and> w \<noteq> VInvalid"
  using assms type_of_Convert
  by (auto simp: ensureType_def Let_def fn_bind_Ok_iff split: if_splits kind.splits)

lemma arg_to_ok:
  assumes "arg_to P msize t x = Ok y" and "Kind (tdef P) t \<noteq> KSlice"
  shows "type_of y = t \<and> y \<noteq> VInvalid"
  using assms ensureType_ok by (auto simp: arg_to_def Let_def split: if_splits kind.splits sum.splits)

lemma args_loop_ok:
  assumes "args_loop P msize ts xs = Ok ys" and "length xs = length ts" and "\<forall>t \<in> set ts. Kind (tdef P) t \<noteq> KSlice"
  shows "list_all2 (\<lambda>t y. type_of y = t \<and> y \<noteq> VInvalid) ts ys"
  using assms(2,1,3)
  by (induction xs ts arbitrary: ys rule: list_induct2) (auto simp: fn_bind_Ok_iff dest: arg_to_ok)

lemma pass_args_exact:
  assumes "list_all2 (\<lambda>t v. type_of v = t \<and> v \<noteq> VInvalid) ts vs"
  shows "pass_args P ts vs = Ok vs"
  using assms by (induction rule: list_all2_induct) (simp_all add: AssignableTo_def assign_def)

text \<open>Converting arguments does not look at the bodies of functions.\<close>

lemma goprog_body: "tdef (P\<lparr>body := b\<rparr>) = tdef P" "impl (P\<lparr>body := b\<rparr>) = impl P"
  "ms_Decode (P\<lparr>body := b\<rparr>) = ms_Decode P"
  by simp_all

lemma Convert_body [simp]: "Convert (P\<lparr>body := b\<rparr>) v t = Convert P v t"
  unfolding Convert_def Implements_def goprog_body ..

lemma set_array_body [simp]: "set_array (P\<lparr>body := b\<rparr>) et arr i xs = set_array P et arr i xs"
  by (induction P et arr i xs rule: set_array.induct) (auto intro: arg_cong [of _ _ "fn_bind _"])

lemma append_elems_body [simp]: "append_elems (P\<lparr>body := b\<rparr>) et acc xs = append_elems P et acc xs"
  by (induction P et acc xs rule: append_elems.induct) (auto intro: arg_cong [of _ _ "fn_bind _"])

lemma decode_structs_body [simp]: "decode_structs (P\<lparr>body := b\<rparr>) et xs = decode_structs P et xs"
  by (induction P et xs rule: decode_structs.induct) (auto split: sum.splits)

lemma arg_to_body [simp]: "arg_to (P\<lparr>body := b\<rparr>) msize t x = arg_to P msize t x"
  unfolding arg_to_def ensureType_def set_array_body append_elems_body decode_structs_body Convert_body goprog_body ..

lemma args_loop_body [simp]: "args_loop (P\<lparr>body := b\<rparr>) msize ts xs = args_loop P msize ts xs"
  by (induction P msize ts xs rule: args_loop.induct) simp_all

lemma AssignableTo_body [simp]: "AssignableTo (P\<lparr>body := b\<rparr>) s t = AssignableTo P s t"
  unfolding AssignableTo_def Implements_def goprog_body ..

lemma pass_args_body [simp]: "pass_args (P\<lparr>body := b\<rparr>) ts xs = pass_args P ts xs"
  by (induction P ts xs rule: pass_args.induct) (simp_all add: assign_def)

lemma ArgsTo_body [simp]: "ArgsTo (P\<lparr>body := b\<rparr>) msize ft args = ArgsTo P msize ft args"
  by (simp add: ArgsTo_def Let_def)

text \<open>An argument that cannot be converted or passed stops the call.\<close>

lemma args_loop_nth:
  assumes "args_loop P msize ts xs = Ok ys" and "length xs = length ts" and "i < length ts"
  shows "arg_to P msize (ts ! i) (xs ! i) = Ok (ys ! i) \<and> length ys = length ts"
  using assms(2,1,3)
proof (induction xs ts arbitrary: ys i rule: list_induct2)
  case (Cons x xs t ts)
  then show ?case by (cases i) (auto simp: fn_bind_Ok_iff, metis length_greater_0_conv list.size(3) args_loop.simps(3) fnres.inject(1) Nil_is_append_conv gr0I)
qed simp

lemma pass_args_nth:
  assumes "pass_args P ts vs = Ok ws" and "i < length ts"
  shows "vs ! i \<noteq> VInvalid \<and> AssignableTo P (type_of (vs ! i)) (ts ! i)"
  using assms
proof (induction P ts vs arbitrary: ws i rule: pass_args.induct)
  case (1 P t ts v vs)
  then show ?case by (cases i) (auto simp: fn_bind_Ok_iff split: if_splits)
qed auto

lemma Call_refused:
  assumes "Kind (tdef P) ft = KFunc" and "length args = length (ins_of (tdef P) ft)" and "i < length args"
    and "\<And>y. arg_to P msize (ins_of (tdef P) ft ! i) (args ! i) = Ok y \<Longrightarrow>
           y = VInvalid \<or> \<not> AssignableTo P (type_of y) (ins_of (tdef P) ft ! i)"
  shows "\<exists>e. \<forall>b. Call (P\<lparr>body := b\<rparr>) msize st (VFunc ft k) args = Inl e"
proof (cases "ArgsTo P msize ft args")
  case (Ok ps)
  then have "args_loop P msize (ins_of (tdef P) ft) args = Ok ps" using assms(1,2) by (simp add: ArgsTo_def)
  from args_loop_nth [OF this assms(2)] assms(2,3)
  have "arg_to P msize (ins_of (tdef P) ft ! i) (args ! i) = Ok (ps ! i)" by simp
  from assms(4) [OF this] have "pass_args P (ins_of (tdef P) ft) ps \<noteq> Ok ws" for ws
    using pass_args_nth [of P "ins_of (tdef P) ft" ps ws i] assms(2,3) by auto
  then show ?thesis using Ok
    by (cases "pass_args P (ins_of (tdef P) ft) ps") (auto simp: Call_def Value_Call_def)
qed (auto simp: Call_def)

text \<open>What a server with a function's handler sends back.\<close>

lemma function_server:
  assumes "fromFunc P msize st fn = Ok mk" and "hn (cleanSelector sel) = mk c"
    and "carries C TCall (ACallHeader sel)" and "carries C (TVar (TSlice TAny)) (AData (VSlice (TSlice TAny) args))"
    and "params = map unwrap args @ (if expectsCallParam (tdef P) (type_of fn) then [c] else [])"
    and "wr_fail (c_out sv) = None"
    and "c_in sv = \<lparr>rd_buf = concat (map (frame_bytes C) [ACallHeader sel, AData (VSlice (TSlice TAny) args)]), rd_end = None\<rparr>"
    and "vs = (case Call P msize st fn params of Inl e \<Rightarrow> [AError e] | Inr ret \<Rightarrow> map (any_of P) ret)"
    and "encodes C (AResponseHeader (response_error vs None) False)" and "list_all (encodes C) (response_values vs)"
  shows "\<exists>sv1. Server_respond C hn sv = Some sv1 \<and> c_closed sv1
    \<and> wr_buf (c_out sv1) = wr_buf (c_out sv)
        @ concat (map (frame_bytes C) (AResponseHeader (response_error vs None) False # response_values vs))"
proof -
  have hn: "hn (cleanSelector sel) = unary (TSlice TAny) (func_results P msize st fn c)"
    using assms(1,2) by (auto simp: fromFunc_def unary_def split: if_splits)
  have "vs = func_results P msize st fn c (Inr (AData (VSlice (TSlice TAny) args)))"
    using assms(5,8) by (simp add: func_results_def Let_def)
  from server_unary [where hn = hn and f = "func_results P msize st fn c", OF assms(3,4) hn this assms(9,10,6,7)] show ?thesis .
qed

section \<open>Method names\<close>

text \<open>Identifiers have neither slashes nor dots.\<close>

definition ident :: "string \<Rightarrow> bool" where
  "ident s \<longleftrightarrow> s \<noteq> [] \<and> CHR ''/'' \<notin> set s \<and> CHR ''.'' \<notin> set s"

lemma ident_registered:
  assumes "ident s"
  shows "registered s (HFunc i) = CHR ''/'' # s" and "last (CHR ''/'' # s) \<noteq> CHR ''/''" and "CHR ''/'' # s \<noteq> ''/''"
proof -
  have "hd s \<noteq> CHR ''/''" using assms by (cases s) (auto simp: ident_def)
  then show "registered s (HFunc i) = CHR ''/'' # s" using assms by (simp add: registered_def cleanSelector_relative ident_def)
  have "last s \<in> set s" using assms by (simp add: ident_def)
  then have "last s \<noteq> CHR ''/''" using assms by (metis ident_def)
  then show "last (CHR ''/'' # s) \<noteq> CHR ''/''" using assms by (simp add: ident_def)
  show "CHR ''/'' # s \<noteq> ''/''" using assms by (simp add: ident_def)
qed

text \<open>The index of the method that is registered under a pattern.\<close>

fun method_index :: "rcvr_method list \<Rightarrow> nat \<Rightarrow> string \<Rightarrow> nat option" where
  "method_index [] i p = None"
| "method_index (mt # mts) i p = (if p = CHR ''/'' # mt_name mt then Some i else method_index mts (Suc i) p)"

lemma method_index_domain: "method_index mts i p = Some j \<Longrightarrow> \<exists>mt \<in> set mts. p = CHR ''/'' # mt_name mt"
  by (induction mts i p rule: method_index.induct) (auto split: if_splits)

lemma handle_methods_ok:
  assumes "distinct (map mt_name mts)" and "\<forall>mt \<in> set mts. ident (mt_name mt) \<and> m mx (CHR ''/'' # mt_name mt) = None"
  shows "\<exists>mx'. handle_methods i mts mx = Inr mx' \<and> es mx' = es mx
    \<and> (\<forall>p. m mx' p = (case method_index mts i p of Some j \<Rightarrow> Some \<lparr>h = HFunc j, pattern = p\<rparr> | None \<Rightarrow> m mx p))"
  using assms
proof (induction mts arbitrary: i mx)
  case (Cons mt mts)
  let ?p = "CHR ''/'' # mt_name mt"
  let ?mx1 = "mx\<lparr>m := (m mx)(?p \<mapsto> \<lparr>h = HFunc i, pattern = ?p\<rparr>)\<rparr>"
  have 1: "Handle (mt_name mt) (HFunc i) mx = Inr ?mx1"
    using Cons.prems(2) ident_registered(1) [of "mt_name mt" i] ident_registered(2) [of "mt_name mt"] by (simp add: Handle_cases)
  have fresh: "\<forall>mt' \<in> set mts. ident (mt_name mt') \<and> m ?mx1 (CHR ''/'' # mt_name mt') = None"
    using Cons.prems by (auto simp: image_iff)
  have "method_index mts (Suc i) ?p = None"
    using Cons.prems(1) method_index_domain [of mts "Suc i" ?p] by (cases "method_index mts (Suc i) ?p") auto
  moreover obtain mx' where "handle_methods (Suc i) mts ?mx1 = Inr mx'" "es mx' = es mx"
    "\<And>p. m mx' p = (case method_index mts (Suc i) p of Some j \<Rightarrow> Some \<lparr>h = HFunc j, pattern = p\<rparr> | None \<Rightarrow> m ?mx1 p)"
    using Cons.IH [OF _ fresh, of "Suc i"] Cons.prems(1) by auto
  ultimately show ?case using 1 by (simp split: option.split)
qed simp

section \<open>A codec for the witnesses\<close>

text \<open>It carries the values of a list by their position.\<close>

definition table_codec :: "gval list \<Rightarrow> (gval, gtype) codec" where
  "table_codec vs = \<lparr>
     c_enc = (\<lambda>v. case v of
         AData d \<Rightarrow> if d \<in> set vs then Inr [4, of_nat (length (takeWhile (\<lambda>x. x \<noteq> d) vs))] else Inl (ErrorString ''unsupported value'')
       | _ \<Rightarrow> byte_enc (map_any (\<lambda>_. []) v)),
     c_dec = (\<lambda>t b. map_sum id (map_any (\<lambda>d. vs ! unat (hd d))) (byte_dec TDiscard b))\<rparr>"

lemma nth_takeWhile_neq: "d \<in> set vs \<Longrightarrow> vs ! length (takeWhile (\<lambda>x. x \<noteq> d) vs) = d"
  by (induction vs) auto

lemma table_codec_carries:
  "carries (table_codec vs) t ANil"
  "length s < 1000 \<Longrightarrow> carries (table_codec vs) t (ACallHeader s)"
  "carries (table_codec vs) t (AResponseHeader None c)"
  "d \<in> set vs \<Longrightarrow> length vs < 256 \<Longrightarrow> carries (table_codec vs) t (AData d)"
proof -
  show "carries (table_codec vs) t ANil" "length s < 1000 \<Longrightarrow> carries (table_codec vs) t (ACallHeader s)"
    "carries (table_codec vs) t (AResponseHeader None c)"
    by (simp_all add: carries_def table_codec_def byte_dec_def)
  assume d: "d \<in> set vs" "length vs < 256"
  let ?i = "length (takeWhile (\<lambda>x. x \<noteq> d) vs)"
  have "?i < 256" using d(2) length_takeWhile_le [of "\<lambda>x. x \<noteq> d" vs] by linarith
  then have "unat (of_nat ?i :: u8) = ?i" by (simp add: unat_of_nat take_bit_nat_eq_self)
  with d show "carries (table_codec vs) t (AData d)"
    by (simp add: carries_def table_codec_def byte_dec_def nth_takeWhile_neq)
qed

section \<open>Properties\<close>


text \<open>A program with a defined integer type and one function, for the witnesses.\<close>

definition sample_prog :: goprog where
  "sample_prog = \<lparr>tdef = (\<lambda>n. if n = ''main.id'' then TInteger IInt else TStruct []), impl = (\<lambda>_ _. False),
     error_of = (\<lambda>_. EOF),
     body = (\<lambda>k ps. case ps of [VInt _ a, VInt _ b] \<Rightarrow> Inr [VInt (TInteger IInt) (a + b)] | _ \<Rightarrow> Inl ''bad''),
     ms_Decode = (\<lambda>v t. Inr (retype t v))\<rparr>"

definition sum_type :: gtype where
  "sum_type = TFunc [TInteger IInt, TNamed ''main.id''] [TInteger IInt]"

definition no_stack :: stack where
  "no_stack = \<lparr>frames = [], pcs = []\<rparr>"

lemma sample_defs:
  "Kind (tdef sample_prog) sum_type = KFunc" "ins_of (tdef sample_prog) sum_type = [TInteger IInt, TNamed ''main.id'']"
  "\<forall>t \<in> set (ins_of (tdef sample_prog) sum_type). Kind (tdef sample_prog) t \<noteq> KSlice"
  "\<forall>t \<in> set (ins_of (tdef sample_prog) sum_type). Kind (tdef sample_prog) t = KInteger IInt"
  by (simp_all add: sample_prog_def sum_type_def ins_of_def underlying_def)


text \<open>
  C35: numbers that a JSON codec has decoded, all of them \<^verbatim>\<open>float64\<close>, reach parameters whose kind is \<^verbatim>\<open>int\<close> (of type \<^verbatim>\<open>int\<close> or a type defined
  from it) as integers within the 64-bit range, truncated towards zero; a whole number in range arrives unchanged.
\<close>

theorem ArgsTo_json_numbers:
  assumes "Kind (tdef P) ft = KFunc" and "\<forall>t \<in> set (ins_of (tdef P) ft). Kind (tdef P) t = KInteger IInt"
    and "length rs = length (ins_of (tdef P) ft)"
  shows "\<exists>ns. ArgsTo P msize ft (map (VFloat TFloat64) rs) = Ok (map2 VInt (ins_of (tdef P) ft) ns)
    \<and> list_all2 (\<lambda>r n. in_range IInt n \<and> (in_range IInt \<lfloor>r\<rfloor> \<and> r = of_int \<lfloor>r\<rfloor> \<longrightarrow> n = \<lfloor>r\<rfloor>)
         \<and> (in_range IInt (truncate_rat r) \<longrightarrow> n = truncate_rat r)) rs ns"
proof -
  let ?n = "\<lambda>r. float_to_int IInt r"
  have n: "in_range IInt (?n r)" for r by (simp add: float_to_int_def Let_def wrap_int_range)
  have arg: "arg_to P msize t (VFloat TFloat64 r) = Ok (VInt t (?n r))" if "Kind (tdef P) t = KInteger IInt" for t r
    using that wrap_int_id [OF n, of r]
    by (auto simp: arg_to_def ensureType_def Convert_def float_data_def int_data_def Let_def)
  have "args_loop P msize ts (map (VFloat TFloat64) rs) = Ok (map2 VInt ts (map ?n rs))"
    if "length rs = length ts" "\<forall>t \<in> set ts. Kind (tdef P) t = KInteger IInt" for ts rs
    using that by (induction rs ts rule: list_induct2) (simp_all add: arg)
  with assms have "ArgsTo P msize ft (map (VFloat TFloat64) rs) = Ok (map2 VInt (ins_of (tdef P) ft) (map ?n rs))"
    by (simp add: ArgsTo_def)
  moreover have "in_range IInt (?n r) \<and> (in_range IInt \<lfloor>r\<rfloor> \<and> r = of_int \<lfloor>r\<rfloor> \<longrightarrow> ?n r = \<lfloor>r\<rfloor>)
      \<and> (in_range IInt (truncate_rat r) \<longrightarrow> ?n r = truncate_rat r)" for r
  proof -
    have "truncate_rat r = \<lfloor>r\<rfloor>" if "r = of_int \<lfloor>r\<rfloor>" using that truncate_of_int by metis
    with n [of r] show ?thesis by (auto simp: float_to_int_def Let_def split: if_splits)
  qed
  then have "list_all2 (\<lambda>r n. in_range IInt n \<and> (in_range IInt \<lfloor>r\<rfloor> \<and> r = of_int \<lfloor>r\<rfloor> \<longrightarrow> n = \<lfloor>r\<rfloor>)
      \<and> (in_range IInt (truncate_rat r) \<longrightarrow> n = truncate_rat r)) rs (map ?n rs)"
    by (simp add: list_all2_map2 list_all2_same)
  ultimately show ?thesis by blast
qed

theorem ArgsTo_json_numbers_witness:
  "\<exists>a b. ArgsTo sample_prog (\<lambda>_. 0) sum_type [VFloat TFloat64 7, VFloat TFloat64 (- 5 / 2)]
     = Ok [VInt (TInteger IInt) a, VInt (TNamed ''main.id'') b] \<and> a = 7 \<and> b = - 2"
proof -
  have "truncate_rat (- 5 / 2) = - 2" "truncate_rat 7 = 7" by code_simp+
  with ArgsTo_json_numbers [OF sample_defs(1,4), of "[7, - 5 / 2]"] show ?thesis
    by (auto simp: sample_defs(2) in_range_def list_all2_Cons1)
qed

text \<open>
  Arguments that no function can be given. A nil argument for a parameter that is not a struct, and an
  array decoded into a \<^verbatim>\<open>[]any\<close> for a parameter of another slice type whose elements are not structs, make \<^verbatim>\<open>Call\<close> return an error; the function
  is not run, whatever its body is.
\<close>

theorem Call_refuses_nil_and_slices:
  assumes "Kind (tdef P) ft = KFunc" and "length args = length (ins_of (tdef P) ft)" and "i < length args"
    and "t = ins_of (tdef P) ft ! i"
    and "args ! i = VInvalid \<and> Kind (tdef P) t \<noteq> KStruct
      \<or> args ! i = VSlice (TSlice TAny) xs \<and> t = TSlice u \<and> u \<noteq> TAny \<and> Kind (tdef P) u \<noteq> KStruct"
  shows "\<exists>e. \<forall>b. Call (P\<lparr>body := b\<rparr>) msize st (VFunc ft k) args = Inl e"
proof (rule Call_refused [OF assms(1-3)])
  fix y assume y: "arg_to P msize (ins_of (tdef P) ft ! i) (args ! i) = Ok y"
  consider "args ! i = VInvalid" "Kind (tdef P) t \<noteq> KStruct"
    | "args ! i = VSlice (TSlice TAny) xs" "t = TSlice u" "u \<noteq> TAny" "Kind (tdef P) u \<noteq> KStruct" using assms(5) by blast
  then show "y = VInvalid \<or> \<not> AssignableTo P (type_of y) (ins_of (tdef P) ft ! i)"
  proof cases
    case 1
    with y assms(4) have "y = VInvalid"
      by (auto simp: arg_to_def ensureType_def index_all_def Let_def split: kind.splits if_splits)
    then show ?thesis ..
  next
    case 2
    then have "y = VSlice (TSlice TAny) xs" using y assms(4) by (simp add: arg_to_def Elem_def underlying_def)
    then show ?thesis using 2 assms(4) by (simp add: AssignableTo_def underlying_def)
  qed
qed

theorem Call_refuses_nil_and_slices_witness:
  "\<exists>e. Call sample_prog (\<lambda>_. 0) no_stack (VFunc sum_type 0) [VInt (TInteger IInt) 1, VInvalid] = Inl e"
proof -
  have "Kind (tdef sample_prog) (TNamed ''main.id'') \<noteq> KStruct" by (simp add: sample_prog_def)
  then have "[VInt (TInteger IInt) 1, VInvalid] ! 1 = VInvalid \<and> Kind (tdef sample_prog) (TNamed ''main.id'') \<noteq> KStruct
      \<or> [VInt (TInteger IInt) 1, VInvalid] ! 1 = VSlice (TSlice TAny) [] \<and> TNamed ''main.id'' = TSlice TBool
        \<and> TBool \<noteq> TAny \<and> Kind (tdef sample_prog) TBool \<noteq> KStruct" by simp
  from Call_refuses_nil_and_slices [OF sample_defs(1) _ _ _ this, of "\<lambda>_. 0" no_stack 0, unfolded sample_defs(2)]
  have "\<exists>e. \<forall>b. Call (sample_prog\<lparr>body := b\<rparr>) (\<lambda>_. 0) no_stack (VFunc sum_type 0) [VInt (TInteger IInt) 1, VInvalid] = Inl e"
    by fastforce
  then obtain e where "Call (sample_prog\<lparr>body := body sample_prog\<rparr>) (\<lambda>_. 0) no_stack (VFunc sum_type 0) [VInt (TInteger IInt) 1, VInvalid] = Inl e"
    by blast
  then show ?thesis by simp
qed

text \<open>
  C29: a Go function called from the other side of a channel. The client sends the arguments as one list, the server's handler comes from
  \<^verbatim>\<open>fromFunc\<close>, and the function (with the call appended when its last parameter asks for it) returns
  values: the client's reply variables get exactly those values. When the function, or the conversion of its
  arguments, ends in an error or a panic, the client gets the text as a remote error.
\<close>

theorem rpc_call_runs_function:
  assumes "fromFunc P msize st fn = Ok mk" and "hn (cleanSelector sel) = mk c"
    and "carries C TCall (ACallHeader sel)" and "carries C (TVar (TSlice TAny)) (AData (VSlice (TSlice TAny) args))"
    and "params = map unwrap args @ (if expectsCallParam (tdef P) (type_of fn) then [c] else [])"
    and "wr_fail (c_out sv) = None"
    and "c_in sv = \<lparr>rd_buf = concat (map (frame_bytes C) [ACallHeader sel, AData (VSlice (TSlice TAny) args)]), rd_end = None\<rparr>"
  shows "(\<forall>rs. Call P msize st fn params = Inr rs \<and> single_error (map (any_of P) rs) = None
      \<and> carries C TResponse (AResponseHeader None False)
      \<and> list_all2 (\<lambda>t v. carries C (TVar t) v) ts (map (any_of P) rs) \<and> ts \<noteq> [] \<longrightarrow>
      (\<exists>sv1 response cl2. Server_respond C hn sv = Some sv1 \<and> c_closed sv1 \<and> wr_buf (c_out sv1) = wr_buf (c_out sv) @ response
        \<and> call_recv C ts (cl\<lparr>c_in := \<lparr>rd_buf = response, rd_end = e\<rparr>\<rparr>)
          = Some (Some \<lparr>resp_error = None, resp_continue = False, resp_values = map (any_of P) rs\<rparr>, None, cl2)))
    \<and> (\<forall>x. Call P msize st fn params = Inl x \<and> carries C TResponse (AResponseHeader (Some (error_text x)) False) \<and> encodes C ANil \<longrightarrow>
      (\<exists>sv1 response cl2. Server_respond C hn sv = Some sv1 \<and> c_closed sv1 \<and> wr_buf (c_out sv1) = wr_buf (c_out sv) @ response
        \<and> call_recv C ts (cl\<lparr>c_in := \<lparr>rd_buf = response, rd_end = e\<rparr>\<rparr>)
          = Some (Some \<lparr>resp_error = Some (error_text x), resp_continue = False, resp_values = []\<rparr>,
              Some (RemoteError (error_text x)), cl2)))"
proof (intro conjI allI impI)
  fix rs
  let ?vs = "map (any_of P) rs"
  assume r: "Call P msize st fn params = Inr rs \<and> single_error ?vs = None \<and> carries C TResponse (AResponseHeader None False)
      \<and> list_all2 (\<lambda>t v. carries C (TVar t) v) ts ?vs \<and> ts \<noteq> []"
  then have vs: "list_all (encodes C) ?vs" "?vs \<noteq> []" using all_encode by auto
  with r have v: "response_values ?vs = ?vs" "response_error ?vs None = None"
    by (auto simp: response_values_def response_error_def)
  from function_server [where hn = hn and mk = mk and c = c, OF assms, of ?vs] r v vs carries_encodes obtain sv1 where sv1:
    "Server_respond C hn sv = Some sv1" "c_closed sv1"
    "wr_buf (c_out sv1) = wr_buf (c_out sv) @ concat (map (frame_bytes C) (AResponseHeader None False # ?vs))"
    by auto
  then show "\<exists>sv1 response cl2. Server_respond C hn sv = Some sv1 \<and> c_closed sv1 \<and> wr_buf (c_out sv1) = wr_buf (c_out sv) @ response
        \<and> call_recv C ts (cl\<lparr>c_in := \<lparr>rd_buf = response, rd_end = e\<rparr>\<rparr>)
          = Some (Some \<lparr>resp_error = None, resp_continue = False, resp_values = ?vs\<rparr>, None, cl2)"
    using call_recv_values [of C False ts ?vs "cl\<lparr>c_in := \<lparr>rd_buf = concat (map (frame_bytes C) (AResponseHeader None False # ?vs)), rd_end = e\<rparr>\<rparr>" "[]" e] r
    by fastforce
next
  fix x
  assume x: "Call P msize st fn params = Inl x \<and> carries C TResponse (AResponseHeader (Some (error_text x)) False) \<and> encodes C ANil"
  have v: "response_values [AError x] = [ANil]" "response_error [AError x] None = Some (error_text x)"
    by (simp_all add: response_values_def response_error_def)
  let ?r = "frame_bytes C (AResponseHeader (Some (error_text x)) False) @ frame_bytes C ANil"
  have "encodes C (AResponseHeader (Some (error_text x)) False)" using x carries_encodes by blast
  with function_server [where hn = hn and mk = mk and c = c, OF assms, of "[AError x]", unfolded v] x obtain sv1 where
    "Server_respond C hn sv = Some sv1" "c_closed sv1" "wr_buf (c_out sv1) = wr_buf (c_out sv) @ ?r"
    by auto
  with call_recv_error [of C "error_text x" "cl\<lparr>c_in := \<lparr>rd_buf = ?r, rd_end = e\<rparr>\<rparr>" "frame_bytes C ANil" e ts] x
  show "\<exists>sv1 response cl2. Server_respond C hn sv = Some sv1 \<and> c_closed sv1 \<and> wr_buf (c_out sv1) = wr_buf (c_out sv) @ response
        \<and> call_recv C ts (cl\<lparr>c_in := \<lparr>rd_buf = response, rd_end = e\<rparr>\<rparr>)
          = Some (Some \<lparr>resp_error = Some (error_text x), resp_continue = False, resp_values = []\<rparr>,
              Some (RemoteError (error_text x)), cl2)"
    by fastforce
qed

theorem rpc_call_runs_function_witness:
  "\<exists>sv1 response cl2.
     Server_respond (table_codec [VSlice (TSlice TAny) [VIface TAny (VFloat TFloat64 2), VIface TAny (VFloat TFloat64 3)], VInt (TInteger IInt) 5])
       (\<lambda>_. Receive (Some (TSlice TAny)) (\<lambda>x. Return (func_results sample_prog (\<lambda>_. 0) no_stack (VFunc sum_type 0) VInvalid x) (\<lambda>_. End)))
       (idle_io\<lparr>c_in := \<lparr>rd_buf = concat (map (frame_bytes (table_codec [VSlice (TSlice TAny) [VIface TAny (VFloat TFloat64 2), VIface TAny (VFloat TFloat64 3)], VInt (TInteger IInt) 5]))
          [ACallHeader ''sum'', AData (VSlice (TSlice TAny) [VIface TAny (VFloat TFloat64 2), VIface TAny (VFloat TFloat64 3)])]), rd_end = None\<rparr>\<rparr>) = Some sv1
     \<and> wr_buf (c_out sv1) = response
     \<and> call_recv (table_codec [VSlice (TSlice TAny) [VIface TAny (VFloat TFloat64 2), VIface TAny (VFloat TFloat64 3)], VInt (TInteger IInt) 5]) [TInteger IInt]
         (idle_io\<lparr>c_in := \<lparr>rd_buf = response, rd_end = None\<rparr>\<rparr>)
       = Some (Some \<lparr>resp_error = None, resp_continue = False, resp_values = [AData (VInt (TInteger IInt) 5)]\<rparr>, None, cl2)"
proof -
  let ?args = "[VIface TAny (VFloat TFloat64 2), VIface TAny (VFloat TFloat64 3)]"
  let ?C = "table_codec [VSlice (TSlice TAny) ?args, VInt (TInteger IInt) 5]"
  let ?mk = "\<lambda>c. Receive (Some (TSlice TAny)) (\<lambda>x. Return (func_results sample_prog (\<lambda>_. 0) no_stack (VFunc sum_type 0) c x) (\<lambda>_. End))"
  let ?sv = "idle_io\<lparr>c_in := \<lparr>rd_buf = concat (map (frame_bytes ?C) [ACallHeader ''sum'', AData (VSlice (TSlice TAny) ?args)]), rd_end = None\<rparr>\<rparr>"
  have 1: "fromFunc sample_prog (\<lambda>_. 0) no_stack (VFunc sum_type 0) = Ok ?mk" by (simp add: fromFunc_def sample_defs)
  have 2: "carries ?C TCall (ACallHeader ''sum'')" "carries ?C (TVar (TSlice TAny)) (AData (VSlice (TSlice TAny) ?args))"
    "carries ?C TResponse (AResponseHeader None False)" "carries ?C (TVar (TInteger IInt)) (AData (VInt (TInteger IInt) 5))"
    by (simp_all add: table_codec_carries)
  have 3: "Call sample_prog (\<lambda>_. 0) no_stack (VFunc sum_type 0) [VFloat TFloat64 2, VFloat TFloat64 3] = Inr [VInt (TInteger IInt) 5]"
    by code_simp
  have 4: "map (any_of sample_prog) [VInt (TInteger IInt) 5] = [AData (VInt (TInteger IInt) 5)]"
    by (simp add: any_of_def Implements_def sample_prog_def)
  have 5: "[VFloat TFloat64 2, VFloat TFloat64 3] = map unwrap ?args @ (if expectsCallParam (tdef sample_prog) (type_of (VFunc sum_type 0)) then [VInvalid] else [])"
    by (simp add: expectsCallParam_def sample_defs callRef_def)
  have 6: "wr_fail (c_out ?sv) = None" by (simp add: idle_io_def)
  from rpc_call_runs_function [where hn = "\<lambda>_. ?mk VInvalid" and mk = ?mk and c = VInvalid and sv = ?sv and ts = "[TInteger IInt]" and cl = idle_io and e = None, OF 1 _ 2(1,2) 5 6] 2(3,4) 3 4
  show ?thesis by (auto simp: idle_io_def)
qed

text \<open>
  The mux of a struct's methods. With distinct method names, \<^verbatim>\<open>fromMethods\<close> does not panic, and a selector finds the method whose name it is, in dotted or path form;
  any other selector finds the receiver when that is a handler, and nothing otherwise.
\<close>

theorem fromMethods_matches:
  assumes "distinct (map mt_name mts)" and "\<forall>mt \<in> set mts. ident (mt_name mt)"
  shows "\<exists>mx. fromMethods mts (map_option HFunc self) = Inr mx \<and> mux_inv mx
    \<and> (\<forall>st r sel. st r = mx \<longrightarrow> Match st r sel =
        (case method_index mts 0 (cleanSelector sel) of
           Some i \<Rightarrow> Some (HFunc i, cleanSelector sel)
         | None \<Rightarrow> (case self of None \<Rightarrow> Some (HNil, []) | Some f \<Rightarrow> Some (HFunc f, ''/''))))"
proof -
  have "\<forall>mt \<in> set mts. ident (mt_name mt) \<and> m NewRespondMux (CHR ''/'' # mt_name mt) = None"
    using assms(2) by (simp add: NewRespondMux_def)
  from handle_methods_ok [OF assms(1) this, of 0] obtain mx where mx: "handle_methods 0 mts NewRespondMux = Inr mx" "es mx = es NewRespondMux"
    "\<And>p. m mx p = (case method_index mts 0 p of Some j \<Rightarrow> Some \<lparr>h = HFunc j, pattern = p\<rparr> | None \<Rightarrow> m NewRespondMux p)"
    by blast
  note mx = mx(1) mx(2,3) [unfolded NewRespondMux_def RespondMux.select_convs]
  have dom: "\<exists>n. ident n \<and> p = CHR ''/'' # n" if "method_index mts 0 p = Some j" for p j
    using method_index_domain [OF that] assms(2) by blast
  have "pattern_ok p \<and> last p \<noteq> CHR ''/''" if "method_index mts 0 p = Some j" for p j
    using dom [OF that] ident_registered(2) by (auto simp: pattern_ok_def ident_def)
  then have inv: "mux_inv mx" by (auto simp: mux_inv_def mx(2,3) entry_ok_def split: option.splits)
  show ?thesis
  proof (cases self)
    case None
    with mx inv show ?thesis by (auto simp: fromMethods_def Match_step [OF refl] split: option.splits)
  next
    case (Some f)
    let ?e = "\<lparr>h = HFunc f, pattern = ''/''\<rparr>"
    have root: "method_index mts 0 ''/'' = None" using dom ident_registered(3) by (metis not_None_eq)
    have "registered ''/'' (HFunc f) = ''/''" by (simp add: registered_def cleanSelector_def dots_to_slashes_def)
    then have H: "Handle ''/'' (HFunc f) mx = Inr (mx\<lparr>m := (m mx)(''/'' \<mapsto> ?e), es := appendSorted (es mx) ?e\<rparr>)"
      using root by (simp add: Handle_cases mx(3) Let_def)
    have es: "appendSorted [] ?e = [?e]" by (simp add: appendSorted_def sort_Search_def sort_search_loop.simps)
    have "prefix ''/'' (cleanSelector sel)" for sel
      using cleanSelector_hd [of sel] cleanSelector_not_Nil [of sel] by (cases "cleanSelector sel") auto
    with H mx root Some Handle_inv [OF inv H] show ?thesis
      by (auto simp: fromMethods_def Match_step [OF refl] es split: option.splits)
  qed
qed

theorem fromMethods_matches_witness:
  "\<exists>mx. fromMethods [\<lparr>mt_name = ''Bar'', mt_func = VInvalid, mt_handler = None\<rparr>, \<lparr>mt_name = ''Foo'', mt_func = VInvalid, mt_handler = None\<rparr>] None = Inr mx
     \<and> Match (\<lambda>_. mx) 0 ''Foo'' = Some (HFunc 1, ''/Foo'') \<and> Match (\<lambda>_. mx) 0 ''Baz'' = Some (HNil, [])"
proof -
  let ?mts = "[\<lparr>mt_name = ''Bar'', mt_func = VInvalid, mt_handler = None\<rparr>, \<lparr>mt_name = ''Foo'', mt_func = VInvalid, mt_handler = None\<rparr>]"
  have "distinct (map mt_name ?mts)" "\<forall>mt \<in> set ?mts. ident (mt_name mt)" by (simp_all add: ident_def)
  from fromMethods_matches [OF this, of None] obtain mx where mx: "fromMethods ?mts None = Inr mx"
    "\<And>st r sel. st r = mx \<Longrightarrow> Match st r sel = (case method_index ?mts 0 (cleanSelector sel) of
       Some i \<Rightarrow> Some (HFunc i, cleanSelector sel) | None \<Rightarrow> (case None of None \<Rightarrow> Some (HNil, []) | Some f \<Rightarrow> Some (HFunc f, ''/'')))"
    unfolding option.map by blast
  have "cleanSelector ''Foo'' = ''/Foo''" "cleanSelector ''Baz'' = ''/Baz''" by (simp_all add: cleanSelector_def dots_to_slashes_def)
  with mx(1) mx(2) [of "\<lambda>_. mx" 0] show ?thesis by simp
qed

end
