(* ===== verification/Exp_Ptr.thy ===== *)
theory Exp_Ptr
  imports Fn_Call "HOL-Library.List_Lexorder" "HOL-Library.Char_ord"
begin

text \<open>
  Remote function pointers (\<^verbatim>\<open>src/exp/ptr.go\<close>): a reflective walk over a value collects the pointers to \<^verbatim>\<open>Ptr\<close>
  structs in it; they are given a caller, or registered on a \<^verbatim>\<open>RespondMux\<close> under their ids and removed again. Pointers and maps are
  addresses of a heap, so a value can contain itself: \<^verbatim>\<open>keys\<close>, \<^verbatim>\<open>prop\<close> and \<^verbatim>\<open>walk\<close> follow it without a
  check and are \<open>partial_function\<close>s with \<open>None\<close> for a recursion that does not end. The message that
  \<^verbatim>\<open>keys\<close> prints for unexpected kinds is left out, and struct fields are taken to begin with a letter.
  Ids come from the package \<^verbatim>\<open>xid\<close> and are an argument of \<^verbatim>\<open>Callback\<close>.

  The lemmas show that the walk finds exactly the pointers that can be reached by its own keys, that it returns without a panic on
  every value without cycles, and that registering and unregistering pointers undo each other.
\<close>

section \<open>The heap\<close>

record gheap =
  h_val :: "nat \<rightharpoonup> gval"
  h_map :: "nat \<rightharpoonup> (gval \<times> gval) list"

definition target :: "gheap \<Rightarrow> nat \<Rightarrow> gval" where
  "target H a = (case h_val H a of Some v \<Rightarrow> v | None \<Rightarrow> VInvalid)"

definition entries :: "gheap \<Rightarrow> gval \<Rightarrow> (gval \<times> gval) list" where
  "entries H v = (case v of VMap _ a \<Rightarrow> (case h_map H a of Some xs \<Rightarrow> xs | None \<Rightarrow> []) | _ \<Rightarrow> [])"

text \<open>The fields of a struct type and the elements of a slice or array.\<close>

definition fields :: "tdefs \<Rightarrow> gtype \<Rightarrow> (string \<times> string \<times> gtype) list" where
  "fields D t = (case underlying D t of TStruct fs \<Rightarrow> fs | _ \<Rightarrow> [])"

definition field_values :: "tdefs \<Rightarrow> gval \<Rightarrow> gval list" where
  "field_values D v = (case v of VStruct _ xs \<Rightarrow> xs | _ \<Rightarrow> map (\<lambda>(_, _, t). VZero t) (fields D (type_of v)))"

definition items :: "tdefs \<Rightarrow> gval \<Rightarrow> gval list" where
  "items D v = (case v of VSlice _ xs \<Rightarrow> xs | VArray _ xs \<Rightarrow> xs
     | _ \<Rightarrow> replicate (array_len D (type_of v)) (VZero (Elem D (type_of v))))"

section \<open>Keys and properties\<close>

text \<open>\<^verbatim>\<open>strings.ToUpper(name)[0]\<close> for a name that begins with an ASCII letter.\<close>

definition upper :: "char \<Rightarrow> char" where
  "upper c = (let n = of_char c :: nat in if 97 \<le> n \<and> n \<le> 122 then char_of (n - 32) else c)"

definition exported :: "string \<Rightarrow> bool" where
  "exported name \<longleftrightarrow> name \<noteq> [] \<and> hd name = upper (hd name)"

fun string_key :: "gval \<Rightarrow> string option" where
  "string_key (VString t s) = (if t = TString then Some s else None)"
| "string_key _ = None"

partial_function (option) keys :: "tdefs \<Rightarrow> gheap \<Rightarrow> gval \<Rightarrow> string list fnres option" where
  "keys D H v =
     (if v = VInvalid then Some (Panic ''reflect: call of reflect.Value.Type on zero Value'')
      else
        (case Kind D (type_of v) of
           KMap \<Rightarrow> Some (Ok (sort (List.map_filter (\<lambda>(k, _). string_key (unwrap k)) (entries H v))))
         | KStruct \<Rightarrow> Some (Ok (filter exported (map fst (fields D (type_of v)))))
         | KSlice \<Rightarrow> Some (Ok (map show_nat [0 ..< length (items D v)]))
         | KArray \<Rightarrow> Some (Ok (map show_nat [0 ..< length (items D v)]))
         | KPtr \<Rightarrow> (case v of VPtr _ a \<Rightarrow> keys D H (target H a) | _ \<Rightarrow> Some (Ok []))
         | _ \<Rightarrow> Some (Ok [])))"

text \<open>\<^verbatim>\<open>strconv.Atoi\<close>, for the sign and digits it accepts.\<close>

definition Atoi :: "string \<Rightarrow> int option" where
  "Atoi s =
     (let neg = (s \<noteq> [] \<and> hd s = CHR ''-'');
          ds = (if s \<noteq> [] \<and> (hd s = CHR ''-'' \<or> hd s = CHR ''+'') then tl s else s)
      in if ds = [] then None
         else Option.bind (digits_value 0 ds)
                (\<lambda>n. let i = (if neg then - int n else int n) in if in_range IInt i then Some i else None))"

definition map_index :: "(gval \<times> gval) list \<Rightarrow> string \<Rightarrow> gval option" where
  "map_index xs key = map_option snd (find (\<lambda>(k, _). unwrap k = VString TString key) xs)"

definition field_named :: "tdefs \<Rightarrow> gval \<Rightarrow> string \<Rightarrow> gval option" where
  "field_named D v key =
     map_of (zip (map fst (fields D (type_of v))) (field_values D v)) key"

text \<open>The loop over the fields by their json tags: the first field whose tag or name is the key.\<close>

definition field_tagged :: "tdefs \<Rightarrow> gval \<Rightarrow> string \<Rightarrow> gval option" where
  "field_tagged D v key =
     Option.bind (find (\<lambda>(n, tag, _). takeWhile (\<lambda>c. c \<noteq> CHR '','') tag = key \<or> n = key) (fields D (type_of v)))
       (\<lambda>(n, _, _). field_named D v n)"

partial_function (option) prop_of :: "tdefs \<Rightarrow> gheap \<Rightarrow> gval \<Rightarrow> string \<Rightarrow> gval fnres option" where
  "prop_of D H robj key =
     (if robj = VInvalid then Some (Panic ''reflect: call of reflect.Value.Type on zero Value'')
      else
        (let kd = Kind D (type_of robj) in
         if kd = KSlice \<or> kd = KArray then
           (case Atoi key of
              None \<Rightarrow> Some (Panic ''non-numeric index given for slice'')
            | Some idx \<Rightarrow>
                if idx < 0 \<or> int (length (items D robj)) \<le> idx
                then Some (Panic (''reflect: '' @ kind_String kd @ '' index out of range''))
                else Some (Ok (unwrap (items D robj ! nat idx))))
         else if kd = KPtr then (case robj of VPtr _ a \<Rightarrow> prop_of D H (target H a) key
                                | _ \<Rightarrow> Some (Panic ''reflect: call of reflect.Value.Type on zero Value''))
         else if kd = KMap then
           (case map_index (entries H robj) key of
              Some x \<Rightarrow> Some (Ok (unwrap x))
            | None \<Rightarrow> Some (Panic (''unexpected kind: '' @ kind_String kd)))
         else if kd = KStruct then
           (case field_named D robj key of
              Some x \<Rightarrow> Some (Ok x)
            | None \<Rightarrow> (case field_tagged D robj key of
                         Some x \<Rightarrow> Some (Ok x)
                       | None \<Rightarrow> Some (Panic (''struct field not found: '' @ key))))
         else Some (Panic (''unexpected kind: '' @ kind_String kd))))"

section \<open>The walk\<close>

text \<open>
  The loop of \<^verbatim>\<open>walk\<close> over the keys of \<open>v\<close>. The state is the heap, which a visitor may change, and what the
  visitor collects.
\<close>

type_synonym 's visitor = "gval \<Rightarrow> gval \<Rightarrow> string list \<Rightarrow> gheap \<times> 's \<Rightarrow> (gheap \<times> 's) fnres"

partial_function (option) walk_keys ::
    "tdefs \<Rightarrow> 's visitor \<Rightarrow> gval \<Rightarrow> string list \<Rightarrow> string list \<Rightarrow> gheap \<times> 's \<Rightarrow> (gheap \<times> 's) fnres option" where
  "walk_keys D visitor v ks path st =
     (case ks of
        [] \<Rightarrow> Some (Ok st)
      | k # ks' \<Rightarrow>
          Option.bind (prop_of D (fst st) v k) (\<lambda>r.
            case r of
              Err e \<Rightarrow> Some (Err e)
            | Panic p \<Rightarrow> Some (Panic p)
            | Ok vv \<Rightarrow>
                if vv = VInvalid then walk_keys D visitor v ks' path st
                else
                  (case visitor vv v (path @ [k]) st of
                     Err e \<Rightarrow> Some (Err e)
                   | Panic p \<Rightarrow> Some (Panic p)
                   | Ok st1 \<Rightarrow>
                       Option.bind (keys D (fst st1) vv) (\<lambda>rk.
                         case rk of
                           Err e \<Rightarrow> Some (Err e)
                         | Panic p \<Rightarrow> Some (Panic p)
                         | Ok ks1 \<Rightarrow>
                             Option.bind (walk_keys D visitor vv ks1 (path @ [k]) st1) (\<lambda>rw.
                               case rw of
                                 Err e \<Rightarrow> Some (Err e)
                               | Panic p \<Rightarrow> Some (Panic p)
                               | Ok st2 \<Rightarrow> walk_keys D visitor v ks' path st2)))))"

definition walk :: "tdefs \<Rightarrow> 's visitor \<Rightarrow> gval \<Rightarrow> string list \<Rightarrow> gheap \<times> 's \<Rightarrow> (gheap \<times> 's) fnres option" where
  "walk D visitor v path st =
     Option.bind (keys D (fst st) v) (\<lambda>rk.
       case rk of Err e \<Rightarrow> Some (Err e) | Panic p \<Rightarrow> Some (Panic p) | Ok ks \<Rightarrow> walk_keys D visitor v ks path st)"

declare keys.simps [code] prop_of.simps [code] walk_keys.simps [code]

section \<open>Pointers\<close>

definition ptr_struct :: gtype where
  "ptr_struct = TStruct [(''Ptr'', ''$fnptr'', TString), (''Caller'', ''-'', TIface ''rpc.Caller''), (''fn'', [], TAny)]"

definition ptrType :: gtype where "ptrType = TPtr (TNamed ''exp.Ptr'')"

definition Ptr :: "string \<Rightarrow> gval \<Rightarrow> gval \<Rightarrow> gval" where
  "Ptr p caller fn = VStruct (TNamed ''exp.Ptr'') [VString TString p, VIface (TIface ''rpc.Caller'') caller, VIface TAny fn]"

text \<open>The fields \<^verbatim>\<open>Ptr\<close> and \<^verbatim>\<open>fn\<close> of the struct at an address, and the assignment to \<^verbatim>\<open>Caller\<close>.\<close>

definition ptr_field :: "nat \<Rightarrow> gheap \<Rightarrow> nat \<Rightarrow> gval" where
  "ptr_field i H a = (case target H a of VStruct _ xs \<Rightarrow> if i < length xs then unwrap (xs ! i) else VInvalid | _ \<Rightarrow> VInvalid)"

definition ptr_id :: "gheap \<Rightarrow> nat \<Rightarrow> string" where
  "ptr_id H a = string_data (ptr_field 0 H a)"

definition set_caller :: "gval \<Rightarrow> nat \<Rightarrow> gheap \<Rightarrow> gheap" where
  "set_caller c a H =
     (case target H a of
        VStruct t xs \<Rightarrow> H\<lparr>h_val := (h_val H)(a \<mapsto> VStruct t (xs[1 := VIface (TIface ''rpc.Caller'') c]))\<rparr>
      | _ \<Rightarrow> H)"

text \<open>\<^verbatim>\<open>Callback\<close>: a new struct with a fresh id.\<close>

definition Callback :: "string \<Rightarrow> gval \<Rightarrow> nat \<Rightarrow> gheap \<Rightarrow> gval \<times> gheap" where
  "Callback xid fn a H = (VPtr ptrType a, H\<lparr>h_val := (h_val H)(a \<mapsto> Ptr xid VInvalid fn)\<rparr>)"

definition collect :: "nat list visitor" where
  "collect v parent path st =
     (if type_of v = ptrType then
        (case v of VPtr _ a \<Rightarrow> Ok (fst st, snd st @ [a]) | _ \<Rightarrow> Ok st)
      else Ok st)"

text \<open>The result of \<^verbatim>\<open>walk\<close> is not looked at; the visitors here return no error.\<close>

definition PtrsFrom :: "tdefs \<Rightarrow> gheap \<Rightarrow> gval \<Rightarrow> nat list fnres option" where
  "PtrsFrom D H v =
     map_option (\<lambda>r. case r of Ok st \<Rightarrow> Ok (snd st) | Err e \<Rightarrow> Ok [] | Panic p \<Rightarrow> Panic p) (walk D collect v [] (H, []))"

text \<open>\<^verbatim>\<open>Value.SetMapIndex\<close> with a string key; a nil element deletes the entry.\<close>

definition elem_type :: "tdefs \<Rightarrow> gtype \<Rightarrow> gtype" where
  "elem_type D t = (case underlying D t of TMap _ e \<Rightarrow> e | u \<Rightarrow> u)"

definition key_slot :: "tdefs \<Rightarrow> gtype \<Rightarrow> string \<Rightarrow> gval" where
  "key_slot D t key = (case underlying D t of
     TMap kt _ \<Rightarrow> (if Kind D kt = KInterface then VIface kt (VString TString key) else VString kt key) | _ \<Rightarrow> VString TString key)"

definition SetMapIndex :: "goprog \<Rightarrow> gval \<Rightarrow> string \<Rightarrow> gval \<Rightarrow> gheap \<Rightarrow> gheap fnres" where
  "SetMapIndex P mv key c H =
     (let D = tdef P; t = type_of mv in
      if Kind D t \<noteq> KMap then Panic (''reflect: call of reflect.Value.SetMapIndex on '' @ kind_String (Kind D t) @ '' Value'')
      else
        (case mv of
           VMap _ a \<Rightarrow>
             (let others = filter (\<lambda>(k, _). unwrap k \<noteq> VString TString key) (entries H mv) in
              if c = VInvalid then Ok (H\<lparr>h_map := (h_map H)(a \<mapsto> others)\<rparr>)
              else if \<not> AssignableTo P (type_of c) (elem_type D t) then
                Panic (''reflect.Value.SetMapIndex: value of type '' @ type_String (type_of c)
                        @ '' is not assignable to type '' @ type_String (elem_type D t))
              else Ok (H\<lparr>h_map := (h_map H)(a \<mapsto> others @ [(key_slot D t key, assign P c (elem_type D t))])\<rparr>))
         | _ \<Rightarrow> Panic ''assignment to entry in nil map''))"

text \<open>\<^verbatim>\<open>Value.String()\<close>.\<close>

definition Value_String :: "tdefs \<Rightarrow> gval \<Rightarrow> string" where
  "Value_String D v =
     (if Kind D (type_of v) = KString then string_data v else ''<'' @ type_String (type_of v) @ '' Value>'')"

definition set_fnptr :: "goprog \<Rightarrow> gval \<Rightarrow> string list visitor" where
  "set_fnptr P c v parent path st =
     (if last path = ''$fnptr'' then
        fn_bind (SetMapIndex P parent ''Caller'' c (fst st)) (\<lambda>H1. Ok (H1, snd st @ [Value_String (tdef P) v]))
      else Ok st)"

definition SetCallers :: "goprog \<Rightarrow> gheap \<Rightarrow> gval \<Rightarrow> gval \<Rightarrow> (gheap \<times> string list) fnres option" where
  "SetCallers P H v c =
     Option.bind (PtrsFrom (tdef P) H v) (\<lambda>rp.
       case rp of
         Err e \<Rightarrow> Some (Err e)
       | Panic p \<Rightarrow> Some (Panic p)
       | Ok ptrs \<Rightarrow> walk (tdef P) (set_fnptr P c) v [] (fold (set_caller c) ptrs H, map (ptr_id H) ptrs))"

text \<open>
  \<^verbatim>\<open>RegisterPtrs\<close> on the mux \<open>r\<close> of a store: the handler for the function of the pointer at address \<open>a\<close> is
  named \<open>a\<close>. \<^verbatim>\<open>fn.HandlerFrom\<close> is called with the type parameter \<^verbatim>\<open>interface{}\<close>, which has no methods.
\<close>

definition ptr_handler :: "goprog \<Rightarrow> gheap \<Rightarrow> nat \<Rightarrow> Handler fnres" where
  "ptr_handler P H a =
     fn_bind (HandlerFrom P (\<lambda>_. 0) \<lparr>frames = [], pcs = []\<rparr> (ptr_field 2 H a) [] None)
       (\<lambda>hn. case hn of Inl _ \<Rightarrow> Ok (HFunc a) | Inr _ \<Rightarrow> Ok (HMux a))"

fun register_loop :: "goprog \<Rightarrow> gheap \<Rightarrow> nat \<Rightarrow> nat list \<Rightarrow> muxes \<Rightarrow> muxes fnres option" where
  "register_loop P H r [] st = Some (Ok st)"
| "register_loop P H r (a # ptrs) st =
     (case Match st r (ptr_id H a) of
        None \<Rightarrow> None
      | Some (hn, _) \<Rightarrow>
          if hn = HNil then
            (case ptr_handler P H a of
               Err e \<Rightarrow> Some (Err e)
             | Panic p \<Rightarrow> Some (Panic p)
             | Ok handler \<Rightarrow>
                 (case Handle (ptr_id H a) handler (st r) of
                    Inl e \<Rightarrow> Some (Panic (handle_error_text e))
                  | Inr mx \<Rightarrow> register_loop P H r ptrs (st(r := mx))))
          else register_loop P H r ptrs st)"

fun unregister_loop :: "gheap \<Rightarrow> nat \<Rightarrow> nat list \<Rightarrow> muxes \<Rightarrow> muxes fnres option" where
  "unregister_loop H r [] st = Some (Ok st)"
| "unregister_loop H r (a # ptrs) st =
     (case Match st r (ptr_id H a) of
        None \<Rightarrow> None
      | Some (hn, _) \<Rightarrow>
          if hn \<noteq> HNil then unregister_loop H r ptrs (st(r := snd (Remove (ptr_id H a) (st r))))
          else unregister_loop H r ptrs st)"

definition RegisterPtrs :: "goprog \<Rightarrow> gheap \<Rightarrow> nat \<Rightarrow> gval \<Rightarrow> muxes \<Rightarrow> muxes fnres option" where
  "RegisterPtrs P H r v st =
     Option.bind (PtrsFrom (tdef P) H v) (\<lambda>rp.
       case rp of Err e \<Rightarrow> Some (Err e) | Panic p \<Rightarrow> Some (Panic p) | Ok ptrs \<Rightarrow> register_loop P H r ptrs st)"

definition UnregisterPtrs :: "goprog \<Rightarrow> gheap \<Rightarrow> nat \<Rightarrow> gval \<Rightarrow> muxes \<Rightarrow> muxes fnres option" where
  "UnregisterPtrs P H r v st =
     Option.bind (PtrsFrom (tdef P) H v) (\<lambda>rp.
       case rp of Err e \<Rightarrow> Some (Err e) | Panic p \<Rightarrow> Some (Panic p) | Ok ptrs \<Rightarrow> unregister_loop H r ptrs st)"

text \<open>\<^verbatim>\<open>Ptr.Call\<close>: the caller that is asked and the selector; a nil caller panics.\<close>

definition ptr_Call :: "gheap \<Rightarrow> nat \<Rightarrow> (gval \<times> string) fnres" where
  "ptr_Call H a = (if ptr_field 1 H a = VInvalid then Panic nil_deref else Ok (ptr_field 1 H a, ptr_id H a))"

section \<open>What the walk reaches\<close>

definition child :: "tdefs \<Rightarrow> gheap \<Rightarrow> gval \<Rightarrow> gval \<Rightarrow> bool" where
  "child D H v w \<longleftrightarrow> (\<exists>ks k. keys D H v = Some (Ok ks) \<and> k \<in> set ks \<and> prop_of D H v k = Some (Ok w) \<and> w \<noteq> VInvalid)"

definition reaches :: "tdefs \<Rightarrow> gheap \<Rightarrow> gval \<Rightarrow> gval \<Rightarrow> bool" where
  "reaches D H = (child D H)\<^sup>+\<^sup>+"

text \<open>The children of \<open>v\<close> under some of its keys.\<close>

definition child_at :: "tdefs \<Rightarrow> gheap \<Rightarrow> gval \<Rightarrow> string list \<Rightarrow> gval \<Rightarrow> bool" where
  "child_at D H v ks w \<longleftrightarrow> (\<exists>k \<in> set ks. prop_of D H v k = Some (Ok w) \<and> w \<noteq> VInvalid)"

definition reaches_at :: "tdefs \<Rightarrow> gheap \<Rightarrow> gval \<Rightarrow> string list \<Rightarrow> gval \<Rightarrow> bool" where
  "reaches_at D H v ks w \<longleftrightarrow> (\<exists>u. child_at D H v ks u \<and> (u = w \<or> reaches D H u w))"

lemma reaches_keys:
  assumes "keys D H v = Some (Ok ks)"
  shows "reaches D H v w \<longleftrightarrow> reaches_at D H v ks w"
proof -
  have c: "child D H v u \<longleftrightarrow> child_at D H v ks u" for u using assms by (auto simp: child_def child_at_def)
  show ?thesis
  proof
    assume "reaches D H v w"
    then obtain u where "child D H v u" "(child D H)\<^sup>*\<^sup>* u w" unfolding reaches_def by (blast dest: tranclpD)
    then show "reaches_at D H v ks w" unfolding reaches_at_def reaches_def c by (blast dest: rtranclpD)
  next
    assume "reaches_at D H v ks w"
    then show "reaches D H v w" unfolding reaches_def reaches_at_def c [symmetric] by (auto intro: tranclp_into_tranclp2)
  qed
qed

lemma bind_fnres_Ok:
  "Option.bind x (\<lambda>r. case r of Ok a \<Rightarrow> g a | Err e \<Rightarrow> Some (Err e) | Panic p \<Rightarrow> Some (Panic p)) = Some (Ok b)
   \<longleftrightarrow> (\<exists>a. x = Some (Ok a) \<and> g a = Some (Ok b))"
  by (cases x) (auto split: fnres.split)

text \<open>
  The runs of the walk that come to an end, as a relation: the induction rule that the proofs about results use.
\<close>

definition is_ok :: "'a fnres \<Rightarrow> bool" where
  "is_ok r \<longleftrightarrow> (\<exists>a. r = Ok a)"

inductive walks :: "tdefs \<Rightarrow> 's visitor \<Rightarrow> gval \<Rightarrow> string list \<Rightarrow> string list \<Rightarrow> gheap \<times> 's \<Rightarrow> (gheap \<times> 's) fnres \<Rightarrow> bool"
  for D vis where
  nil: "walks D vis v [] path st (Ok st)"
| skip: "prop_of D (fst st) v k = Some (Ok VInvalid) \<Longrightarrow> walks D vis v ks path st r \<Longrightarrow> walks D vis v (k # ks) path st r"
| step: "prop_of D (fst st) v k = Some (Ok w) \<Longrightarrow> w \<noteq> VInvalid \<Longrightarrow> vis w v (path @ [k]) st = Ok st1
     \<Longrightarrow> keys D (fst st1) w = Some (Ok ks1) \<Longrightarrow> walks D vis w ks1 (path @ [k]) st1 (Ok st2) \<Longrightarrow> walks D vis v ks path st2 r
     \<Longrightarrow> walks D vis v (k # ks) path st r"
| stop_inside: "prop_of D (fst st) v k = Some (Ok w) \<Longrightarrow> w \<noteq> VInvalid \<Longrightarrow> vis w v (path @ [k]) st = Ok st1
     \<Longrightarrow> keys D (fst st1) w = Some (Ok ks1) \<Longrightarrow> walks D vis w ks1 (path @ [k]) st1 r1 \<Longrightarrow> \<not> is_ok r1 \<Longrightarrow> \<not> is_ok r
     \<Longrightarrow> walks D vis v (k # ks) path st r"
| stop: "\<not> (\<exists>w. prop_of D (fst st) v k = Some (Ok w) \<and> (w = VInvalid \<or> (\<exists>st1 ks1. vis w v (path @ [k]) st = Ok st1 \<and> keys D (fst st1) w = Some (Ok ks1))))
     \<Longrightarrow> \<not> is_ok r \<Longrightarrow> walks D vis v (k # ks) path st r"

lemma walk_keys_walks:
  assumes "walk_keys D vis v ks path st = Some r"
  shows "walks D vis v ks path st r"
proof (rule walk_keys.raw_induct [where P = walks, OF _ assms], goal_cases)
  case (1 f D vis v ks path st r)
  note IH = 1(1) and body = 1(2)
  show ?case
  proof (cases ks)
    case Nil
    then show ?thesis using body by (auto intro: walks.nil)
  next
    case (Cons k ks')
    show ?thesis
    proof (cases "\<exists>w. prop_of D (fst st) v k = Some (Ok w) \<and> (w = VInvalid \<or> (\<exists>st1 ks1. vis w v (path @ [k]) st = Ok st1 \<and> keys D (fst st1) w = Some (Ok ks1)))")
      case False
      have "\<not> is_ok r"
      proof
        assume "is_ok r"
        with body Cons obtain st' w where "r = Ok st'" "prop_of D (fst st) v k = Some (Ok w)" by (auto simp: is_ok_def bind_fnres_Ok)
        with body Cons False show False by (cases "vis w v (path @ [k]) st") (auto simp: bind_fnres_Ok)
      qed
      with False Cons show ?thesis by (simp add: walks.stop)
    next
      case True
      then obtain w where w: "prop_of D (fst st) v k = Some (Ok w)"
        "w = VInvalid \<or> (\<exists>st1 ks1. vis w v (path @ [k]) st = Ok st1 \<and> keys D (fst st1) w = Some (Ok ks1))" by blast
      show ?thesis
      proof (cases "w = VInvalid")
        case True
        then have "f D vis v ks' path st = Some r" using body Cons w(1) by simp
        from IH [OF this] show ?thesis using True Cons w(1) by (simp add: walks.skip)
      next
        case False
        with w(2) obtain st1 ks1 where s: "vis w v (path @ [k]) st = Ok st1" "keys D (fst st1) w = Some (Ok ks1)" by blast
        from body Cons w(1) s False obtain r1 where r1: "f D vis w ks1 (path @ [k]) st1 = Some r1"
          "(case r1 of Err e \<Rightarrow> Some (Err e) | Panic p \<Rightarrow> Some (Panic p) | Ok st2 \<Rightarrow> f D vis v ks' path st2) = Some r"
          by (cases "f D vis w ks1 (path @ [k]) st1") auto
        note sub = w(1) False s IH [OF r1(1)]
        show ?thesis
        proof (cases r1)
          case (Ok st2)
          then show ?thesis using walks.step [of D st v k w vis path st1 ks1 st2 ks' r] sub r1(2) IH Cons by auto
        qed (use walks.stop_inside [OF sub] r1(2) Cons in \<open>auto simp: is_ok_def\<close>)
      qed
    qed
  qed
qed

text \<open>Collecting leaves the heap alone and appends the pointers it reaches.\<close>

definition collected :: "tdefs \<Rightarrow> gheap \<Rightarrow> gval \<Rightarrow> string list \<Rightarrow> nat set" where
  "collected D H v ks = {a. reaches_at D H v ks (VPtr ptrType a)}"

lemma collect_result: "\<exists>ns. collect v parent path st = Ok (fst st, snd st @ ns) \<and> set ns = {a. v = VPtr ptrType a}"
  by (cases v) (auto simp: collect_def)

lemma collected_Nil [simp]: "collected D H v [] = {}"
  by (simp add: collected_def reaches_at_def child_at_def)

lemma collected_Cons:
  assumes "prop_of D H v k = Some (Ok w)" and "w = VInvalid \<or> keys D H w = Some (Ok ks1)"
  shows "collected D H v (k # ks) =
    (if w = VInvalid then {} else {a. w = VPtr ptrType a} \<union> collected D H w ks1) \<union> collected D H v ks"
proof -
  have "child_at D H v (k # ks) u \<longleftrightarrow> (u = w \<and> w \<noteq> VInvalid) \<or> child_at D H v ks u" for u
    using assms(1) by (auto simp: child_at_def)
  then show ?thesis using assms(2) reaches_keys [of D H w ks1] by (auto simp: collected_def reaches_at_def)
qed

lemma walks_collect:
  assumes "walks D collect v ks path st r" and "r = Ok st'"
  shows "fst st' = fst st \<and> (\<exists>ns. snd st' = snd st @ ns \<and> set ns = collected D (fst st) v ks)"
  using assms
proof (induction arbitrary: st' rule: walks.induct)
  case (skip st v k ks path r)
  then show ?case using collected_Cons [OF skip(1), of undefined ks] by simp
next
  case (step st v k w path st1 ks1 st2 ks r)
  obtain ns where ns: "st1 = (fst st, snd st @ ns)" "set ns = {a. w = VPtr ptrType a}"
    using collect_result [of w v "path @ [k]" st] step(3) by auto
  then have "collected D (fst st) v (k # ks) = set ns \<union> collected D (fst st) w ks1 \<union> collected D (fst st) v ks"
    using collected_Cons [OF step(1), of ks1 ks] step(2,4) by simp
  moreover from step.IH(1) [OF refl] ns(1) have "fst st2 = fst st" "\<exists>ns1. snd st2 = snd st @ ns @ ns1 \<and> set ns1 = collected D (fst st) w ks1"
    by auto
  moreover from step.IH(2) [OF step.prems] have "fst st' = fst st2" "\<exists>ns2. snd st' = snd st2 @ ns2 \<and> set ns2 = collected D (fst st2) v ks"
    by auto
  ultimately show ?case by auto
qed (auto simp: is_ok_def)

section \<open>Values without cycles\<close>

text \<open>
  A value whose shape fits its type: as many fields as the struct type has, with distinct names, no key twice in a map, and
  addresses that the heap knows.
\<close>

definition well_shaped :: "tdefs \<Rightarrow> gheap \<Rightarrow> gval \<Rightarrow> bool" where
  "well_shaped D H v \<longleftrightarrow>
     (Kind D (type_of v) = KStruct \<longrightarrow>
        length (field_values D v) = length (fields D (type_of v)) \<and> distinct (map fst (fields D (type_of v))))
     \<and> distinct (map (unwrap \<circ> fst) (entries H v))
     \<and> (case v of VPtr _ a \<Rightarrow> target H a \<noteq> VInvalid | _ \<Rightarrow> True)
     \<and> length (items D v) < 2 ^ 63"

text \<open>The values directly inside a value.\<close>

definition inside :: "tdefs \<Rightarrow> gheap \<Rightarrow> gval \<Rightarrow> gval set" where
  "inside D H v =
     unwrap ` set (items D v) \<union> unwrap ` snd ` set (entries H v) \<union> set (field_values D v)
     \<union> (case v of VPtr _ a \<Rightarrow> {target H a} | _ \<Rightarrow> {}) - {VInvalid}"

text \<open>A set of values that is closed under \<open>inside\<close> and on which \<open>inside\<close> leads down a rank.\<close>

definition acyclic_on :: "tdefs \<Rightarrow> gheap \<Rightarrow> gval set \<Rightarrow> (gval \<Rightarrow> nat) \<Rightarrow> bool" where
  "acyclic_on D H S rank \<longleftrightarrow>
     VInvalid \<notin> S \<and> (\<forall>v \<in> S. well_shaped D H v \<and> (\<forall>w \<in> inside D H v. w \<in> S \<and> rank w < rank v))"

lemma Atoi_show: "n < 2 ^ 63 \<Longrightarrow> Atoi (show_nat n) = Some (int n)"
  using show_nat_hd [of n] digits_value_show [of n] by (simp add: Atoi_def Let_def in_range_def)

text \<open>On such a set, every key that \<^verbatim>\<open>keys\<close> gives is one that \<^verbatim>\<open>prop\<close> finds, and leads to an element of lower rank.\<close>

definition leads_down :: "tdefs \<Rightarrow> gheap \<Rightarrow> gval set \<Rightarrow> (gval \<Rightarrow> nat) \<Rightarrow> gval \<Rightarrow> string \<Rightarrow> bool" where
  "leads_down D H S rank v k \<longleftrightarrow> (\<exists>w. prop_of D H v k = Some (Ok w) \<and> (w = VInvalid \<or> w \<in> S \<and> rank w < rank v))"

lemma acyclic_onD:
  assumes "acyclic_on D H S rank" and "v \<in> S"
  shows "v \<noteq> VInvalid" and "well_shaped D H v" and "\<And>w. w \<in> inside D H v \<Longrightarrow> w \<in> S \<and> rank w < rank v"
  using assms by (auto simp: acyclic_on_def)

lemma items_lead_down:
  assumes "acyclic_on D H S rank" and "v \<in> S" and "Kind D (type_of v) = KSlice \<or> Kind D (type_of v) = KArray"
    and "i < length (items D v)"
  shows "leads_down D H S rank v (show_nat i)"
proof -
  note ac = acyclic_onD [OF assms(1,2)]
  have "i < 2 ^ 63" using ac(2) assms(4) by (simp add: well_shaped_def)
  then have "prop_of D H v (show_nat i) = Some (Ok (unwrap (items D v ! i)))"
    using ac(1) assms(3,4) Atoi_show [of i] by (subst prop_of.simps) (auto simp: Let_def)
  moreover have "unwrap (items D v ! i) \<in> unwrap ` set (items D v)" using assms(4) by simp
  ultimately show ?thesis using ac(3) by (auto simp: leads_down_def inside_def)
qed

lemma fields_lead_down:
  assumes "acyclic_on D H S rank" and "v \<in> S" and "Kind D (type_of v) = KStruct" and "k \<in> fst ` set (fields D (type_of v))"
  shows "leads_down D H S rank v k"
proof -
  note ac = acyclic_onD [OF assms(1,2)]
  let ?z = "zip (map fst (fields D (type_of v))) (field_values D v)"
  have "length (field_values D v) = length (fields D (type_of v))" using ac(2) assms(3) by (simp add: well_shaped_def)
  then have "k \<in> fst ` set ?z" using assms(4) map_fst_zip [of "map fst (fields D (type_of v))" "field_values D v"]
    by (metis length_map list.set_map)
  then obtain x where x: "map_of ?z k = Some x" by (metis map_of_eq_None_iff not_Some_eq)
  then have "x \<in> set (field_values D v)" using map_of_SomeD set_zip_rightD by metis
  moreover have "prop_of D H v k = Some (Ok x)" using ac(1) assms(3) x by (subst prop_of.simps) (simp add: field_named_def)
  ultimately show ?thesis using ac(3) by (auto simp: leads_down_def inside_def)
qed

lemma entries_lead_down:
  assumes "acyclic_on D H S rank" and "v \<in> S" and "Kind D (type_of v) = KMap"
    and "(kv, x) \<in> set (entries H v)" and "string_key (unwrap kv) = Some k"
  shows "leads_down D H S rank v k"
proof -
  note ac = acyclic_onD [OF assms(1,2)]
  have "unwrap kv = VString TString k" using assms(5) by (cases "unwrap kv") (auto split: if_splits)
  then obtain y where y: "find (\<lambda>(k', _). unwrap k' = VString TString k) (entries H v) = Some y"
    using assms(4) by (cases "find (\<lambda>(k', _). unwrap k' = VString TString k) (entries H v)") (auto simp: find_None_iff)
  then have "y \<in> set (entries H v)" by (metis find_Some_iff nth_mem)
  moreover have "prop_of D H v k = Some (Ok (unwrap (snd y)))"
    using ac(1) assms(3) y by (subst prop_of.simps) (simp add: map_index_def)
  ultimately show ?thesis using ac(3) by (auto simp: leads_down_def inside_def)
qed

lemma keys_total:
  assumes "acyclic_on D H S rank" and "v \<in> S"
  shows "\<exists>ks. keys D H v = Some (Ok ks) \<and> (\<forall>k \<in> set ks. leads_down D H S rank v k)"
  using assms(2)
proof (induction "rank v" arbitrary: v rule: less_induct)
  case less
  note ac = acyclic_onD [OF assms(1) less.prems]
  show ?case
  proof (cases "\<exists>t a. v = VPtr t a \<and> Kind D t = KPtr")
    case True
    then obtain t a where v: "v = VPtr t a" "Kind D t = KPtr" by blast
    let ?w = "target H a"
    have w: "?w \<in> S" "rank ?w < rank v" using ac(2,3) v by (auto simp: inside_def well_shaped_def)
    have "keys D H v = keys D H ?w" by (subst keys.simps) (simp add: v)
    moreover have "prop_of D H v k = prop_of D H ?w k" for k by (subst prop_of.simps) (simp add: v Let_def)
    ultimately show ?thesis using less.hyps [OF w(2,1)] w(2) by (fastforce simp: leads_down_def)
  next
    case False
    then show ?thesis
      using ac(1) items_lead_down [OF assms(1) less.prems] fields_lead_down [OF assms(1) less.prems]
        entries_lead_down [OF assms(1) less.prems]
      by (subst keys.simps) (auto simp: map_filter_def split: kind.splits gval.splits)
  qed
qed

lemma walk_collect_total:
  assumes "acyclic_on D H S rank" and "v \<in> S" and "\<forall>k \<in> set ks. leads_down D H S rank v k"
  shows "\<exists>ns. walk_keys D collect v ks path (H, acc) = Some (Ok (H, acc @ ns))"
  using assms(2,3)
proof (induction "rank v" arbitrary: v ks path acc rule: less_induct)
  case less
  have "\<exists>ns. walk_keys D collect v ks path (H, acc) = Some (Ok (H, acc @ ns))" if "\<forall>k \<in> set ks. leads_down D H S rank v k" for ks acc
    using that
  proof (induction ks arbitrary: acc)
    case Nil
    show ?case by (subst walk_keys.simps) simp
  next
    case (Cons k ks)
    from Cons.prems obtain w where w: "prop_of D H v k = Some (Ok w)" "w = VInvalid \<or> w \<in> S \<and> rank w < rank v"
      by (auto simp: leads_down_def)
    show ?case
    proof (cases "w = VInvalid")
      case True
      then show ?thesis using w(1) Cons.IH [of acc] Cons.prems by (subst walk_keys.simps) simp
    next
      case False
      with w(2) have S: "w \<in> S" "rank w < rank v" by auto
      obtain ns where ns: "collect w v (path @ [k]) (H, acc) = Ok (H, acc @ ns)"
        using collect_result [of w v "path @ [k]" "(H, acc)"] by auto
      obtain ks1 where k1: "keys D H w = Some (Ok ks1)" "\<forall>k \<in> set ks1. leads_down D H S rank w k"
        using keys_total [OF assms(1) S(1)] by blast
      obtain ns1 where n1: "walk_keys D collect w ks1 (path @ [k]) (H, acc @ ns) = Some (Ok (H, (acc @ ns) @ ns1))"
        using less.hyps [OF S(2,1) k1(2), of "path @ [k]" "acc @ ns"] by blast
      obtain ns2 where n2: "walk_keys D collect v ks path (H, (acc @ ns) @ ns1) = Some (Ok (H, ((acc @ ns) @ ns1) @ ns2))"
        using Cons.IH [of "(acc @ ns) @ ns1"] Cons.prems by auto
      have "walk_keys D collect v (k # ks) path (H, acc) = Some (Ok (H, ((acc @ ns) @ ns1) @ ns2))"
        by (subst walk_keys.simps) (simp only: w(1) ns k1(1) n1 n2 False list.case fst_conv bind.bind_lunit fnres.case if_False)
      then show ?thesis by (metis append.assoc)
    qed
  qed
  then show ?case using less.prems(2) by blast
qed

section \<open>What the walk means to reach\<close>

text \<open>
  One step into a value: to an element of a slice or array, to the value under a string key of a map, to an exported field of a
  struct, in each case through any number of pointers. An element or map value of interface type is what it holds; a field of
  interface type is the interface.
\<close>

inductive visible :: "tdefs \<Rightarrow> gheap \<Rightarrow> gval \<Rightarrow> gval \<Rightarrow> bool" for D H where
  item: "Kind D (type_of v) = KSlice \<or> Kind D (type_of v) = KArray \<Longrightarrow> x \<in> set (items D v) \<Longrightarrow> unwrap x \<noteq> VInvalid
     \<Longrightarrow> visible D H v (unwrap x)"
| entry: "Kind D (type_of v) = KMap \<Longrightarrow> (k, x) \<in> set (entries H v) \<Longrightarrow> unwrap k = VString TString s \<Longrightarrow> unwrap x \<noteq> VInvalid
     \<Longrightarrow> visible D H v (unwrap x)"
| field: "Kind D (type_of v) = KStruct \<Longrightarrow> (n, x) \<in> set (zip (map fst (fields D (type_of v))) (field_values D v)) \<Longrightarrow> exported n
     \<Longrightarrow> x \<noteq> VInvalid \<Longrightarrow> visible D H v x"
| deref: "Kind D t = KPtr \<Longrightarrow> visible D H (target H a) w \<Longrightarrow> visible D H (VPtr t a) w"

lemma string_keyD: "string_key v = Some s \<longleftrightarrow> v = VString TString s"
  by (cases v) auto

lemma keys_kinds:
  assumes "v \<noteq> VInvalid"
  shows "Kind D (type_of v) = KSlice \<or> Kind D (type_of v) = KArray \<Longrightarrow> keys D H v = Some (Ok (map show_nat [0 ..< length (items D v)]))"
    and "Kind D (type_of v) = KStruct \<Longrightarrow> keys D H v = Some (Ok (filter exported (map fst (fields D (type_of v)))))"
    and "Kind D (type_of v) = KMap \<Longrightarrow> keys D H v = Some (Ok (sort (List.map_filter (\<lambda>(k, _). string_key (unwrap k)) (entries H v))))"
  using assms by (subst keys.simps; auto)+

lemma prop_kinds:
  assumes "v \<noteq> VInvalid"
  shows "Kind D (type_of v) = KSlice \<or> Kind D (type_of v) = KArray \<Longrightarrow> i < length (items D v) \<Longrightarrow> i < 2 ^ 63
      \<Longrightarrow> prop_of D H v (show_nat i) = Some (Ok (unwrap (items D v ! i)))"
    and "Kind D (type_of v) = KStruct \<Longrightarrow> field_named D v k = Some x \<Longrightarrow> prop_of D H v k = Some (Ok x)"
    and "Kind D (type_of v) = KMap \<Longrightarrow> map_index (entries H v) k = Some x \<Longrightarrow> prop_of D H v k = Some (Ok (unwrap x))"
proof -
  show "prop_of D H v (show_nat i) = Some (Ok (unwrap (items D v ! i)))"
    if "Kind D (type_of v) = KSlice \<or> Kind D (type_of v) = KArray" "i < length (items D v)" "i < 2 ^ 63"
    using assms that Atoi_show [of i] by (subst prop_of.simps) (auto simp: Let_def)
  show "prop_of D H v k = Some (Ok x)" if "Kind D (type_of v) = KStruct" "field_named D v k = Some x"
    using assms that by (subst prop_of.simps) simp
  show "prop_of D H v k = Some (Ok (unwrap x))" if "Kind D (type_of v) = KMap" "map_index (entries H v) k = Some x"
    using assms that by (subst prop_of.simps) simp
qed

lemma ptr_kinds:
  assumes "Kind D t = KPtr"
  shows "keys D H (VPtr t a) = keys D H (target H a)" and "prop_of D H (VPtr t a) k = prop_of D H (target H a) k"
  using assms by (subst keys.simps, simp) (subst prop_of.simps, simp add: assms Let_def)

lemma map_index_entry:
  assumes "distinct (map (unwrap \<circ> fst) xs)" and "(k, x) \<in> set xs" and "unwrap k = VString TString s"
  shows "map_index xs s = Some x"
  using assms
proof (induction xs)
  case (Cons a xs)
  have "(unwrap \<circ> fst) (k, x) \<in> set (map (unwrap \<circ> fst) xs)" if "(k, x) \<in> set xs"
    using that unfolding set_map by (rule imageI)
  then show ?case using Cons by (cases a) (auto simp: map_index_def)
qed simp

lemma visible_child:
  assumes "acyclic_on D H S rank" and "visible D H v w" and "v \<in> S"
  shows "child D H v w"
  using assms(2,3)
proof (induction rule: visible.induct)
  case (item v x)
  note ac = acyclic_onD [OF assms(1) item.prems]
  from item(2) obtain i where i: "i < length (items D v)" "x = items D v ! i" by (auto simp: in_set_conv_nth)
  moreover have "prop_of D H v (show_nat i) = Some (Ok (unwrap x))"
    using prop_kinds(1) [OF ac(1) item(1) i(1)] i ac(2) by (simp add: well_shaped_def)
  moreover have "show_nat i \<in> set (map show_nat [0 ..< length (items D v)])" using i(1) by simp
  ultimately show ?case using keys_kinds(1) [OF ac(1) item(1)] item(3) unfolding child_def by metis
next
  case (entry v k x s)
  note ac = acyclic_onD [OF assms(1) entry.prems]
  have "map_index (entries H v) s = Some x" using map_index_entry [OF _ entry(2,3)] ac(2) by (simp add: well_shaped_def)
  moreover have "s \<in> set (sort (List.map_filter (\<lambda>(k, _). string_key (unwrap k)) (entries H v)))"
    using entry(2,3) by (force simp: map_filter_def string_keyD)
  ultimately show ?case using ac(1) entry(1,4) keys_kinds(3) prop_kinds(3) unfolding child_def by metis
next
  case (field v n x)
  note ac = acyclic_onD [OF assms(1) field.prems]
  have "field_named D v n = Some x"
    using field(1,2) ac(2) by (simp add: field_named_def well_shaped_def)
  moreover have "n \<in> set (filter exported (map fst (fields D (type_of v))))" using field(2,3) set_zip_leftD by fastforce
  ultimately show ?case using ac(1) field(1,4) keys_kinds(2) prop_kinds(2) unfolding child_def by metis
next
  case (deref t a w)
  have "target H a \<in> S" using acyclic_onD [OF assms(1) deref.prems] by (auto simp: inside_def well_shaped_def)
  with deref show ?case by (simp add: child_def ptr_kinds)
qed

lemma child_visible:
  assumes "acyclic_on D H S rank" and "v \<in> S" and "child D H v w"
  shows "visible D H v w \<and> w \<in> S"
  using assms(2,3)
proof (induction "rank v" arbitrary: v rule: less_induct)
  case less
  note ac = acyclic_onD [OF assms(1) less.prems(1)]
  from less.prems(2) obtain ks k where k: "keys D H v = Some (Ok ks)" "k \<in> set ks" "prop_of D H v k = Some (Ok w)" "w \<noteq> VInvalid"
    by (auto simp: child_def)
  have "leads_down D H S rank v k" using keys_total [OF assms(1) less.prems(1)] k(1,2) by auto
  then have "w \<in> S" using k(3,4) by (simp add: leads_down_def)
  show ?case
  proof (cases "\<exists>t a. v = VPtr t a \<and> Kind D t = KPtr")
    case True
    then obtain t a where v: "v = VPtr t a" "Kind D t = KPtr" by blast
    have "target H a \<in> S" "rank (target H a) < rank v" using ac(2,3) v by (auto simp: inside_def well_shaped_def)
    moreover have "child D H (target H a) w" using less.prems(2) v by (simp add: child_def ptr_kinds)
    ultimately show ?thesis using less.hyps v by (auto intro: visible.deref)
  next
    case False
    consider "Kind D (type_of v) = KSlice \<or> Kind D (type_of v) = KArray" | "Kind D (type_of v) = KStruct" | "Kind D (type_of v) = KMap" | "ks = []"
      using k(1) ac(1) False by (subst (asm) keys.simps) (auto split: kind.splits gval.splits)
    then show ?thesis
    proof cases
      case 1
      with k(1,2) keys_kinds(1) [OF ac(1)] obtain i where i: "i < length (items D v)" "k = show_nat i" by auto
      then have "w = unwrap (items D v ! i)" using prop_kinds(1) [OF ac(1) 1 i(1)] ac(2) k(3) by (simp add: well_shaped_def)
      then show ?thesis using 1 i(1) k(4) \<open>w \<in> S\<close> by (auto intro: visible.item)
    next
      case 2
      with k(1,2) keys_kinds(2) [OF ac(1)] have e: "exported k" "k \<in> fst ` set (fields D (type_of v))" by auto
      with 2 ac(2) obtain x where x: "field_named D v k = Some x"
        by (cases "field_named D v k") (auto simp: field_named_def well_shaped_def map_of_zip_is_None)
      then have "w = x" using prop_kinds(2) [OF ac(1) 2] k(3) by simp
      then show ?thesis using x e 2 k(4) \<open>w \<in> S\<close> by (auto intro: visible.field dest: map_of_SomeD simp: field_named_def)
    next
      case 3
      with k(1,2) keys_kinds(3) [OF ac(1)] obtain kv x where x: "(kv, x) \<in> set (entries H v)" "unwrap kv = VString TString k"
        by (auto simp: map_filter_def string_keyD)
      then have "w = unwrap x" using prop_kinds(3) [OF ac(1) 3] map_index_entry [OF _ x] ac(2) k(3) by (simp add: well_shaped_def)
      then show ?thesis using 3 x k(4) \<open>w \<in> S\<close> by (auto intro: visible.entry)
    qed (use k(2) in simp)
  qed
qed

lemma reaches_visible:
  assumes "acyclic_on D H S rank" and "v \<in> S"
  shows "reaches D H v w \<longleftrightarrow> (visible D H)\<^sup>+\<^sup>+ v w"
proof
  assume "reaches D H v w"
  then have "(visible D H)\<^sup>+\<^sup>+ v w \<and> w \<in> S" unfolding reaches_def
    by (induction rule: tranclp_induct) (use assms child_visible in \<open>blast intro: tranclp.intros\<close>)+
  then show "(visible D H)\<^sup>+\<^sup>+ v w" ..
next
  assume "(visible D H)\<^sup>+\<^sup>+ v w"
  then have "reaches D H v w \<and> w \<in> S" unfolding reaches_def
    by (induction rule: tranclp_induct) (use assms child_visible visible_child in \<open>blast intro: tranclp.intros\<close>)+
  then show "reaches D H v w" ..
qed

section \<open>Registered pointers\<close>

text \<open>A mux with the handlers of some pointers added.\<close>

definition with_ptrs :: "gheap \<Rightarrow> nat list \<Rightarrow> RespondMux \<Rightarrow> RespondMux" where
  "with_ptrs H ptrs mx = mx\<lparr>m := (\<lambda>p. case find (\<lambda>a. p = CHR ''/'' # ptr_id H a) ptrs of
     Some a \<Rightarrow> Some \<lparr>h = HFunc a, pattern = p\<rparr> | None \<Rightarrow> m mx p)\<rparr>"

text \<open>Pointers to functions, with distinct plain ids that the mux does not know, and no handler for the root pattern.\<close>

definition registrable :: "goprog \<Rightarrow> gheap \<Rightarrow> RespondMux \<Rightarrow> nat set \<Rightarrow> bool" where
  "registrable P H mx A \<longleftrightarrow> mux_inv mx \<and> (\<forall>e \<in> set (es mx). pattern e \<noteq> ''/'') \<and> inj_on (ptr_id H) A
     \<and> (\<forall>a \<in> A. ident (ptr_id H a) \<and> m mx (CHR ''/'' # ptr_id H a) = None
          \<and> ptr_field 2 H a \<noteq> VInvalid \<and> Kind (tdef P) (type_of (ptr_field 2 H a)) = KFunc)"

lemma ident_clean: "ident s \<Longrightarrow> cleanSelector s = CHR ''/'' # s"
  using ident_registered(1) [of s 0] by (simp add: registered_def)

lemma slash_prefix:
  assumes "ident s" and "pattern_ok p" and "last p = CHR ''/''" and "prefix p (CHR ''/'' # s)"
  shows "p = ''/''"
proof -
  obtain q where q: "p = CHR ''/'' # q" using assms(2) by (cases p) (auto simp: pattern_ok_def)
  with assms(4) have "set q \<subseteq> set s" by (auto simp: prefix_def)
  moreover have "q \<noteq> [] \<Longrightarrow> CHR ''/'' \<in> set q" using q assms(3) last_in_set [of q] by auto
  ultimately show ?thesis using assms(1) q by (auto simp: ident_def)
qed

lemma ident_no_prefix:
  assumes "ident s" and "mux_inv mx" and "\<forall>e \<in> set (es mx). pattern e \<noteq> ''/''"
  shows "find_prefix (CHR ''/'' # s) (es mx) = None"
proof -
  have "\<not> prefix (pattern e) (CHR ''/'' # s)" if "e \<in> set (es mx)" for e
    using that assms slash_prefix [OF assms(1), of "pattern e"] by (auto simp: mux_inv_def entry_ok_def)
  then show ?thesis by (simp add: find_prefix_None)
qed

lemma Match_plain:
  assumes "registrable P H mx A" and "a \<in> A" and "st r = with_ptrs H ptrs mx"
  shows "Match st r (ptr_id H a) = (case find (\<lambda>b. ptr_id H a = ptr_id H b) ptrs of
    Some b \<Rightarrow> Some (HFunc b, CHR ''/'' # ptr_id H a) | None \<Rightarrow> Some (HNil, []))"
  using assms ident_no_prefix [of "ptr_id H a" mx]
  by (subst Match_step [OF refl]) (auto simp: registrable_def with_ptrs_def ident_clean split: option.split)

lemma find_same_id:
  assumes "inj_on (ptr_id H) A" and "a \<in> A" and "set ptrs \<subseteq> A"
  shows "find (\<lambda>b. ptr_id H a = ptr_id H b) ptrs = (if a \<in> set ptrs then Some a else None)"
proof -
  have "(ptr_id H a = ptr_id H b) = (a = b)" if "b \<in> set ptrs" for b using assms that by (auto simp: inj_on_def)
  then have "find (\<lambda>b. ptr_id H a = ptr_id H b) ptrs = find (\<lambda>b. a = b) ptrs" by (rule find_cong [OF refl])
  also have "\<dots> = (if a \<in> set ptrs then Some a else None)" by (induction ptrs) auto
  finally show ?thesis .
qed

lemma find_without:
  assumes "inj_on (ptr_id H) A" and "a \<in> A" and "set ds \<subseteq> A"
  shows "find (\<lambda>b. p = CHR ''/'' # ptr_id H b) (filter (\<lambda>b. b \<noteq> a) ds)
    = (if p = CHR ''/'' # ptr_id H a then None else find (\<lambda>b. p = CHR ''/'' # ptr_id H b) ds)"
  using assms(3)
proof (induction ds)
  case (Cons b ds)
  have "b \<noteq> a \<Longrightarrow> ptr_id H a \<noteq> ptr_id H b" using assms(1,2) Cons.prems by (metis inj_onD list.set_intros(1) subsetD)
  moreover have "set ds \<subseteq> A" using Cons.prems by simp
  ultimately show ?case using Cons.IH by (cases "b = a"; cases "p = CHR ''/'' # ptr_id H a") simp_all
qed simp

lemma with_ptrs_snoc:
  assumes "registrable P H mx A" and "a \<in> A" and "set ptrs \<subseteq> A"
  shows "with_ptrs H (ptrs @ [a]) mx = (if a \<in> set ptrs then with_ptrs H ptrs mx
    else (with_ptrs H ptrs mx)\<lparr>m := (m (with_ptrs H ptrs mx))(CHR ''/'' # ptr_id H a \<mapsto> \<lparr>h = HFunc a, pattern = CHR ''/'' # ptr_id H a\<rparr>)\<rparr>)"
proof -
  have f: "find Q (xs @ [x]) = (case find Q xs of Some y \<Rightarrow> Some y | None \<Rightarrow> if Q x then Some x else None)" for Q xs and x :: nat
    by (induction xs) auto
  have s: "find (\<lambda>b. CHR ''/'' # ptr_id H a = CHR ''/'' # ptr_id H b) ptrs = (if a \<in> set ptrs then Some a else None)"
    using find_same_id [of H A a ptrs] assms by (simp add: registrable_def)
  show ?thesis using s by (auto simp: with_ptrs_def f fun_eq_iff split: option.split)
qed

lemma register_loop_ok:
  assumes "registrable P H mx A" and "set ds \<subseteq> A" and "set ptrs \<subseteq> A"
  shows "register_loop P H r ptrs (st(r := with_ptrs H ds mx)) = Some (Ok (st(r := with_ptrs H (ds @ ptrs) mx)))"
  using assms(2,3)
proof (induction ptrs arbitrary: ds)
  case (Cons a ptrs)
  from Cons.prems have a: "a \<in> A" by simp
  let ?st = "st(r := with_ptrs H ds mx)"
  have M: "Match ?st r (ptr_id H a) = (if a \<in> set ds then Some (HFunc a, CHR ''/'' # ptr_id H a) else Some (HNil, []))"
    using Match_plain [OF assms(1) a, of ?st r ds] find_same_id [of H A a ds] assms(1) a Cons.prems(1)
    by (simp add: registrable_def)
  have step: "register_loop P H r (a # ptrs) ?st = register_loop P H r ptrs (st(r := with_ptrs H (ds @ [a]) mx))"
  proof (cases "a \<in> set ds")
    case True
    with M with_ptrs_snoc [OF assms(1) a Cons.prems(1)] show ?thesis by simp
  next
    case False
    have f: "ident (ptr_id H a)" "Kind (tdef P) (type_of (ptr_field 2 H a)) = KFunc" "ptr_field 2 H a \<noteq> VInvalid"
      "m mx (CHR ''/'' # ptr_id H a) = None" using assms(1) a by (auto simp: registrable_def)
    then have "ptr_handler P H a = Ok (HFunc a)" by (simp add: ptr_handler_def HandlerFrom_def fromFunc_def)
    moreover have "m (with_ptrs H ds mx) (CHR ''/'' # ptr_id H a) = None"
      using f(4) find_same_id [of H A a ds] assms(1) a Cons.prems(1) False by (simp add: with_ptrs_def registrable_def)
    then have "Handle (ptr_id H a) (HFunc a) (with_ptrs H ds mx) = Inr (with_ptrs H (ds @ [a]) mx)"
      using ident_registered(1,2) [OF f(1)] with_ptrs_snoc [OF assms(1) a Cons.prems(1)] False
      by (simp add: Handle_cases Let_def with_ptrs_def)
    ultimately show ?thesis using M False by simp
  qed
  have "set (ds @ [a]) \<subseteq> A" "set ptrs \<subseteq> A" using Cons.prems by auto
  from Cons.IH [OF this] show ?case unfolding step append_assoc append_Cons append_Nil .
qed simp

lemma unregister_loop_ok:
  assumes "registrable P H mx A" and "set ds \<subseteq> A" and "set ptrs \<subseteq> A"
  shows "unregister_loop H r ptrs (st(r := with_ptrs H ds mx)) = Some (Ok (st(r := with_ptrs H (filter (\<lambda>a. a \<notin> set ptrs) ds) mx)))"
  using assms(2,3)
proof (induction ptrs arbitrary: ds)
  case (Cons a ptrs)
  from Cons.prems have a: "a \<in> A" by simp
  let ?st = "st(r := with_ptrs H ds mx)" and ?rest = "filter (\<lambda>b. b \<noteq> a) ds"
  have M: "Match ?st r (ptr_id H a) = (if a \<in> set ds then Some (HFunc a, CHR ''/'' # ptr_id H a) else Some (HNil, []))"
    using Match_plain [OF assms(1) a, of ?st r ds] find_same_id [of H A a ds] assms(1) a Cons.prems(1)
    by (simp add: registrable_def)
  have step: "unregister_loop H r (a # ptrs) ?st = unregister_loop H r ptrs (st(r := with_ptrs H ?rest mx))"
  proof (cases "a \<in> set ds")
    case True
    have f: "ident (ptr_id H a)" "m mx (CHR ''/'' # ptr_id H a) = None" using assms(1) a by (auto simp: registrable_def)
    have inj: "inj_on (ptr_id H) A" using assms(1) by (simp add: registrable_def)
    note F = find_without [OF inj a Cons.prems(1)]
    have "(m (with_ptrs H ds mx))(CHR ''/'' # ptr_id H a := None) = m (with_ptrs H ?rest mx)"
      by (rule ext) (simp add: with_ptrs_def F f(2))
    then have "snd (Remove (ptr_id H a) (with_ptrs H ds mx)) = with_ptrs H ?rest mx"
      using f(1) by (simp add: Remove_def ident_clean with_ptrs_def Let_def)
    with M True show ?thesis by simp
  next
    case False
    then have "?rest = ds" by (induction ds) auto
    with M False show ?thesis by simp
  qed
  have "filter (\<lambda>b. b \<notin> set (a # ptrs)) ds = filter (\<lambda>b. b \<notin> set ptrs) ?rest" by (induction ds) auto
  moreover have "set ?rest \<subseteq> A" "set ptrs \<subseteq> A" using Cons.prems by auto
  ultimately show ?case unfolding step by (simp only: Cons.IH)
qed simp

section \<open>Setting callers\<close>

text \<open>What every step of a visitor keeps, the walk keeps.\<close>

definition keeps :: "('s \<Rightarrow> bool) \<Rightarrow> 's \<Rightarrow> 's fnres \<Rightarrow> bool" where
  "keeps Q st r \<longleftrightarrow> (\<forall>st'. r = Ok st' \<longrightarrow> Q st \<longrightarrow> Q st')"

lemma walks_keeps:
  assumes "walks D vis v ks path st r" and "\<And>v parent path st. keeps Q st (vis v parent path st)"
  shows "keeps Q st r"
  using assms(1)
proof (induction rule: walks.induct)
  case (step st v k w path st1 ks1 st2 ks r)
  then show ?case using assms(2) [of st w v "path @ [k]"] by (simp add: keeps_def)
qed (auto simp: keeps_def is_ok_def)

lemma set_fnptr_keeps: "keeps (\<lambda>st. h_val (fst st) = hv \<and> prefix ids (snd st)) st (set_fnptr P c v parent path st)"
  by (auto simp: keeps_def set_fnptr_def SetMapIndex_def fn_bind_Ok_iff Let_def split: if_splits gval.splits)

text \<open>The addresses that hold \<^verbatim>\<open>Ptr\<close> structs, and what \<^verbatim>\<open>set_caller\<close> does to their fields.\<close>

definition is_ptr :: "gheap \<Rightarrow> nat \<Rightarrow> bool" where
  "is_ptr H a \<longleftrightarrow> (\<exists>t p c f. h_val H a = Some (VStruct t [p, c, f]))"

lemma set_caller_fields:
  assumes "is_ptr H a" and "is_ptr H b"
  shows "is_ptr (set_caller c a H) b" and "ptr_id (set_caller c a H) b = ptr_id H b"
    and "ptr_field 1 (set_caller c a H) b = (if b = a then c else ptr_field 1 H b)"
  using assms by (auto simp: is_ptr_def set_caller_def target_def ptr_id_def ptr_field_def)

lemma fold_set_caller:
  assumes "\<forall>a \<in> set ptrs. is_ptr H a" and "is_ptr H b"
  shows "ptr_id (fold (set_caller c) ptrs H) b = ptr_id H b
    \<and> ptr_field 1 (fold (set_caller c) ptrs H) b = (if b \<in> set ptrs then c else ptr_field 1 H b)"
  using assms by (induction ptrs arbitrary: H) (auto simp: set_caller_fields set_caller_fields(3) [unfolded One_nat_def])

lemma ptr_fields_cong:
  assumes "h_val H' = h_val H"
  shows "ptr_id H' a = ptr_id H a" and "ptr_field i H' a = ptr_field i H a"
  using assms by (simp_all add: ptr_id_def ptr_field_def target_def)

text \<open>A struct with one pointer to a callback, for the witnesses.\<close>

definition ptr_prog :: goprog where
  "ptr_prog = sample_prog\<lparr>tdef := (\<lambda>n. if n = ''exp.Ptr'' then ptr_struct
     else if n = ''main.T'' then TStruct [(''Fn'', [], ptrType)] else TStruct [(''Next'', [], TPtr (TNamed n))])\<rparr>"

definition ptr_heap :: gheap where
  "ptr_heap = \<lparr>h_val = [0 \<mapsto> Ptr ''c1'' VInvalid (VFunc (TFunc [] []) 0), 1 \<mapsto> VStruct (TNamed ''main.N'') [VPtr (TPtr (TNamed ''main.N'')) 1]],
     h_map = Map.empty\<rparr>"

definition ptr_value :: gval where
  "ptr_value = VStruct (TNamed ''main.T'') [VPtr ptrType 0]"

lemma ptr_value_PtrsFrom: "PtrsFrom (tdef ptr_prog) ptr_heap ptr_value = Some (Ok [0])"
  by code_simp

lemma ptr_value_registrable: "registrable ptr_prog ptr_heap NewRespondMux (set [0])"
  using New_mux_inv
  by (simp add: registrable_def NewRespondMux_def ident_def ptr_id_def ptr_field_def ptr_heap_def target_def Ptr_def string_data_def)

section \<open>Properties\<close>

text \<open>
  C33: on a value without cycles \<^verbatim>\<open>PtrsFrom\<close> returns without a panic, and finds exactly the pointers to \<^verbatim>\<open>Ptr\<close> structs that can be reached from the value through exported
  struct fields, slice and array elements, string-keyed map entries and pointers.
\<close>

theorem PtrsFrom_finds_all:
  assumes "acyclic_on D H S rank" and "v \<in> S"
  shows "\<exists>ptrs. PtrsFrom D H v = Some (Ok ptrs) \<and> set ptrs = {a. (visible D H)\<^sup>+\<^sup>+ v (VPtr ptrType a)}"
proof -
  obtain ks where ks: "keys D H v = Some (Ok ks)" "\<forall>k \<in> set ks. leads_down D H S rank v k"
    using keys_total [OF assms] by blast
  obtain ns where ns: "walk_keys D collect v ks [] (H, []) = Some (Ok (H, [] @ ns))"
    using walk_collect_total [OF assms ks(2), of "[]" "[]"] by blast
  then have "set ns = collected D H v ks" using walks_collect [OF walk_keys_walks [OF ns] refl] by simp
  moreover have "PtrsFrom D H v = Some (Ok ns)" using ks(1) ns by (simp add: PtrsFrom_def walk_def)
  ultimately show ?thesis using reaches_keys [OF ks(1)] reaches_visible [OF assms] by (auto simp: collected_def)
qed

theorem PtrsFrom_finds_all_witness:
  "\<exists>ptrs. PtrsFrom (tdef ptr_prog) ptr_heap ptr_value = Some (Ok ptrs) \<and> 0 \<in> set ptrs"
proof -
  let ?D = "tdef ptr_prog" and ?s = "Ptr ''c1'' VInvalid (VFunc (TFunc [] []) 0)"
  let ?fs = "{VString TString ''c1'', VIface (TIface ''rpc.Caller'') VInvalid, VIface TAny (VFunc (TFunc [] []) 0)}"
  let ?S = "{ptr_value, VPtr ptrType 0, ?s} \<union> ?fs"
  let ?rank = "\<lambda>v. if v = ptr_value then 3 else if v = VPtr ptrType 0 then 2 else if v = ?s then 1 else (0 :: nat)"
  have "acyclic_on ?D ptr_heap ?S ?rank"
    by (simp add: acyclic_on_def well_shaped_def inside_def ptr_value_def Ptr_def field_values_def fields_def underlying_def ptr_prog_def
        ptr_heap_def items_def entries_def target_def array_len_def ptrType_def ptr_struct_def)
  from PtrsFrom_finds_all [OF this, of ptr_value] obtain ptrs where
    p: "PtrsFrom ?D ptr_heap ptr_value = Some (Ok ptrs)" "set ptrs = {a. (visible ?D ptr_heap)\<^sup>+\<^sup>+ ptr_value (VPtr ptrType a)}" by auto
  have "visible ?D ptr_heap ptr_value (VPtr ptrType 0)"
    by (rule visible.field [where n = "''Fn''"])
       (simp_all add: ptr_value_def ptr_prog_def fields_def underlying_def field_values_def exported_def upper_def)
  with p show ?thesis by auto
qed



text \<open>
  After \<^verbatim>\<open>SetCallers\<close>, \<^verbatim>\<open>Call\<close> on any of the pointers found in the value goes to the given caller, with the pointer's id as the selector, and the ids are among those
  returned; it does not panic any more.
\<close>

theorem SetCallers_sets:
  assumes "SetCallers P H v c = Some (Ok (H', ids))" and "PtrsFrom (tdef P) H v = Some (Ok ptrs)"
    and "\<forall>a \<in> set ptrs. is_ptr H a" and "c \<noteq> VInvalid"
  shows "\<forall>a \<in> set ptrs. ptr_Call H' a = Ok (c, ptr_id H a) \<and> ptr_id H a \<in> set ids"
proof
  fix a assume a: "a \<in> set ptrs"
  let ?H1 = "fold (set_caller c) ptrs H" and ?ids = "map (ptr_id H) ptrs"
  from assms(1,2) obtain ks where "walk_keys (tdef P) (set_fnptr P c) v ks [] (?H1, ?ids) = Some (Ok (H', ids))"
    by (auto simp: SetCallers_def walk_def bind_fnres_Ok)
  from walks_keeps [OF walk_keys_walks [OF this], of "\<lambda>st. h_val (fst st) = h_val ?H1 \<and> prefix ?ids (snd st)", OF set_fnptr_keeps]
  have "h_val H' = h_val ?H1" "prefix ?ids ids" by (simp_all add: keeps_def)
  moreover have "ptr_id ?H1 a = ptr_id H a \<and> ptr_field 1 ?H1 a = c"
    using fold_set_caller [OF assms(3), of a c] assms(3) a by simp
  ultimately show "ptr_Call H' a = Ok (c, ptr_id H a) \<and> ptr_id H a \<in> set ids"
    using assms(4) a ptr_fields_cong [of H' ?H1] by (auto simp: ptr_Call_def prefix_def)
qed

theorem SetCallers_sets_witness:
  "\<exists>H' ids. SetCallers ptr_prog ptr_heap ptr_value (VBool TBool True) = Some (Ok (H', ids)) \<and> ptr_Call H' 0 = Ok (VBool TBool True, ''c1'')"
proof -
  have "case SetCallers ptr_prog ptr_heap ptr_value (VBool TBool True) of Some (Ok _) \<Rightarrow> True | _ \<Rightarrow> False" by code_simp
  then obtain H' ids where s: "SetCallers ptr_prog ptr_heap ptr_value (VBool TBool True) = Some (Ok (H', ids))"
    by (auto split: option.splits fnres.splits)
  have "\<forall>a \<in> set [0]. is_ptr ptr_heap a" "ptr_id ptr_heap 0 = ''c1''"
    by (simp_all add: is_ptr_def ptr_heap_def Ptr_def ptr_id_def ptr_field_def target_def string_data_def)
  with SetCallers_sets [OF s ptr_value_PtrsFrom] s show ?thesis by auto
qed

text \<open>
  A value that contains itself: a struct with an exported pointer field that points back to it. \<^verbatim>\<open>PtrsFrom\<close>, and with it every function of the package,
  recurses for ever.
\<close>

theorem PtrsFrom_cycle_diverges:
  assumes "D T = TStruct [(n, tag, TPtr (TNamed T))]" and "exported n" and "T \<noteq> ''exp.Ptr''"
    and "h_val H a = Some (VStruct (TNamed T) [VPtr (TPtr (TNamed T)) a])"
  shows "PtrsFrom D H (VPtr (TPtr (TNamed T)) a) = None"
proof -
  let ?p = "VPtr (TPtr (TNamed T)) a" and ?s = "VStruct (TNamed T) [VPtr (TPtr (TNamed T)) a]"
  have f: "fields D (TNamed T) = [(n, tag, TPtr (TNamed T))]" "Kind D (TNamed T) = KStruct"
    using assms(1) by (simp_all add: fields_def underlying_def)
  have t: "target H a = ?s" using assms(4) by (simp add: target_def)
  have k: "keys D H ?p = Some (Ok [n])"
    using f assms(2) keys_kinds(2) [of ?s D H] t by (simp add: ptr_kinds)
  have q: "prop_of D H ?p n = Some (Ok ?p)"
    using f prop_kinds(2) [of ?s D n ?p H] t by (simp add: ptr_kinds field_named_def field_values_def)
  have c: "collect ?p v path st = Ok st" for v path st using assms(3) by (simp add: collect_def ptrType_def)
  have "\<not> (v = ?p \<and> ks = [n] \<and> fst st = H)" if "walks D collect v ks path st r" for v ks path st r
    using that by (induction rule: walks.induct) (auto simp: q k c)
  then have "walk_keys D collect ?p [n] [] (H, []) \<noteq> Some r" for r using walk_keys_walks by fastforce
  then have "walk_keys D collect ?p [n] [] (H, []) = None" by (metis not_Some_eq)
  then show ?thesis by (simp add: PtrsFrom_def walk_def k)
qed

theorem PtrsFrom_cycle_diverges_witness:
  "PtrsFrom (tdef ptr_prog) ptr_heap (VPtr (TPtr (TNamed ''main.N'')) 1) = None"
  by (rule PtrsFrom_cycle_diverges [where n = "''Next''" and tag = "[]"])
     (simp_all add: ptr_prog_def ptr_heap_def exported_def upper_def)

text \<open>
  On a mux with a handler for the root pattern, such as the one \<^verbatim>\<open>fn.HandlerFrom\<close> makes for a struct that is a handler itself, \<^verbatim>\<open>RegisterPtrs\<close> registers
  nothing: every id already matches that handler, which then gets the calls meant for the callbacks.
\<close>

theorem RegisterPtrs_catch_all:
  assumes "PtrsFrom (tdef P) H v = Some (Ok ptrs)" and "\<forall>a \<in> set ptrs. ident (ptr_id H a) \<and> m (st r) (''/'' @ ptr_id H a) = None"
    and "mux_inv (st r)" and "\<lparr>h = HFunc f, pattern = ''/''\<rparr> \<in> set (es (st r))"
    and "\<forall>e \<in> set (es (st r)). pattern e = ''/'' \<longrightarrow> h e = HFunc f"
  shows "RegisterPtrs P H r v st = Some (Ok st) \<and> (\<forall>a \<in> set ptrs. Match st r (ptr_id H a) = Some (HFunc f, ''/''))"
proof -
  have M: "Match st r (ptr_id H a) = Some (HFunc f, ''/'')" if "a \<in> set ptrs" for a
  proof -
    let ?s = "CHR ''/'' # ptr_id H a"
    from assms(2) that have i: "ident (ptr_id H a)" "m (st r) ?s = None" by auto
    have "prefix ''/'' ?s" by simp
    then obtain e where e: "find_prefix ?s (es (st r)) = Some e"
      using assms(4) find_prefix_None [of ?s "es (st r)"] by (cases "find_prefix ?s (es (st r))") auto
    have "sorted_wrt longer (es (st r))" using assms(3) by (simp add: mux_inv_def)
    from lp.find_Some [OF this e] have "e \<in> set (es (st r))" "prefix (pattern e) ?s" by auto
    moreover from this(1) assms(3) have "pattern_ok (pattern e)" "last (pattern e) = CHR ''/''" by (auto simp: mux_inv_def entry_ok_def)
    ultimately have "pattern e = ''/''" using i(1) slash_prefix by blast
    with e i assms(5) \<open>e \<in> set (es (st r))\<close> show ?thesis
      by (subst Match_step [OF refl]) (simp add: ident_clean)
  qed
  have "register_loop P H r xs st = Some (Ok st)" if "set xs \<subseteq> set ptrs" for xs
    using that by (induction xs) (simp_all add: M)
  with M assms(1) show ?thesis by (simp add: RegisterPtrs_def)
qed

theorem RegisterPtrs_catch_all_witness:
  "\<exists>mx. Handle ''/'' (HFunc 7) NewRespondMux = Inr mx
     \<and> RegisterPtrs ptr_prog ptr_heap 0 ptr_value (\<lambda>_. mx) = Some (Ok (\<lambda>_. mx)) \<and> Match (\<lambda>_. mx) 0 ''c1'' = Some (HFunc 7, ''/'')"
proof -
  let ?e = "\<lparr>h = HFunc 7, pattern = ''/''\<rparr>"
  let ?mx = "NewRespondMux\<lparr>m := [''/'' \<mapsto> ?e], es := [?e]\<rparr>"
  have H: "Handle ''/'' (HFunc 7) NewRespondMux = Inr ?mx"
    by (simp add: Handle_def cleanSelector_def dots_to_slashes_def appendSorted_def sort_Search_def sort_search_loop.simps NewRespondMux_def Let_def)
  have "ptr_id ptr_heap 0 = ''c1''" by code_simp
  with RegisterPtrs_catch_all [OF ptr_value_PtrsFrom, where st = "\<lambda>_. ?mx" and r = 0 and f = 7] Handle_inv [OF New_mux_inv H] H
  show ?thesis by (auto simp: ident_def)
qed

end
