(* ===== verification/Cli_Framework.thy ===== *)
theory Cli_Framework
  imports Cli_Help Exp_Ptr
begin

text \<open>
  The rest of \<^verbatim>\<open>src/cmd/qtalk/cli\<close>: the context with the standard streams (\<^verbatim>\<open>context.go\<close>), \<^verbatim>\<open>Framework\<close> and \<^verbatim>\<open>Export\<close> (\<^verbatim>\<open>framework.go\<close>), and the
  command tree of the tool (\<^verbatim>\<open>src/cmd/qtalk/main.go\<close> and the command literals of \<^verbatim>\<open>call.go\<close>, \<^verbatim>\<open>interop.go\<close>, \<^verbatim>\<open>check.go\<close> and \<^verbatim>\<open>bench.go\<close>). Streams are
  named by numbers. \<^verbatim>\<open>Export\<close> calls functions by reflection, on the values of \<open>Go_Value\<close>. \<^verbatim>\<open>log.Fatal\<close> is the result \<open>Err\<close>.

  The lemmas show how the tool's command line is dispatched, and that an exported function is only called with arguments of its own types.
\<close>

section \<open>Contexts\<close>

record iocontext =
  io_out :: nat
  io_err :: nat
  io_in :: nat

datatype ctx_value = IOValue iocontext | OtherValue

datatype go_context = Background | WithValue go_context string ctx_value

fun Value :: "go_context \<Rightarrow> string \<Rightarrow> ctx_value option" where
  "Value Background key = None"
| "Value (WithValue ctx k v) key = (if k = key then Some v else Value ctx key)"

definition IOContextKey :: string where "IOContextKey = ''io''"

definition ContextWithIO :: "go_context \<Rightarrow> nat \<Rightarrow> nat \<Rightarrow> nat \<Rightarrow> go_context" where
  "ContextWithIO ctx inp outp errp = WithValue ctx IOContextKey (IOValue \<lparr>io_out = outp, io_err = errp, io_in = inp\<rparr>)"

text \<open>A value under the key that is not a \<^verbatim>\<open>ContextIO\<close> makes the type assertion panic.\<close>

definition IOFrom :: "go_context \<Rightarrow> iocontext option fnres" where
  "IOFrom ctx =
     (case Value ctx IOContextKey of
        None \<Rightarrow> Ok None
      | Some (IOValue io) \<Rightarrow> Ok (Some io)
      | Some OtherValue \<Rightarrow> Panic ''interface conversion'')"

text \<open>The streams that \<^verbatim>\<open>Execute\<close> prints to.\<close>

definition Execute_streams :: "nat \<Rightarrow> nat \<Rightarrow> go_context \<Rightarrow> (nat \<times> nat) fnres" where
  "Execute_streams Stdout Stderr ctx =
     fn_bind (IOFrom ctx) (\<lambda>x. case x of None \<Rightarrow> Ok (Stdout, Stderr) | Some io \<Rightarrow> Ok (io_out io, io_err io))"

lemma Execute_streams_io: "Execute_streams so se (ContextWithIO ctx i o' e) = Ok (o', e)"
  by (simp add: Execute_streams_def IOFrom_def ContextWithIO_def)

section \<open>Framework\<close>

text \<open>A runner is the framework itself or returns a result.\<close>

datatype runner = Self | Runner "go_error option"

record framework =
  DefaultRunner :: runner
  Initializers :: "(nat \<Rightarrow> cmds \<Rightarrow> cmds) list"
  Root :: nat

definition bare_command :: Command where
  "bare_command = \<lparr>Usage = [], Short = [], Long = [], Hidden = False, Aliases = [], Example = [], Version = [], Args = None,
     Run = False, commands = [], parent = None, flags = []\<rparr>"

text \<open>\<^verbatim>\<open>Initialize\<close> with the reference of the new root, and what running that root does.\<close>

definition Initialize :: "nat \<Rightarrow> framework \<Rightarrow> cmds \<Rightarrow> framework \<times> cmds" where
  "Initialize r f st =
     (f\<lparr>Root := r\<rparr>, fold (\<lambda>i. i r) (Initializers f) (st(r := bare_command\<lparr>Run := True\<rparr>)))"

definition root_Run :: "framework \<Rightarrow> unit fnres" where
  "root_Run f =
     (case DefaultRunner f of
        Self \<Rightarrow> Panic ''only runner is cli.Framework''
      | Runner (Some e) \<Rightarrow> Err e
      | Runner None \<Rightarrow> Ok ())"

definition Framework_Run ::
    "(nat \<Rightarrow> Flag list \<Rightarrow> string list \<Rightarrow> parsed) \<Rightarrow> framework \<Rightarrow> cmds \<Rightarrow> string list \<Rightarrow> outcome \<times> cmds" where
  "Framework_Run parse f st os_args = Execute parse st (Root f) (tl os_args)"

section \<open>Export\<close>

definition Export :: "goprog \<Rightarrow> gval \<Rightarrow> string \<Rightarrow> Command fnres" where
  "Export P fn use =
     (if Kind (tdef P) (type_of fn) \<noteq> KFunc then Panic ''can only export funcs''
      else Ok (bare_command\<lparr>Usage := use, Args := Some (ExactArgs (int (length (ins_of (tdef P) (type_of fn))))), Run := True\<rparr>))"

definition atoi_error :: "string \<Rightarrow> go_error" where
  "atoi_error s =
     (let ds = (if s \<noteq> [] \<and> (hd s = CHR ''-'' \<or> hd s = CHR ''+'') then tl s else s)
      in ErrorString (''strconv.Atoi: parsing '' @ Quote s
           @ (if ds \<noteq> [] \<and> digits_value 0 ds \<noteq> None then '': value out of range'' else '': invalid syntax'')))"

definition export_arg :: "goprog \<Rightarrow> gtype \<Rightarrow> string \<Rightarrow> gval fnres" where
  "export_arg P t arg =
     (case Kind (tdef P) t of
        KString \<Rightarrow> Ok (VString TString arg)
      | KInteger IInt \<Rightarrow> (case Atoi arg of None \<Rightarrow> Err (atoi_error arg) | Some i \<Rightarrow> Ok (VInt (TInteger IInt) i))
      | k \<Rightarrow> Panic (''argument kind not supported: '' @ kind_String k))"

text \<open>The loop over the parameters; \<^verbatim>\<open>args[n]\<close> out of range panics.\<close>

fun export_args :: "goprog \<Rightarrow> string list \<Rightarrow> nat \<Rightarrow> gtype list \<Rightarrow> gval list fnres" where
  "export_args P args n [] = Ok []"
| "export_args P args n (t # ts) =
     (if n < length args
      then fn_bind (export_arg P t (args ! n)) (\<lambda>v. fn_bind (export_args P args (n + 1) ts) (\<lambda>vs. Ok (v # vs)))
      else if Kind (tdef P) t \<in> {KString, KInteger IInt} then Panic ''index out of range''
      else Panic (''argument kind not supported: '' @ kind_String (Kind (tdef P) t)))"

definition Export_Run :: "goprog \<Rightarrow> gval \<Rightarrow> string list \<Rightarrow> gval list fnres" where
  "Export_Run P fn args = fn_bind (export_args P args 0 (ins_of (tdef P) (type_of fn))) (Value_Call P fn)"

section \<open>The tool\<close>

definition callCmd :: Command where
  "callCmd = bare_command\<lparr>Usage := ''call'', Short := ''call a remote function'', Args := Some (MinArgs 1), Run := True\<rparr>"

definition interopCmd :: Command where
  "interopCmd = bare_command\<lparr>Usage := ''interop'', Short := ''run interop service'', Args := Some (MaxArgs 1), Run := True\<rparr>"

definition checkCmd :: Command where
  "checkCmd = bare_command\<lparr>Usage := ''check'', Short := ''check interop'', Run := True\<rparr>"

definition benchCmd :: Command where
  "benchCmd = bare_command\<lparr>Usage := ''bench'', Short := ''interop benchmark'', Run := True\<rparr>"

definition qtalk_cmds :: cmds where
  "qtalk_cmds = (\<lambda>r. if r = 1 then callCmd else if r = 2 then interopCmd else if r = 3 then checkCmd else if r = 4 then benchCmd
     else bare_command\<lparr>Usage := ''qtalk'', Long := ''qtalk is a utility for working with the qtalk protocol stack''\<rparr>)"

definition main_tree :: "cmds option" where
  "main_tree = Option.bind (AddCommand 0 1 qtalk_cmds) (\<lambda>st. Option.bind (AddCommand 0 2 st)
     (\<lambda>st. Option.bind (AddCommand 0 3 st) (AddCommand 0 4)))"

text \<open>\<^verbatim>\<open>main\<close>: an error of \<^verbatim>\<open>Execute\<close> goes to \<^verbatim>\<open>log.Fatal\<close>.\<close>

definition main :: "(nat \<Rightarrow> Flag list \<Rightarrow> string list \<Rightarrow> parsed) \<Rightarrow> string list \<Rightarrow> outcome option" where
  "main parse os_args = map_option (\<lambda>st. fst (Execute parse st 0 (tl os_args))) main_tree"

section \<open>The tree of the tool\<close>

lemma main_tree_Some:
  obtains st where "main_tree = Some st" and "commands (st 0) = [1, 2, 3, 4]" and "Version (st 0) = []" and "\<not> Run (st 0)" and "Args (st 0) = None"
    "\<forall>r. flags (st r) = []" "\<forall>r. r \<noteq> 0 \<longrightarrow> commands (st r) = [] \<and> Name (st r) = Name (qtalk_cmds r) \<and> Aliases (st r) = []
       \<and> Args (st r) = Args (qtalk_cmds r) \<and> Run (st r) = Run (qtalk_cmds r)"
proof -
  let ?st = "(\<lambda>r. if r = 0 then (qtalk_cmds 0)\<lparr>commands := [1, 2, 3, 4]\<rparr> else if r \<le> 4 then (qtalk_cmds r)\<lparr>parent := Some 0\<rparr> else qtalk_cmds r)"
  have "main_tree = Some ?st" by (auto simp: main_tree_def AddCommand_def Let_def qtalk_cmds_def bare_command_def fun_eq_iff)
  then show ?thesis
    by (rule that) (auto simp: qtalk_cmds_def bare_command_def callCmd_def interopCmd_def checkCmd_def benchCmd_def Name_def)
qed

text \<open>Arguments that do not begin with a flag.\<close>

definition plain :: "string list \<Rightarrow> bool" where
  "plain as \<longleftrightarrow> as = [] \<or> take 1 (hd as) \<noteq> ''-''"

lemma Execute_at:
  assumes "Version (st rt) = []" and "Find st rt args = (cmd, n)" and "n \<le> length args" and "flags (st cmd) = []"
    and "parse cmd [] (drop n args) = Parsed rest False"
  shows "fst (Execute parse st rt args) =
    (case Option.bind (Args (st cmd)) (\<lambda>a. check_args a rest) of
       Some e \<Rightarrow> ExecErr e
     | None \<Rightarrow> if \<not> Run (st cmd) then ExecHelp cmd else ExecRun cmd rest)"
  using assms by (auto simp: Execute_def Let_def split: option.split)

text \<open>The command that the first argument names.\<close>

lemma Find_tool:
  assumes "commands (st 0) = [1, 2, 3, 4]" and "\<And>r. r \<noteq> 0 \<Longrightarrow> commands (st r) = [] \<and> Name (st r) = Name (qtalk_cmds r) \<and> Aliases (st r) = []"
  shows "Find st 0 (a # as) = (if a = ''call'' then (1, 1) else if a = ''interop'' then (2, 1)
    else if a = ''check'' then (3, 1) else if a = ''bench'' then (4, 1) else (0, 0))"
proof -
  have n: "Name (qtalk_cmds 1) = ''call''" "Name (qtalk_cmds 2) = ''interop''" "Name (qtalk_cmds 3) = ''check''" "Name (qtalk_cmds 4) = ''bench''"
    by (simp_all add: qtalk_cmds_def callCmd_def interopCmd_def checkCmd_def benchCmd_def bare_command_def Name_def)
  have stop: "find_loop st r 1 as = (r, 1)" if "r \<noteq> 0" for r using assms(2) [OF that] by (cases as) simp_all
  have nm: "Name (st 1) = ''call''" "Name (st 2) = ''interop''" "Name (st 3) = ''check''" "Name (st 4) = ''bench''"
    using assms(2) [of 1] assms(2) [of 2] assms(2) [of 3] assms(2) [of 4] n by simp_all
  have al: "Aliases (st 1) = []" "Aliases (st 2) = []" "Aliases (st 3) = []" "Aliases (st 4) = []"
    using assms(2) [of 1] assms(2) [of 2] assms(2) [of 3] assms(2) [of 4] by simp_all
  have s: "findSub st [1, 2, 3, 4] a = (if a = ''call'' then Some 1 else if a = ''interop'' then Some 2
      else if a = ''check'' then Some 3 else if a = ''bench'' then Some 4 else None)"
    unfolding findSub.simps nm al by auto
  have "Find st 0 (a # as) = (case findSub st [1, 2, 3, 4] a of Some cc \<Rightarrow> find_loop st cc 1 as | None \<Rightarrow> (0, 0))"
    by (simp add: Find_def assms(1))
  then show ?thesis unfolding s using stop [of 1] stop [of 2] stop [of 3] stop [of 4] by auto
qed

section \<open>Exported functions\<close>

definition plain_param :: "gtype \<Rightarrow> bool" where
  "plain_param t \<longleftrightarrow> t = TString \<or> t = TInteger IInt"

definition param_value :: "gtype \<Rightarrow> string \<Rightarrow> gval" where
  "param_value t a = (if t = TString then VString TString a else VInt (TInteger IInt) (the (Atoi a)))"

definition bad_number :: "gtype \<Rightarrow> string \<Rightarrow> bool" where
  "bad_number t a \<longleftrightarrow> t = TInteger IInt \<and> Atoi a = None"

lemma export_arg_plain:
  assumes "plain_param t"
  shows "export_arg P t a = (if bad_number t a then Err (atoi_error a) else Ok (param_value t a))"
  using assms by (auto simp: plain_param_def export_arg_def bad_number_def param_value_def split: option.split)

lemma export_args_plain:
  assumes "list_all plain_param ts" and "length args = n + length ts"
  shows "if list_all2 (\<lambda>t a. \<not> bad_number t a) ts (drop n args)
    then export_args P args n ts = Ok (map2 param_value ts (drop n args)) else (\<exists>e. export_args P args n ts = Err e)"
  using assms
proof (induction ts arbitrary: n)
  case Nil
  then show ?case by simp
next
  case (Cons t ts)
  then have d: "drop n args = args ! n # drop (Suc n) args" "n < length args" by (simp_all add: Cons_nth_drop_Suc)
  from Cons.IH [of "n + 1"] Cons.prems d show ?case by (auto simp: export_arg_plain split: if_splits)
qed

lemma Execute_checked:
  assumes "Execute parse st rt args = (ExecRun cmd rest, st')" and "Args (st cmd) = Some a"
  shows "check_args a rest = None"
proof -
  obtain c1 where c1: "(if Version (st rt) \<noteq> [] then add_v_flag (st rt) else Some (st rt)) = Some c1"
    using assms(1) by (auto simp: Execute_def split: option.splits)
  then have A: "Args ((st(rt := c1)) c) = Args (st c)" for c by (auto simp: add_v_flag_def split: if_splits)
  obtain cmd' n where f: "Find (st(rt := c1)) rt args = (cmd', n)" by fastforce
  from assms(1) f have "cmd' = cmd" and "Option.bind (Args ((st(rt := c1)) cmd)) (\<lambda>a. check_args a rest) = None"
    unfolding Execute_def c1 by (auto simp: Let_def simp del: fun_upd_apply split: parsed.splits if_splits option.splits)
  then show ?thesis using A assms(2) by simp
qed

text \<open>A parameter of a defined type, say \<^verbatim>\<open>type id int\<close>, has the kind \<^verbatim>\<open>int\<close>, but the value that the loop makes has type \<^verbatim>\<open>int\<close>: the call panics.\<close>

lemma export_defined_type_panics:
  assumes "ins_of (tdef P) ft = [TNamed n]" and "tdef P n = TInteger IInt" and "Atoi a = Some i"
  shows "\<exists>msg. Export_Run P (VFunc ft k) [a] = Panic msg"
  using assms by (simp add: Export_Run_def export_arg_def Value_Call_def AssignableTo_def underlying_def is_named_def Kind_def)

section \<open>Properties\<close>

text \<open>
  C38: the command line of the tool, for a flag parser that leaves arguments alone which do not begin with a flag: which command runs with which arguments, which argument
  counts are errors, and that everything else prints the help of the root.
\<close>

theorem qtalk_dispatch:
  assumes "\<forall>c as. plain as \<longrightarrow> parse c [] as = Parsed as False"
  shows "main parse [exe] = Some (ExecHelp 0)
    \<and> (plain (a # as) \<and> a \<notin> {''call'', ''interop'', ''check'', ''bench''} \<longrightarrow> main parse (exe # a # as) = Some (ExecHelp 0))
    \<and> (plain as \<longrightarrow>
         main parse (exe # ''call'' # as) = Some (if as = [] then ExecErr (ErrorString ''requires at least 1 arg(s), only received 0'') else ExecRun 1 as)
       \<and> main parse (exe # ''interop'' # as) = Some (if length as > 1
           then ExecErr (ErrorString (''accepts at most 1 arg(s), received '' @ show_nat (length as))) else ExecRun 2 as)
       \<and> main parse (exe # ''check'' # as) = Some (ExecRun 3 as) \<and> main parse (exe # ''bench'' # as) = Some (ExecRun 4 as))"
proof -
  obtain st where st: "main_tree = Some st" "commands (st 0) = [1, 2, 3, 4]" "Version (st 0) = []" "\<not> Run (st 0)" "Args (st 0) = None"
    "\<forall>r. flags (st r) = []" "\<forall>r. r \<noteq> 0 \<longrightarrow> commands (st r) = [] \<and> Name (st r) = Name (qtalk_cmds r) \<and> Aliases (st r) = []
       \<and> Args (st r) = Args (qtalk_cmds r) \<and> Run (st r) = Run (qtalk_cmds r)"
    by (rule main_tree_Some)
  have m: "main parse (exe # args) = Some (fst (Execute parse st 0 args))" for args unfolding main_def st(1) by simp
  have f: "Find st 0 (b # bs) = (if b = ''call'' then (1, 1) else if b = ''interop'' then (2, 1)
      else if b = ''check'' then (3, 1) else if b = ''bench'' then (4, 1) else (0, 0))" for b bs
    by (rule Find_tool [where st = st]) (use st(2,7) in auto)
  have sub: "fst (Execute parse st 0 (b # as)) = (case Option.bind (Args (qtalk_cmds r)) (\<lambda>x. check_args x as) of
      Some e \<Rightarrow> ExecErr e | None \<Rightarrow> if \<not> Run (qtalk_cmds r) then ExecHelp r else ExecRun r as)"
    if "Find st 0 (b # as) = (r, 1)" "r \<noteq> 0" "plain as" for b r
    using Execute_at [of st 0 "b # as" r 1 parse as] that st(3,6,7) assms by simp
  have d: "show_nat (Suc 0) = ''1''" "show_nat 0 = ''0''" by code_simp+
  have "fst (Execute parse st 0 []) = ExecHelp 0"
    using Execute_at [of st 0 "[]" 0 0 parse "[]"] st(3-6) assms by (simp add: Find_def plain_def)
  moreover have "fst (Execute parse st 0 (a # as)) = ExecHelp 0" if "plain (a # as)" "a \<notin> {''call'', ''interop'', ''check'', ''bench''}"
    using Execute_at [of st 0 "a # as" 0 0 parse "a # as"] st(3-6) assms that f [of a as] by simp
  moreover have "plain as \<longrightarrow> fst (Execute parse st 0 (''call'' # as))
      = (if as = [] then ExecErr (ErrorString ''requires at least 1 arg(s), only received 0'') else ExecRun 1 as)"
    using sub [of "''call''" 1] f by (auto simp: qtalk_cmds_def callCmd_def bare_command_def show_int_def neq_Nil_conv d)
  moreover have "plain as \<longrightarrow> fst (Execute parse st 0 (''interop'' # as)) = (if length as > 1
      then ExecErr (ErrorString (''accepts at most 1 arg(s), received '' @ show_nat (length as))) else ExecRun 2 as)"
    using sub [of "''interop''" 2] f by (auto simp: qtalk_cmds_def interopCmd_def bare_command_def show_int_def d)
  moreover have "plain as \<longrightarrow> fst (Execute parse st 0 (''check'' # as)) = ExecRun 3 as"
    using sub [of "''check''" 3] f by (simp add: qtalk_cmds_def checkCmd_def bare_command_def)
  moreover have "plain as \<longrightarrow> fst (Execute parse st 0 (''bench'' # as)) = ExecRun 4 as"
    using sub [of "''bench''" 4] f by (simp add: qtalk_cmds_def benchCmd_def bare_command_def)
  ultimately show ?thesis by (simp add: m)
qed

theorem qtalk_dispatch_witness:
  "main (\<lambda>c fs as. Parsed as False) [''qtalk'', ''call'', ''tcp://x''] = Some (ExecRun 1 [''tcp://x''])"
proof -
  have "plain [''tcp://x'']" by (simp add: plain_def)
  with qtalk_dispatch [of "\<lambda>c fs as. Parsed as False" "''qtalk''" _ "[''tcp://x'']"] show ?thesis by simp
qed

text \<open>
  A function exported as a command, with parameters of the types \<^verbatim>\<open>string\<close> and \<^verbatim>\<open>int\<close>. When \<^verbatim>\<open>Execute\<close> runs it, there are as many arguments as parameters; if an argument for an
  \<^verbatim>\<open>int\<close> is not a number in range, the command ends in \<^verbatim>\<open>log.Fatal\<close> and the function is not called; otherwise it is called with the arguments, each converted to the type of its parameter. No index is out of range and the call itself does not panic.
\<close>

theorem export_runs_function:
  assumes "Execute parse st rt args = (ExecRun cmd rest, st')" and "Export P (VFunc ft k) use = Ok c" and "Args (st cmd) = Args c"
    and "list_all plain_param (ins_of (tdef P) ft)"
  shows "length rest = length (ins_of (tdef P) ft)
    \<and> (if list_ex (\<lambda>(t, a). bad_number t a) (zip (ins_of (tdef P) ft) rest) then \<exists>e. Export_Run P (VFunc ft k) rest = Err e
       else Export_Run P (VFunc ft k) rest =
         (case body P k (map2 param_value (ins_of (tdef P) ft) rest) of Inl p \<Rightarrow> Panic p | Inr rs \<Rightarrow> Ok rs))"
proof -
  let ?ts = "ins_of (tdef P) ft"
  have "Args (st cmd) = Some (ExactArgs (int (length ?ts)))" using assms(2,3) by (auto simp: Export_def split: if_splits)
  from Execute_checked [OF assms(1) this] have len: "length rest = length ?ts" by (auto split: if_splits)
  have bad: "list_all2 (\<lambda>t a. \<not> bad_number t a) ts as \<longleftrightarrow> \<not> list_ex (\<lambda>(t, a). bad_number t a) (zip ts as)" if "length as = length ts" for ts as
    using that by (induction as ts rule: list_induct2) simp_all
  have "list_all2 (\<lambda>t y. type_of y = t \<and> y \<noteq> VInvalid) ts (map2 param_value ts as)" if "length as = length ts" "list_all plain_param ts" for ts as
    using that by (induction as ts rule: list_induct2) (auto simp: param_value_def plain_param_def)
  from pass_args_exact [OF this [OF len assms(4)], of P] export_args_plain [OF assms(4), of rest 0 P] len bad [OF len]
  show ?thesis by (auto simp: Export_Run_def Value_Call_def)
qed

theorem export_runs_function_witness:
  "\<exists>st'. Execute (\<lambda>c fs as. Parsed as False) (\<lambda>_. bare_command\<lparr>Args := Some (ExactArgs 1), Run := True\<rparr>) 0 [''x''] = (ExecRun 0 [''x''], st')
     \<and> Export_Run (sample_prog\<lparr>body := (\<lambda>k ps. Inr ps)\<rparr>) (VFunc (TFunc [TString] []) 0) [''x''] = Ok [VString TString ''x'']"
proof -
  let ?st = "\<lambda>_ :: nat. bare_command\<lparr>Args := Some (ExactArgs 1), Run := True\<rparr>" and ?P = "sample_prog\<lparr>body := (\<lambda>k ps. Inr ps)\<rparr>"
  have e: "Execute (\<lambda>c fs as. Parsed as False) ?st 0 [''x''] = (ExecRun 0 [''x''], ?st)"
    by (simp add: Execute_def Find_def bare_command_def fun_eq_iff)
  have x: "Export ?P (VFunc (TFunc [TString] []) 0) ''f'' = Ok (bare_command\<lparr>Usage := ''f'', Args := Some (ExactArgs 1), Run := True\<rparr>)"
    by (simp add: Export_def ins_of_def underlying_def)
  from export_runs_function [OF e x] e show ?thesis
    by (simp add: ins_of_def underlying_def plain_param_def bad_number_def param_value_def)
qed

end
