(* ===== verification/Qtalk_Tool.thy ===== *)
theory Qtalk_Tool
  imports Json_Codec Interop Cli_Framework Mux_Listen
begin

text \<open>
  The commands of the tool (\<^verbatim>\<open>src/cmd/qtalk\<close>): \<^verbatim>\<open>call\<close>, \<^verbatim>\<open>interop\<close>, \<^verbatim>\<open>check\<close> and \<^verbatim>\<open>bench\<close>. A command is a function of what the operating system and the session
  return to it; its state holds what each \<^verbatim>\<open>Open\<close> will give, the channels it has opened, as it leaves them, the lines it printed, the calls it deferred,
  and a \<^verbatim>\<open>log.Fatal\<close> that one of its goroutines is about to make. Its progress is a value, an exit through \<^verbatim>\<open>log.Fatal\<close>, which runs no deferred call, or waiting for input. What goes to the log is
  left out. Sending on a channel and receiving from it in two goroutines touch different streams, so either is a function of its own stream.

  Processes, QUIC, the parser of arguments (clon), the CBOR codec and its values are parameters. The lemmas put \<^verbatim>\<open>check\<close> and \<^verbatim>\<open>InteropService\<close> together and say what the tool prints, and what it does
  not notice.
\<close>

section \<open>Running a command\<close>

datatype deferred_call = Interrupt | WaitProcess | CloseSession | CloseListener

record tool =
  opens :: "(go_error + chan_io) list"
  used :: "chan_io list"
  printed :: "string list"
  deferred :: "deferred_call list"
  ran_calls :: "deferred_call list"
  doom :: "(nat \<times> string) option"   \<comment> \<open>lines still printed before a goroutine's log.Fatal, and its text\<close>

datatype 'a progress = Next 'a tool | Fatal string tool | Waits tool

primrec and_then :: "'a progress \<Rightarrow> ('a \<Rightarrow> tool \<Rightarrow> 'b progress) \<Rightarrow> 'b progress" where
  "and_then (Next x s) k = k x s"
| "and_then (Fatal e s) k = Fatal e s"
| "and_then (Waits s) k = Waits s"

text \<open>While a command waits, its goroutines run on.\<close>

definition waits :: "tool \<Rightarrow> 'a progress" where
  "waits s = (case doom s of Some (_, e) \<Rightarrow> Fatal e s | None \<Rightarrow> Waits s)"

definition fatal :: "string option \<Rightarrow> tool \<Rightarrow> unit progress" where
  "fatal err s = (case err of Some e \<Rightarrow> Fatal e s | None \<Rightarrow> Next () s)"

definition Println :: "string list \<Rightarrow> tool \<Rightarrow> unit progress" where
  "Println words s =
     (let s1 = s\<lparr>printed := printed s @ [join '' '' words]\<rparr>
      in case doom s of
           None \<Rightarrow> Next () s1
         | Some (0, e) \<Rightarrow> Fatal e s
         | Some (Suc k, e) \<Rightarrow> Next () (s1\<lparr>doom := Some (k, e)\<rparr>))"

definition defer_calls :: "deferred_call list \<Rightarrow> tool \<Rightarrow> tool" where
  "defer_calls cs s = s\<lparr>deferred := cs @ deferred s\<rparr>"

definition returns :: "'a progress \<Rightarrow> 'a progress" where
  "returns p = (case p of Next x s \<Rightarrow> Next x (s\<lparr>ran_calls := ran_calls s @ deferred s, deferred := []\<rparr>) | _ \<Rightarrow> p)"

text \<open>\<^verbatim>\<open>for\<close> over a slice.\<close>

fun each :: "('a \<Rightarrow> tool \<Rightarrow> unit progress) \<Rightarrow> 'a list \<Rightarrow> tool \<Rightarrow> unit progress" where
  "each f [] s = Next () s"
| "each f (x # xs) s = and_then (f x s) (\<lambda>_. each f xs)"

section \<open>Calls\<close>

text \<open>A codec with the type of \<^verbatim>\<open>any\<close>, what \<^verbatim>\<open>fmt\<close> prints for a value and the values that the source writes down.\<close>

record ('d, 't) flavour =
  fl_codec :: "('d, 't) codec"
  fl_any :: 't
  fl_Sprint :: "'d any \<Rightarrow> string"
  fl_value :: "json \<Rightarrow> 'd any"

text \<open>\<^verbatim>\<open>caller.Call(ctx, selector, v, replies...)\<close>, with a context that does not end: the error and what was stored. The channel is the last one used.\<close>

definition tool_Call :: "('d, 't) flavour \<Rightarrow> 't list \<Rightarrow> string \<Rightarrow> 'd any \<Rightarrow> tool \<Rightarrow> (call_error option \<times> 'd any list) progress" where
  "tool_Call K ts sel v s =
     (case opens s of
        [] \<Rightarrow> waits s
      | Inl e # os \<Rightarrow> Next (Some (CErr e), []) (s\<lparr>opens := os\<rparr>)
      | Inr io # os \<Rightarrow>
          (let s0 = s\<lparr>opens := os\<rparr> in
           case call_send (fl_codec K) sel (Single v) io of
             (Some e, io1) \<Rightarrow> Next (Some (CErr e), []) (s0\<lparr>used := used s @ [io1]\<rparr>)
           | (None, io1) \<Rightarrow>
               (case call_recv (fl_codec K) ts io1 of
                  None \<Rightarrow> waits (s0\<lparr>used := used s @ [io1]\<rparr>)
                | Some (resp, err, io2) \<Rightarrow>
                    Next (err, case resp of None \<Rightarrow> [] | Some r \<Rightarrow> resp_values r) (s0\<lparr>used := used s @ [io2]\<rparr>))))"

definition on_channel :: "(chan_io \<Rightarrow> chan_io) \<Rightarrow> tool \<Rightarrow> tool" where
  "on_channel f s = s\<lparr>used := butlast (used s) @ [f (last (used s))]\<rparr>"

text \<open>The variable \<^verbatim>\<open>ret\<close> after a call that stored these values.\<close>

definition ret_of :: "'d any list \<Rightarrow> 'd any" where
  "ret_of vs = (case vs of [] \<Rightarrow> ANil | v # _ \<Rightarrow> v)"

section \<open>The checks\<close>

definition vals :: "json list" where
  "vals = [JNum 100, JBool True, JStr ''hello'', JObj [(''foo'', JStr ''bar'')], JArr [JNum 1, JNum 2, JNum 3]]"

definition TrimPrefix :: "string \<Rightarrow> string \<Rightarrow> string" where
  "TrimPrefix s p = (if prefix p s then drop (length p) s else s)"

definition error_check :: "('d, 't) flavour \<Rightarrow> string \<Rightarrow> tool \<Rightarrow> unit progress" where
  "error_check K sel s =
     and_then (tool_Call K [] sel (fl_value K (JStr ''test'')) s) (\<lambda>(err, _) s.
       case err of
         None \<Rightarrow> Fatal ''expected error'' s
       | Some e \<Rightarrow> Println [''Error:'', TrimPrefix (call_error_text e) ''remote: ''] s)"

definition unary_check :: "('d, 't) flavour \<Rightarrow> json \<Rightarrow> tool \<Rightarrow> unit progress" where
  "unary_check K v s =
     and_then (tool_Call K [fl_any K] ''Unary'' (fl_value K v) s) (\<lambda>(err, vs) s.
       and_then (fatal (map_option call_error_text err) s) (\<lambda>_.
         Println [''Unary:'', fl_Sprint K (fl_value K v), fl_Sprint K (ret_of vs)]))"

text \<open>The goroutine of the stream check: its error, also that of \<^verbatim>\<open>CloseWrite\<close>, goes to \<^verbatim>\<open>log.Fatal\<close>.\<close>

definition stream_send :: "('d, 't) flavour \<Rightarrow> go_error option \<Rightarrow> chan_io \<Rightarrow> go_error option \<times> chan_io" where
  "stream_send K close_err io =
     (case io_Encode_all (fl_codec K) (map (fl_value K) vals) io of
        (Some e, io1) \<Rightarrow> (Some e, io1)
      | (None, io1) \<Rightarrow> (close_err, io_CloseWrite io1))"

lemma Println_used: "Println words s = Next x s1 \<Longrightarrow> used s1 = used s"
  by (auto simp: Println_def Let_def split: option.splits nat.splits prod.splits)

lemma on_channel_last [simp]: "last (used (on_channel f s)) = f (last (used s))"
  by (simp add: on_channel_def)

text \<open>The loop that receives and prints, up to the first error; \<open>waits\<close> when no error has come.\<close>

function stream_receive :: "('d, 't) flavour \<Rightarrow> tool \<Rightarrow> unit progress" where
  "stream_receive K s =
     (case frame_Decode (fl_codec K) (TVar (fl_any K)) (c_in (last (used s))) of
        RdBlock \<Rightarrow> waits s
      | RdErr e rd \<Rightarrow> Next () (on_channel (\<lambda>io. io\<lparr>c_in := rd\<rparr>) s)
      | RdOk v rd \<Rightarrow>
          (case Println [''Stream:'', fl_Sprint K v] (on_channel (\<lambda>io. io\<lparr>c_in := rd\<rparr>) s) of
             Next _ s1 \<Rightarrow> stream_receive K s1
           | Fatal e s1 \<Rightarrow> Fatal e s1
           | Waits s1 \<Rightarrow> Waits s1))"
  by pat_completeness auto

termination
  by (relation "measure (\<lambda>(K, s). length (rd_buf (c_in (last (used s)))))") (auto dest!: Println_used frame_Decode_shorter)

declare stream_receive.simps [simp del]

definition stream_check :: "('d, 't) flavour \<Rightarrow> go_error option \<Rightarrow> nat \<Rightarrow> tool \<Rightarrow> unit progress" where
  "stream_check K close_err race s =
     and_then (tool_Call K [] ''Stream'' ANil s) (\<lambda>(err, _) s.
       and_then (fatal (map_option call_error_text err) s) (\<lambda>_ s.
         case stream_send K close_err (last (used s)) of
           (e, io) \<Rightarrow> stream_receive K ((on_channel (\<lambda>_. io) s)\<lparr>doom := map_option (\<lambda>x. (race, error_text x)) e\<rparr>)))"

text \<open>
  A byte check: the errors of both copies are ignored. \<^verbatim>\<open>io.Copy\<close> from a buffer is one write, and into a buffer it reads all that there is.
\<close>

definition bytes_check :: "('d, 't) flavour \<Rightarrow> bytes \<Rightarrow> tool \<Rightarrow> nat progress" where
  "bytes_check K data s =
     and_then (tool_Call K [] ''Bytes'' ANil s) (\<lambda>(err, _) s.
       and_then (fatal (map_option call_error_text err) s) (\<lambda>_ s.
         let io = last (used s);
             io1 = io_CloseWrite (io\<lparr>c_out := snd (Write data (c_out io))\<rparr>);
             s1 = on_channel (\<lambda>_. io1) s
         in if rd_end (c_in io) = None then waits s1
            else if length (rd_buf (c_in io)) \<noteq> length data then Fatal ''byte stream buffer does not match'' s1
            else Next (length (rd_buf (c_in io))) (on_channel (\<lambda>io. io\<lparr>c_in := (c_in io)\<lparr>rd_buf := []\<rparr>\<rparr>) s1)))"

text \<open>The checks in order; \<open>rand n\<close> is what \<^verbatim>\<open>rand.Read\<close> puts into \<open>n\<close> bytes.\<close>

definition check_sizes :: "nat list" where "check_sizes = [1, 1024, 2 ^ 20]"

definition checks :: "('d, 't) flavour \<Rightarrow> (nat \<Rightarrow> bytes) \<Rightarrow> go_error option \<Rightarrow> nat \<Rightarrow> tool \<Rightarrow> unit progress" where
  "checks K rand close_err race s =
     and_then (error_check K ''Error'' s) (\<lambda>_ s.
     and_then (error_check K ''BadSelector'' s) (\<lambda>_ s.
     and_then (each (unary_check K) vals s) (\<lambda>_ s.
     and_then (stream_check K close_err race s) (\<lambda>_.
       each (\<lambda>n s. and_then (bytes_check K (rand n) s) (\<lambda>len. Println [''Bytes:'', show_nat len])) check_sizes))))"

definition mb :: nat where "mb = 2 ^ 20"

definition bench_sizes :: "nat list" where "bench_sizes = [mb * 256, mb * 512, mb * 1024]"

text \<open>The benchmark; the time that a round took, and the throughput that follows from it, are parameters.\<close>

definition benchmark :: "('d, 't) flavour \<Rightarrow> (nat \<Rightarrow> bytes) \<Rightarrow> (nat \<Rightarrow> string) \<Rightarrow> (nat \<Rightarrow> string) \<Rightarrow> tool \<Rightarrow> unit progress" where
  "benchmark K rand diff thru =
     each (\<lambda>n s. and_then (bytes_check K (rand n) s) (\<lambda>len.
       Println [''Bytes:'', show_nat (len div mb), ''MB'', ''RTT:'', diff n, ''Thru:'', thru n, ''MB/s''])) bench_sizes"

section \<open>Sessions\<close>

text \<open>
  What the operating system and QUIC return. A command line is the path and the arguments; a connection of the QUIC library is \<open>'x\<close>, and \<open>sess_opens\<close>
  says what each \<^verbatim>\<open>Open\<close> on a session returns.
\<close>

record 'x os_env =
  Getenv :: "string \<Rightarrow> string"
  Executable :: "go_error + string"
  LookPath :: "string \<Rightarrow> go_error + string"
  StdinPipe :: "string list \<Rightarrow> go_error + writer"
  StdoutPipe :: "string list \<Rightarrow> go_error + reader"
  Start :: "string list \<Rightarrow> go_error option"
  quic_DialAddr :: "string \<Rightarrow> go_error + 'x"
  sess_opens :: "session + 'x \<Rightarrow> (go_error + chan_io) list"

definition or_fatal :: "go_error + 'a \<Rightarrow> tool \<Rightarrow> 'a progress" where
  "or_fatal x s = (case x of Inl e \<Rightarrow> Fatal (error_text e) s | Inr a \<Rightarrow> Next a s)"

definition start_process :: "'x os_env \<Rightarrow> string list \<Rightarrow> tool \<Rightarrow> (session + 'x) progress" where
  "start_process E argv s =
     and_then (or_fatal (StdinPipe E argv) s) (\<lambda>wc s.
     and_then (or_fatal (StdoutPipe E argv) s) (\<lambda>rc s.
     and_then (or_fatal (DialIO wc rc) s) (\<lambda>sess s.
     and_then (fatal (map_option error_text (Start E argv)) s) (\<lambda>_ s.
       Next (Inl sess) (defer_calls [Interrupt, WaitProcess] s)))))"

definition udp :: string where "udp = ''udp://''"

text \<open>What \<^verbatim>\<open>check\<close> and \<^verbatim>\<open>bench\<close> talk to: the tool itself as a process, a shell command, or a QUIC endpoint.\<close>

definition connect :: "'x os_env \<Rightarrow> string list \<Rightarrow> tool \<Rightarrow> unit progress" where
  "connect E args s =
     and_then
       (if args = [] then and_then (or_fatal (Executable E) s) (\<lambda>path. start_process E [path, ''interop''])
        else if \<not> prefix udp (hd args) then and_then (or_fatal (LookPath E ''sh'') s) (\<lambda>path. start_process E [path, ''-c'', hd args])
        else and_then (or_fatal (quic_DialAddr E (TrimPrefix (hd args) udp)) s) (\<lambda>conn. Next (Inr conn)))
       (\<lambda>sess s. Next () ((defer_calls [CloseSession] s)\<lparr>opens := sess_opens E sess\<rparr>))"

definition new_tool :: tool where
  "new_tool = \<lparr>opens = [], used = [], printed = [], deferred = [], ran_calls = [], doom = None\<rparr>"

definition json_codec_chosen :: "'x os_env \<Rightarrow> bool" where
  "json_codec_chosen E \<longleftrightarrow> Getenv E ''QTALK_CODEC'' = ''json''"

text \<open>What \<^verbatim>\<open>fmt.Println\<close> prints for a value decoded by the JSON codec; \<open>F\<close> formats a number that is no integer.\<close>

fun json_Sprint :: "format_float \<Rightarrow> json \<Rightarrow> string" where
  "json_Sprint F JNull = ''<nil>''"
| "json_Sprint F (JBool b) = (if b then ''true'' else ''false'')"
| "json_Sprint F (JNum n) = show_int n"
| "json_Sprint F (JLit l) = F l"
| "json_Sprint F (JStr s) = s"
| "json_Sprint F (JArr vs) = ''['' @ join '' '' (map (json_Sprint F) vs) @ '']''"
| "json_Sprint F (JObj kvs) = ''map['' @ join '' '' (map (\<lambda>(k, v). k @ '':'' @ json_Sprint F v) kvs) @ '']''"

definition json_flavour :: "json_lib \<Rightarrow> format_float \<Rightarrow> (json, unit) flavour" where
  "json_flavour L F =
     \<lparr>fl_codec = JSONCodec L, fl_any = (), fl_Sprint = json_Sprint F \<circ> any_json L, fl_value = (\<lambda>j. if j = JNull then ANil else AData j)\<rparr>"

definition checkCmd_Run ::
    "'x os_env \<Rightarrow> (json, unit) flavour \<Rightarrow> ('d, 't) flavour \<Rightarrow> (nat \<Rightarrow> bytes) \<Rightarrow> go_error option \<Rightarrow> nat \<Rightarrow> string list \<Rightarrow> unit progress" where
  "checkCmd_Run E J B rand close_err race args =
     returns (and_then (connect E args new_tool) (\<lambda>_.
       if json_codec_chosen E then checks J rand close_err race else checks B rand close_err race))"

definition benchCmd_Run ::
    "'x os_env \<Rightarrow> (json, unit) flavour \<Rightarrow> ('d, 't) flavour \<Rightarrow> (nat \<Rightarrow> bytes) \<Rightarrow> (nat \<Rightarrow> string) \<Rightarrow> (nat \<Rightarrow> string) \<Rightarrow> string list \<Rightarrow> unit progress" where
  "benchCmd_Run E J B rand diff thru args =
     returns (and_then (connect E args new_tool) (\<lambda>_.
       if json_codec_chosen E then benchmark J rand diff thru else benchmark B rand diff thru))"

section \<open>The services\<close>

text \<open>
  \<^verbatim>\<open>fn.HandlerFrom\<close> of a service: its methods in the order of their names, each with the signature of a handler. \<open>meth\<close> is what the method of a name does.
\<close>

definition service_mux :: "string list \<Rightarrow> handle_error + RespondMux" where
  "service_mux names = fromMethods (map (\<lambda>n. \<lparr>mt_name = n, mt_func = VInvalid, mt_handler = None\<rparr>) names) None"

definition service_handler ::
    "('d, 't) codec \<Rightarrow> string list \<Rightarrow> (string \<Rightarrow> responder \<Rightarrow> (responder \<times> 'y option) option) \<Rightarrow> string \<Rightarrow> responder \<Rightarrow> (responder \<times> 'y option) option" where
  "service_handler C names meth sel r =
     (case service_mux names of
        Inl e \<Rightarrow> None
      | Inr mx \<Rightarrow>
          (case mux_RespondRPC (\<lambda>_. mx) 0 sel of
             None \<Rightarrow> None
           | Some (Some k) \<Rightarrow> meth (names ! k) r
           | Some None \<Rightarrow> map_option (\<lambda>r1. (r1, None)) (run C (NotFoundHandler sel) r)))"

definition no_more :: "service \<Rightarrow> responder \<Rightarrow> (responder \<times> 'y option) option" where
  "no_more f r = map_option (\<lambda>r1. (r1, None)) (f r)"

text \<open>The service that \<^verbatim>\<open>check\<close> and \<^verbatim>\<open>bench\<close> run on their own session, and the one of \<^verbatim>\<open>interop\<close>, whose handlers call back on the channel \<open>opened\<close>.\<close>

definition CallbackService :: "('d, 't) codec \<Rightarrow> 't \<Rightarrow> string \<Rightarrow> responder \<Rightarrow> (responder \<times> unit option) option" where
  "CallbackService C t = service_handler C [''Bytes'', ''Stream'', ''Unary'']
     (\<lambda>n. no_more (if n = ''Bytes'' then Callback_Bytes C t else if n = ''Stream'' then Callback_Stream C t else Callback_Unary C t))"

definition InteropService ::
    "('d, 't) codec \<Rightarrow> 't \<Rightarrow> ('d any \<Rightarrow> string) \<Rightarrow> go_error + chan_io \<Rightarrow> string \<Rightarrow> responder \<Rightarrow> (responder \<times> (chan_io \<times> chan_io) option) option" where
  "InteropService C t str opened = service_handler C [''Bytes'', ''Error'', ''Stream'', ''Unary'']
     (\<lambda>n. if n = ''Bytes'' then Interop_Bytes C t opened
          else if n = ''Error'' then no_more (Interop_Error C t str)
          else if n = ''Stream'' then Interop_Stream C t opened
          else no_more (Interop_Unary C t opened))"

text \<open>
  \<^verbatim>\<open>serve\<close>: \<^verbatim>\<open>Server.Respond\<close> with the service, over what \<^verbatim>\<open>Accept\<close> gives: a channel, with the one that its handler opens, or an error.
\<close>

fun serve :: "('d, 't) codec \<Rightarrow> 't \<Rightarrow> ('d any \<Rightarrow> string) \<Rightarrow> (go_error + chan_io \<times> (go_error + chan_io)) list
    \<Rightarrow> (chan_io \<times> (chan_io \<times> chan_io) option option) option list \<times> respond_end" where
  "serve C t str [] = ([], Accepting)"
| "serve C t str (Inl err # accepts) = ([], if err = EOF then Returns else Panics (error_text err))"
| "serve C t str (Inr (io, opened) # accepts) =
     (case serve C t str accepts of (as, e) \<Rightarrow> (serve_call C (InteropService C t str opened) io # as, e))"

text \<open>
  The configuration for QUIC; the functions of the cryptographic libraries are parameters, an error of any of them is a panic.
\<close>

record ('k, 'd, 'c) tls_lib =
  GenerateKey :: "go_error + 'k"
  CreateCertificate :: "'k \<Rightarrow> go_error + 'd"
  X509KeyPair :: "'d \<Rightarrow> 'k \<Rightarrow> go_error + 'c"

record 'c tls_config =
  NextProtos :: "string list"
  Certificates :: "'c list"

definition defaultTLSConfig :: "'c tls_config" where
  "defaultTLSConfig = \<lparr>NextProtos = [''qtalk-quic''], Certificates = []\<rparr>"

definition generateTLSConfig :: "('k, 'd, 'c) tls_lib \<Rightarrow> go_error + 'c tls_config" where
  "generateTLSConfig T =
     (case GenerateKey T of
        Inl e \<Rightarrow> Inl e
      | Inr key \<Rightarrow>
          (case CreateCertificate T key of
             Inl e \<Rightarrow> Inl e
           | Inr certDER \<Rightarrow>
               (case X509KeyPair T certDER key of
                  Inl e \<Rightarrow> Inl e
                | Inr tlsCert \<Rightarrow> Inr (defaultTLSConfig\<lparr>Certificates := [tlsCert]\<rparr>))))"

text \<open>
  \<^verbatim>\<open>interop\<close> with no argument serves its standard streams and returns; otherwise it serves every QUIC connection, until \<^verbatim>\<open>Accept\<close> fails. \<open>serving\<close> is
  what \<open>serve\<close> does on a session, with the codec that the environment chooses.
\<close>

fun quic_loop :: "('c \<Rightarrow> 'a) \<Rightarrow> (go_error + 'c) list \<Rightarrow> tool \<Rightarrow> 'a list \<times> unit progress" where
  "quic_loop serving [] s = ([], Waits s)"
| "quic_loop serving (Inl e # accepts) s = ([], Fatal (error_text e) s)"
| "quic_loop serving (Inr conn # accepts) s = (case quic_loop serving accepts s of (as, p) \<Rightarrow> (serving conn # as, p))"

definition interopCmd_Run ::
    "'x os_env \<Rightarrow> (session + 'c \<Rightarrow> 'a) \<Rightarrow> (session + 'c \<Rightarrow> 'a) \<Rightarrow> writer \<Rightarrow> reader \<Rightarrow> ('k, 'd, 'cert) tls_lib
      \<Rightarrow> (string \<Rightarrow> 'cert tls_config \<Rightarrow> go_error + (go_error + 'c) list) \<Rightarrow> string list \<Rightarrow> 'a list \<times> unit progress" where
  "interopCmd_Run E serve_json serve_cbor os_Stdout os_Stdin T quic_ListenAddr args =
     (let serving = (if json_codec_chosen E then serve_json else serve_cbor) in
      if args = [] then
        (case DialStdio os_Stdout os_Stdin of
           Inl e \<Rightarrow> ([], Fatal (error_text e) new_tool)
         | Inr sess \<Rightarrow> ([serving (Inl sess)], returns (Next () new_tool)))
      else
        (case generateTLSConfig T of
           Inl e \<Rightarrow> ([], Fatal (''panic: '' @ error_text e) new_tool)
         | Inr cfg \<Rightarrow>
             (case quic_ListenAddr (hd args) cfg of
                Inl e \<Rightarrow> ([], Fatal (error_text e) new_tool)
              | Inr accepts \<Rightarrow> quic_loop (serving \<circ> Inr) accepts (defer_calls [CloseListener] new_tool))))"

section \<open>The call command\<close>

record go_url =
  Scheme :: string
  Host :: string
  Path :: string

text \<open>
  \<^verbatim>\<open>qtalk call\<close>: the URL parser and \<^verbatim>\<open>clon\<close> are parameters; \<open>sess_Open\<close> is what \<^verbatim>\<open>Open\<close> returns on the session that was dialed. A value decoded from JSON can always be marshalled.
\<close>

definition callCmd_Run ::
    "json_lib \<Rightarrow> (string \<Rightarrow> go_error + go_url) \<Rightarrow> (string list \<Rightarrow> go_error + json any) \<Rightarrow> (string \<rightharpoonup> 's Dialer) \<Rightarrow> ('s \<Rightarrow> go_error + chan_io)
      \<Rightarrow> string list \<Rightarrow> unit progress" where
  "callCmd_Run L url_Parse clon_Parse dialers sess_Open args =
     returns (and_then (or_fatal (url_Parse (hd args)) new_tool) (\<lambda>u s.
       and_then (if length args > 1 then or_fatal (clon_Parse (tl args)) s else Next ANil s) (\<lambda>sargs s.
       and_then (or_fatal (Dial dialers (Scheme u) (Host u) (JSONCodec L)) s) (\<lambda>peer s.
       and_then (tool_Call (json_flavour L (formatFloat L)) [()] (Path u) sargs
           ((defer_calls [CloseSession] s)\<lparr>opens := [sess_Open (cl_Session (p_Client peer))]\<rparr>)) (\<lambda>(err, vs) s.
       and_then (fatal (map_option call_error_text err) s) (\<lambda>_.
         Println [MarshalIndent (formatFloat L) (any_json L (ret_of vs))]))))))"

section \<open>The pair of the tests\<close>

text \<open>
  \<^verbatim>\<open>rpctest.NewPair\<close> (\<^verbatim>\<open>src/rpc/rpctest\<close>): a client and a server with sessions on the two ends of a pair of pipes. The result is the client, the server, and the
  session on which the server responds in its goroutine.
\<close>

definition NewPair :: "('d, 't) handler \<Rightarrow> ('d, 't) codec \<Rightarrow> reader \<times> writer \<Rightarrow> reader \<times> writer
    \<Rightarrow> ((session, 'd, 't) Client \<times> ('d, 't) Server \<times> session) option" where
  "NewPair hn C pipe1 pipe2 =
     (case (pipe1, pipe2) of ((ar, bw), (br, aw)) \<Rightarrow>
        (case (DialIO aw ar, DialIO bw br) of
           (Inr sessA, Inr sessB) \<Rightarrow> Some (NewClient sessB C, \<lparr>srv_Handler = Some hn, srv_Codec = Some C\<rparr>, sessA)
         | _ \<Rightarrow> None))"

lemma NewPair_serves:
  "\<exists>sessA sessB srv. NewPair hn C pipe1 pipe2 = Some (NewClient sessB C, srv, sessA) \<and> Server_Respond srv accepts = respond_loop C hn accepts
     \<and> sessA = New (fst pipe1) (snd pipe2) \<and> sessB = New (fst pipe2) (snd pipe1)"
  by (cases pipe1, cases pipe2) (simp add: NewPair_def DialIO_def Server_Respond_def)

section \<open>Steps that go through\<close>

abbreviation outs :: "tool \<Rightarrow> bytes list" where
  "outs s \<equiv> map (wr_buf \<circ> c_out) (used s)"

text \<open>A step that comes to its end: the lines it prints, what it writes on the channels it opens, and what is left to open.\<close>

definition goes :: "tool \<Rightarrow> 'a progress \<Rightarrow> string list \<Rightarrow> bytes list \<Rightarrow> (go_error + chan_io) list \<Rightarrow> bool" where
  "goes s p ls reqs os \<longleftrightarrow> (\<exists>x s'. p = Next x s' \<and> printed s' = printed s @ ls \<and> outs s' = outs s @ reqs \<and> opens s' = os \<and> doom s' = None
     \<and> deferred s' = deferred s \<and> ran_calls s' = ran_calls s)"

lemma goes_and_then:
  assumes "goes s p ls reqs os" and "\<And>x s'. opens s' = os \<Longrightarrow> doom s' = None \<Longrightarrow> goes s' (k x s') ls' reqs' os'"
  shows "goes s (and_then p k) (ls @ ls') (reqs @ reqs') os'"
  using assms unfolding goes_def by fastforce

lemma goes_each:
  assumes "\<And>x s os. x \<in> set xs \<Longrightarrow> opens s = f x # os \<Longrightarrow> doom s = None \<Longrightarrow> goes s (act x s) [line x] [req x] os"
  shows "opens s = map f xs @ os \<Longrightarrow> doom s = None \<Longrightarrow> goes s (each act xs s) (map line xs) (map req xs) os"
  using assms
proof (induction xs arbitrary: s)
  case Nil
  then show ?case by (simp add: goes_def)
next
  case (Cons x xs)
  have "goes s (act x s) [line x] [req x] (map f xs @ os)" using Cons.prems by simp
  from goes_and_then [OF this, of "\<lambda>_. each act xs" "map line xs" "map req xs" os] Cons.IH Cons.prems(3) show ?case by simp
qed

lemma call_recv_out: "call_recv C ts io = Some (r, e, io1) \<Longrightarrow> c_out io1 = c_out io"
  by (auto simp: call_recv_def io_Close_def Let_def split: rd_result.splits option.splits if_splits prod.splits)

text \<open>A call whose response has arrived.\<close>

lemma tool_Call_response:
  assumes "encodes (fl_codec K) (ACallHeader sel)" and "encodes (fl_codec K) v" and "opens s = Inr (ended resp) # os"
    and "call_recv (fl_codec K) ts (out_frames (fl_codec K) [ACallHeader sel, v] (ended resp)) = Some (r, err, io)"
  shows "tool_Call K ts sel v s = Next (err, case r of None \<Rightarrow> [] | Some r \<Rightarrow> resp_values r) (s\<lparr>opens := os, used := used s @ [io]\<rparr>)"
    and "wr_buf (c_out io) = frames_of (fl_codec K) [ACallHeader sel, v]" and "wr_fail (c_out io) = None"
  using assms call_send_ok [of "fl_codec K" sel "Single v" "ended resp"] call_recv_out [OF assms(4)]
  by (simp_all add: tool_Call_def arg_values_def)

lemma call_recv_discard:
  assumes "carries C TResponse (AResponseHeader None cont)" and "carries C t x"
    and "c_in io = \<lparr>rd_buf = frame_bytes C (AResponseHeader None cont) @ frame_bytes C x @ rest, rd_end = e\<rparr>"
  shows "call_recv C [] io = Some (Some \<lparr>resp_error = None, resp_continue = cont, resp_values = []\<rparr>, None,
      io\<lparr>c_in := \<lparr>rd_buf = rest, rd_end = e\<rparr>, c_closed := \<not> cont \<or> c_closed io\<rparr>)"
proof -
  from assms(2) obtain b where "c_enc C x = Inr b" "length b < 2 ^ 32" by (rule carriesE)
  from frame_Decode_any [OF this, of TDiscard rest e] rf.dec_enc [OF assms(1), of "frame_bytes C x @ rest" e] assms(3)
  show ?thesis by (cases io) (auto simp: call_recv_def io_Close_def Let_def split: sum.splits)
qed

text \<open>What a codec and its values have to allow for the check.\<close>

definition not_found :: string where "not_found = ''not found: /BadSelector''"

definition suits :: "('d, 't) flavour \<Rightarrow> bool" where
  "suits K \<longleftrightarrow>
     list_all (\<lambda>sel. carries (fl_codec K) TCall (ACallHeader sel)) [''Error'', ''BadSelector'', ''Unary'', ''Stream'', ''Bytes'']
     \<and> list_all (\<lambda>(e, c). carries (fl_codec K) TResponse (AResponseHeader e c))
         [(None, False), (None, True), (Some ''test'', False), (Some not_found, False)]
     \<and> list_all (\<lambda>v. carries (fl_codec K) (TVar (fl_any K)) v \<and> single_error [v] = None) (ANil # map (fl_value K) (JStr ''test'' # vals))"

lemma suitsD:
  assumes "suits K"
  shows "sel \<in> {''Error'', ''BadSelector'', ''Unary'', ''Stream'', ''Bytes''} \<Longrightarrow> carries (fl_codec K) TCall (ACallHeader sel)"
    and "carries (fl_codec K) TResponse (AResponseHeader None c)"
    and "e \<in> {''test'', not_found} \<Longrightarrow> carries (fl_codec K) TResponse (AResponseHeader (Some e) False)"
    and "carries (fl_codec K) (TVar (fl_any K)) ANil"
    and "v \<in> insert (JStr ''test'') (set vals) \<Longrightarrow> carries (fl_codec K) (TVar (fl_any K)) (fl_value K v) \<and> single_error [fl_value K v] = None"
  using assms by (cases c; auto simp: suits_def list_all_iff)+

text \<open>The conversations of the check: what it sends on each channel, and what it is sent.\<close>

definition error_talk :: "('d, 't) flavour \<Rightarrow> string \<times> string \<Rightarrow> bytes \<times> bytes" where
  "error_talk K x = (frames_of (fl_codec K) [ACallHeader (fst x), fl_value K (JStr ''test'')],
     frames_of (fl_codec K) [AResponseHeader (Some (snd x)) False, ANil])"

definition unary_talk :: "('d, 't) flavour \<Rightarrow> json \<Rightarrow> bytes \<times> bytes" where
  "unary_talk K v = (frames_of (fl_codec K) [ACallHeader ''Unary'', fl_value K v], frames_of (fl_codec K) [AResponseHeader None False, fl_value K v])"

definition stream_talk :: "('d, 't) flavour \<Rightarrow> bytes \<times> bytes" where
  "stream_talk K = (frames_of (fl_codec K) (ACallHeader ''Stream'' # ANil # map (fl_value K) vals),
     frames_of (fl_codec K) (AResponseHeader None True # ANil # map (fl_value K) vals))"

definition bytes_talk :: "('d, 't) flavour \<Rightarrow> bytes \<Rightarrow> bytes \<times> bytes" where
  "bytes_talk K data = (frames_of (fl_codec K) [ACallHeader ''Bytes'', ANil] @ data, frames_of (fl_codec K) [AResponseHeader None True, ANil] @ data)"

definition talks :: "('d, 't) flavour \<Rightarrow> (nat \<Rightarrow> bytes) \<Rightarrow> (bytes \<times> bytes) list" where
  "talks K rand = map (error_talk K) [(''Error'', ''test''), (''BadSelector'', not_found)]
     @ map (unary_talk K) vals @ [stream_talk K] @ map (bytes_talk K \<circ> rand) check_sizes"

definition check_lines :: "('d, 't) flavour \<Rightarrow> string list" where
  "check_lines K = [''Error: test'', ''Error: '' @ not_found]
     @ map (\<lambda>v. join '' '' [''Unary:'', fl_Sprint K (fl_value K v), fl_Sprint K (fl_value K v)]) vals
     @ map (\<lambda>v. join '' '' [''Stream:'', fl_Sprint K (fl_value K v)]) vals
     @ map (\<lambda>n. join '' '' [''Bytes:'', show_nat n]) check_sizes"

lemma Println_goes: "doom s = None \<Longrightarrow> Println words s = Next () (s\<lparr>printed := printed s @ [join '' '' words]\<rparr>)"
  by (simp add: Println_def)

lemma error_check_goes:
  assumes "suits K" and "sel \<in> {''Error'', ''BadSelector''}" and "e \<in> {''test'', not_found}"
    and "opens s = Inr (ended (snd (error_talk K (sel, e)))) # os" and "doom s = None"
  shows "goes s (error_check K sel s) [join '' '' [''Error:'', e]] [fst (error_talk K (sel, e))] os"
proof -
  let ?C = "fl_codec K"
  have c: "carries ?C TCall (ACallHeader sel)" "carries ?C TResponse (AResponseHeader (Some e) False)"
    "carries ?C (TVar (fl_any K)) (fl_value K (JStr ''test''))" using suitsD [OF assms(1)] assms(2,3) by auto
  from call_recv_error [OF c(2), of "out_frames ?C [ACallHeader sel, fl_value K (JStr ''test'')] (ended (snd (error_talk K (sel, e))))"
      "frame_bytes ?C ANil" "Some EOF" "[]"]
  obtain io where "call_recv ?C [] (out_frames ?C [ACallHeader sel, fl_value K (JStr ''test'')] (ended (snd (error_talk K (sel, e)))))
      = Some (Some \<lparr>resp_error = Some e, resp_continue = False, resp_values = []\<rparr>, Some (RemoteError e), io)"
    by (auto simp: error_talk_def)
  from tool_Call_response [OF carries_encodes [OF c(1)] carries_encodes [OF c(3)] assms(4) this] assms(5)
  show ?thesis by (simp add: error_check_def goes_def Println_goes TrimPrefix_def error_talk_def)
qed

lemma unary_check_goes:
  assumes "suits K" and "v \<in> set vals" and "opens s = Inr (ended (snd (unary_talk K v))) # os" and "doom s = None"
  shows "goes s (unary_check K v s) [join '' '' [''Unary:'', fl_Sprint K (fl_value K v), fl_Sprint K (fl_value K v)]] [fst (unary_talk K v)] os"
proof -
  let ?C = "fl_codec K" and ?v = "fl_value K v"
  have c: "carries ?C TCall (ACallHeader ''Unary'')" "carries ?C TResponse (AResponseHeader None False)" "carries ?C (TVar (fl_any K)) ?v"
    using suitsD [OF assms(1)] assms(2) by auto
  from call_recv_values [OF c(2), of "[fl_any K]" "[?v]" "out_frames ?C [ACallHeader ''Unary'', ?v] (ended (snd (unary_talk K v)))" "[]" "Some EOF"] c(3)
  obtain io where "call_recv ?C [fl_any K] (out_frames ?C [ACallHeader ''Unary'', ?v] (ended (snd (unary_talk K v))))
      = Some (Some \<lparr>resp_error = None, resp_continue = False, resp_values = [?v]\<rparr>, None, io)"
    by (auto simp: unary_talk_def)
  from tool_Call_response [OF carries_encodes [OF c(1)] carries_encodes [OF c(3)] assms(3) this] assms(4)
  show ?thesis by (simp add: unary_check_def goes_def Println_goes unary_talk_def fatal_def ret_of_def)
qed

lemma on_channel_simps [simp]:
  "used s \<noteq> [] \<Longrightarrow> c_out (f (last (used s))) = c_out (last (used s)) \<Longrightarrow> outs (on_channel f s) = outs s"
  "printed (on_channel f s) = printed s" "opens (on_channel f s) = opens s" "doom (on_channel f s) = doom s"
  "deferred (on_channel f s) = deferred s" "ran_calls (on_channel f s) = ran_calls s" "used (on_channel f s) \<noteq> []"
proof -
  assume "used s \<noteq> []" and f: "c_out (f (last (used s))) = c_out (last (used s))"
  then show "outs (on_channel f s) = outs s" by (cases "used s" rule: rev_cases) (simp_all add: on_channel_def)
qed (simp_all add: on_channel_def)

lemma stream_receive_goes:
  assumes "list_all (carries (fl_codec K) (TVar (fl_any K))) vs" and "c_in (last (used s)) = \<lparr>rd_buf = frames_of (fl_codec K) vs, rd_end = Some EOF\<rparr>"
    and "used s \<noteq> []" and "doom s = None"
  shows "goes s (stream_receive K s) (map (\<lambda>v. join '' '' [''Stream:'', fl_Sprint K v]) vs) [] (opens s)"
  using assms
proof (induction vs arbitrary: s)
  case Nil
  then show ?case by (subst stream_receive.simps) (simp add: frame_Decode_EOF goes_def)
next
  case (Cons v vs)
  let ?s = "on_channel (\<lambda>io. io\<lparr>c_in := \<lparr>rd_buf = frames_of (fl_codec K) vs, rd_end = Some EOF\<rparr>\<rparr>) s"
  let ?s1 = "?s\<lparr>printed := printed s @ [join '' '' [''Stream:'', fl_Sprint K v]]\<rparr>"
  have "stream_receive K s = stream_receive K ?s1"
    using Cons.prems rf.dec_enc [of "fl_codec K" "TVar (fl_any K)" v "frames_of (fl_codec K) vs" "Some EOF"]
    by (subst stream_receive.simps) (simp add: Println_goes)
  moreover have "goes ?s1 (stream_receive K ?s1) (map (\<lambda>v. join '' '' [''Stream:'', fl_Sprint K v]) vs) [] (opens ?s1)"
    by (rule Cons.IH) (use Cons.prems in simp_all)
  ultimately show ?case using Cons.prems by (simp add: goes_def)
qed

lemma all_carried: "list_all (carries C t) vs \<Longrightarrow> list_all (encodes C) vs"
  by (auto simp: list_all_iff intro: carries_encodes)

lemma stream_check_goes:
  assumes "suits K" and "opens s = Inr (ended (snd (stream_talk K))) # os" and "doom s = None"
  shows "goes s (stream_check K None race s) (map (\<lambda>v. join '' '' [''Stream:'', fl_Sprint K (fl_value K v)]) vals) [fst (stream_talk K)] os"
proof -
  let ?C = "fl_codec K" and ?vs = "map (fl_value K) vals"
  have c: "carries ?C TCall (ACallHeader ''Stream'')" "carries ?C TResponse (AResponseHeader None True)" "carries ?C (TVar (fl_any K)) ANil"
    "list_all (carries ?C (TVar (fl_any K))) ?vs"
    using suitsD [OF assms(1)] by (auto simp: list_all_iff)
  let ?io = "(out_frames ?C [ACallHeader ''Stream'', ANil] (ended (frames_of ?C ?vs)))"
  have r: "call_recv ?C [] (out_frames ?C [ACallHeader ''Stream'', ANil] (ended (snd (stream_talk K))))
      = Some (Some \<lparr>resp_error = None, resp_continue = True, resp_values = []\<rparr>, None, ?io)"
    using call_recv_discard [OF c(2,3), of "out_frames ?C [ACallHeader ''Stream'', ANil] (ended (snd (stream_talk K)))" "frames_of ?C ?vs" "Some EOF"]
    by (simp add: stream_talk_def out_frames_def ended_def)
  let ?s1 = "s\<lparr>opens := os, used := used s @ [?io]\<rparr>" and ?io1 = "io_CloseWrite (out_frames ?C ?vs ?io)"
  have send: "stream_send K None ?io = (None, ?io1)"
    using io_Encode_all_ok [of ?C ?vs ?io] all_carried [OF c(4)] by (simp add: stream_send_def)
  let ?s2 = "s\<lparr>opens := os, used := used s @ [?io1], doom := None\<rparr>"
  have "(on_channel (\<lambda>_. ?io1) ?s1)\<lparr>doom := None\<rparr> = ?s2" by (simp add: on_channel_def)
  with tool_Call_response(1) [OF carries_encodes [OF c(1)] carries_encodes [OF c(3)] assms(2) r] send
  have "stream_check K None race s = stream_receive K ?s2" by (simp add: stream_check_def fatal_def)
  moreover have "goes ?s2 (stream_receive K ?s2) (map (\<lambda>v. join '' '' [''Stream:'', fl_Sprint K v]) ?vs) [] (opens ?s2)"
    by (rule stream_receive_goes [OF c(4)]) (simp_all add: io_CloseWrite_def)
  ultimately show ?thesis by (simp add: goes_def stream_talk_def io_CloseWrite_def comp_def)
qed

text \<open>The bytes that come back matter only by their number.\<close>

lemma bytes_check_any:
  assumes "suits K" and "opens s = Inr (ended (frames_of (fl_codec K) [AResponseHeader None True, ANil] @ answered)) # os" and "doom s = None"
  shows "bytes_check K data s =
    (let io = (out_frames (fl_codec K) [ACallHeader ''Bytes'', ANil] (ended answered));
         io1 = io_CloseWrite (io\<lparr>c_out := (c_out io)\<lparr>wr_buf := wr_buf (c_out io) @ data\<rparr>\<rparr>);
         s1 = s\<lparr>opens := os, used := used s @ [io1]\<rparr>
     in if length answered \<noteq> length data then Fatal ''byte stream buffer does not match'' s1
        else Next (length data) (on_channel (\<lambda>io. io\<lparr>c_in := (c_in io)\<lparr>rd_buf := []\<rparr>\<rparr>) s1))"
proof -
  let ?C = "fl_codec K" and ?resp = "frames_of (fl_codec K) [AResponseHeader None True, ANil] @ answered"
  have c: "carries ?C TCall (ACallHeader ''Bytes'')" "carries ?C TResponse (AResponseHeader None True)" "carries ?C (TVar (fl_any K)) ANil"
    using suitsD [OF assms(1)] by auto
  have r: "call_recv ?C [] (out_frames ?C [ACallHeader ''Bytes'', ANil] (ended ?resp))
      = Some (Some \<lparr>resp_error = None, resp_continue = True, resp_values = []\<rparr>, None, out_frames ?C [ACallHeader ''Bytes'', ANil] (ended answered))"
    using call_recv_discard [OF c(2,3), of "out_frames ?C [ACallHeader ''Bytes'', ANil] (ended ?resp)" answered "Some EOF"]
    by (simp add: out_frames_def ended_def)
  from tool_Call_response(1) [OF carries_encodes [OF c(1)] carries_encodes [OF c(3)] assms(2) r] show ?thesis
    by (simp add: bytes_check_def fatal_def Let_def Write_ok on_channel_def)
qed

lemma bytes_check_goes:
  assumes "suits K" and "opens s = Inr (ended (snd (bytes_talk K data))) # os" and "doom s = None"
  shows "goes s (and_then (bytes_check K data s) (\<lambda>len. Println [''Bytes:'', show_nat len])) [join '' '' [''Bytes:'', show_nat (length data)]]
    [fst (bytes_talk K data)] os"
  using bytes_check_any [OF assms(1), of s data os data] assms(2,3)
  by (simp add: Let_def goes_def Println_goes on_channel_def bytes_talk_def io_CloseWrite_def)

lemma checks_goes:
  assumes "suits K" and "\<And>n. length (rand n) = n" and "opens s = map (Inr \<circ> ended \<circ> snd) (talks K rand)" and "doom s = None"
  shows "goes s (checks K rand None race s) (check_lines K) (map fst (talks K rand)) []"
proof -
  let ?e1 = "(''Error'', ''test'')" and ?e2 = "(''BadSelector'', not_found)"
  let ?f = "\<lambda>p. Inr (ended (snd p)) :: go_error + chan_io"
  let ?o4 = "map (\<lambda>n. ?f (bytes_talk K (rand n))) check_sizes"
  let ?o3 = "?f (stream_talk K) # ?o4" let ?o2 = "map (\<lambda>v. ?f (unary_talk K v)) vals @ ?o3" let ?o1 = "?f (error_talk K ?e2) # ?o2"
  have 1: "goes s (error_check K ''Error'' s) [join '' '' [''Error:'', ''test'']] [fst (error_talk K ?e1)] ?o1"
    using error_check_goes [OF assms(1), of "''Error''" "''test''" s ?o1] assms(3,4) by (simp add: talks_def comp_def)
  have 2: "goes s (error_check K ''BadSelector'' s) [join '' '' [''Error:'', not_found]] [fst (error_talk K ?e2)] ?o2"
    if "opens s = ?o1" "doom s = None" for s
    using error_check_goes [OF assms(1), of "''BadSelector''" not_found s ?o2] that by simp
  have 3: "goes s (each (unary_check K) vals s)
      (map (\<lambda>v. join '' '' [''Unary:'', fl_Sprint K (fl_value K v), fl_Sprint K (fl_value K v)]) vals) (map (\<lambda>v. fst (unary_talk K v)) vals) ?o3"
    if "opens s = ?o2" "doom s = None" for s
    by (rule goes_each [where f = "\<lambda>v. ?f (unary_talk K v)"]) (use that unary_check_goes [OF assms(1)] in auto)
  have 4: "goes s (stream_check K None race s) (map (\<lambda>v. join '' '' [''Stream:'', fl_Sprint K (fl_value K v)]) vals) [fst (stream_talk K)] ?o4"
    if "opens s = ?o3" "doom s = None" for s
    using stream_check_goes [OF assms(1)] that by simp
  have 5: "goes s (each (\<lambda>n s. and_then (bytes_check K (rand n) s) (\<lambda>len. Println [''Bytes:'', show_nat len])) check_sizes s)
      (map (\<lambda>n. join '' '' [''Bytes:'', show_nat n]) check_sizes) (map (\<lambda>n. fst (bytes_talk K (rand n))) check_sizes) []"
    if "opens s = ?o4" "doom s = None" for s
  proof (rule goes_each [where f = "\<lambda>n. ?f (bytes_talk K (rand n))"])
    fix n and s :: tool and os
    assume "opens s = ?f (bytes_talk K (rand n)) # os" and "doom s = None"
    from bytes_check_goes [OF assms(1) this] assms(2)
    show "goes s (and_then (bytes_check K (rand n) s) (\<lambda>len. Println [''Bytes:'', show_nat len])) [join '' '' [''Bytes:'', show_nat n]]
      [fst (bytes_talk K (rand n))] os" by simp
  qed (use that in simp_all)
  have "goes s (checks K rand None race s) ([join '' '' [''Error:'', ''test'']] @ [join '' '' [''Error:'', not_found]] @
      map (\<lambda>v. join '' '' [''Unary:'', fl_Sprint K (fl_value K v), fl_Sprint K (fl_value K v)]) vals @
      map (\<lambda>v. join '' '' [''Stream:'', fl_Sprint K (fl_value K v)]) vals @ map (\<lambda>n. join '' '' [''Bytes:'', show_nat n]) check_sizes)
    ([fst (error_talk K ?e1)] @ [fst (error_talk K ?e2)] @ map (\<lambda>v. fst (unary_talk K v)) vals @ [fst (stream_talk K)]
      @ map (\<lambda>n. fst (bytes_talk K (rand n))) check_sizes) []"
    unfolding checks_def
    by (rule goes_and_then [OF 1], rule goes_and_then [OF 2], assumption+, rule goes_and_then [OF 3], assumption+,
        rule goes_and_then [OF 4], assumption+, rule 5)
  then show ?thesis by (simp add: check_lines_def talks_def comp_def)
qed

section \<open>The services answer\<close>

lemma service_dispatch:
  assumes "distinct names" and "list_all ident names" and "cleanSelector sel = sel"
  shows "service_handler C names meth sel r =
    (case method_index (map (\<lambda>n. \<lparr>mt_name = n, mt_func = VInvalid, mt_handler = None\<rparr>) names) 0 sel of
       Some k \<Rightarrow> meth (names ! k) r
     | None \<Rightarrow> map_option (\<lambda>r1. (r1, None)) (run C (NotFoundHandler sel) r))"
proof -
  let ?mts = "map (\<lambda>n. \<lparr>mt_name = n, mt_func = VInvalid, mt_handler = None\<rparr>) names"
  have "distinct (map mt_name ?mts)" "\<forall>mt \<in> set ?mts. ident (mt_name mt)" using assms(1,2) by (simp_all add: comp_def list_all_iff)
  from fromMethods_matches [OF this, of None] obtain mx where mx: "fromMethods ?mts None = Inr mx"
    "\<And>st r. st r = mx \<Longrightarrow> Match st r sel = (case method_index ?mts 0 (cleanSelector sel) of
       Some i \<Rightarrow> Some (HFunc i, cleanSelector sel) | None \<Rightarrow> (case None of None \<Rightarrow> Some (HNil, []) | Some f \<Rightarrow> Some (HFunc f, ''/'')))"
    unfolding option.map by blast
  have "mux_RespondRPC (\<lambda>_. mx) 0 sel = Some (method_index ?mts 0 sel)"
    using mx(2) [of "\<lambda>_. mx" 0] assms(3) by (subst mux_RespondRPC.simps) (simp add: mux_Handler_def split: option.splits)
  with mx(1) show ?thesis by (simp add: service_handler_def service_mux_def split: option.splits)
qed

text \<open>The handlers of the two services by selector.\<close>

lemma clean_names:
  "cleanSelector ''Error'' = ''/Error''" "cleanSelector ''BadSelector'' = ''/BadSelector''" "cleanSelector ''Unary'' = ''/Unary''"
  "cleanSelector ''Stream'' = ''/Stream''" "cleanSelector ''Bytes'' = ''/Bytes''"
  by (simp_all add: cleanSelector_def dots_to_slashes_def)

lemma InteropService_handlers:
  "InteropService C t str opened ''/Unary'' = no_more (Interop_Unary C t opened)"
  "InteropService C t str opened ''/Stream'' = Interop_Stream C t opened"
  "InteropService C t str opened ''/Bytes'' = Interop_Bytes C t opened"
  "InteropService C t str opened ''/Error'' = no_more (Interop_Error C t str)"
  "InteropService C t str opened ''/BadSelector'' = no_more (run C (NotFoundHandler ''/BadSelector''))"
  by (rule ext, simp add: InteropService_def service_dispatch ident_def cleanSelector_def dots_to_slashes_def no_more_def)+

lemma CallbackService_handlers:
  "CallbackService C t ''/Unary'' = no_more (Callback_Unary C t)"
  "CallbackService C t ''/Stream'' = no_more (Callback_Stream C t)"
  "CallbackService C t ''/Bytes'' = no_more (Callback_Bytes C t)"
  by (rule ext, simp add: CallbackService_def service_dispatch ident_def cleanSelector_def dots_to_slashes_def no_more_def)+

text \<open>A server that, asked with these bytes and nothing more, sends those bytes back and closes the channel.\<close>

definition answers_with :: "('d, 't) codec \<Rightarrow> (string \<Rightarrow> responder \<Rightarrow> (responder \<times> 'y) option) \<Rightarrow> bytes \<times> bytes \<Rightarrow> bool" where
  "answers_with C hn talk \<longleftrightarrow>
     (\<exists>sv x. serve_call C hn (ended (fst talk)) = Some (sv, x) \<and> wr_buf (c_out sv) = snd talk \<and> c_closed sv)"

lemma answers_withI:
  assumes "carries C TCall (ACallHeader sel)" and "req = frame_bytes C (ACallHeader sel) @ rest"
    and "hn (cleanSelector sel) (fresh_responder (ended rest)) = Some (r, x)"
    and "wr_buf (c_out (respond_finish C r)) = resp" and "c_closed (respond_finish C r)"
  shows "answers_with C hn (req, resp)"
  using serve_call_ok [OF assms(1), of "ended req" rest "Some EOF" hn r x] assms(2-5) by (simp add: answers_with_def)

text \<open>One lemma for each kind of talk the client has with the service.\<close>

lemma interop_answers_error:
  assumes "suits K" and "str (fl_value K (JStr ''test'')) = ''test''" and err: "talk = error_talk K (''Error'', ''test'')"
  shows "answers_with (fl_codec K) (InteropService (fl_codec K) (fl_any K) str (Inr (ended (snd talk)))) talk"
proof -
  let ?C = "fl_codec K" and ?t = "fl_any K" and ?test = "fl_value K (JStr ''test'')"
  note c = suitsD [OF assms(1)]
  have nil: "encodes ?C ANil" using c(4) by (rule carries_encodes)
  from Interop_Error_ok [of ?C ?t ?test str] c(3) [of "''test''"] c(5) [of "JStr ''test''"] nil assms(2) obtain r1 where
    "Interop_Error ?C ?t str (fresh_responder (ended (frame_bytes ?C ?test))) = Some r1"
    "respond_finish ?C r1 = (out_frames ?C [AResponseHeader (Some ''test'') False, ANil] (ended []))\<lparr>c_closed := True\<rparr>" by auto
  with err c(1) [of "''Error''"] show ?thesis
    by (auto simp: error_talk_def InteropService_handlers clean_names no_more_def intro!: answers_withI)
qed

lemma interop_answers_unknown:
  assumes "suits K" and bad: "talk = error_talk K (''BadSelector'', not_found)"
  shows "answers_with (fl_codec K) (InteropService (fl_codec K) (fl_any K) str (Inr (ended (snd talk)))) talk"
proof -
  let ?C = "fl_codec K" and ?t = "fl_any K" and ?test = "fl_value K (JStr ''test'')"
  note c = suitsD [OF assms(1)]
  have nil: "encodes ?C ANil" using c(4) by (rule carries_encodes)
  have "respond_finish ?C (snd (responder_Return ?C [AError (ErrorString not_found)] (fresh_responder (ended (frame_bytes ?C ?test)))))
      = (out_frames ?C [AResponseHeader (Some not_found) False, ANil] (ended (frame_bytes ?C ?test)))\<lparr>c_closed := True\<rparr>"
    using Return_fresh [of ?C "[AError (ErrorString not_found)]" "ended (frame_bytes ?C ?test)"] nil carries_encodes [OF c(3) [of not_found]]
    by (simp add: response_error_def response_values_def)
  with bad c(1) [of "''BadSelector''"] show ?thesis
    by (auto simp: error_talk_def InteropService_handlers clean_names no_more_def NotFoundHandler_def not_found_def case_prod_unfold simp del: run_respond
        intro!: answers_withI)
qed

lemma interop_answers_unary:
  assumes "suits K" and unary: "v \<in> set vals" "talk = unary_talk K v"
  shows "answers_with (fl_codec K) (InteropService (fl_codec K) (fl_any K) str (Inr (ended (snd talk)))) talk"
proof -
  let ?C = "fl_codec K" and ?t = "fl_any K" and ?test = "fl_value K (JStr ''test'')"
  note c = suitsD [OF assms(1)]
  have nil: "encodes ?C ANil" using c(4) by (rule carries_encodes)
  let ?v = "fl_value K v"
  have v: "carries ?C (TVar ?t) ?v" "single_error [?v] = None" using c(5) [of v] unary(1) by auto
  from call_back_ok [OF v(1) carries_encodes [OF c(1) [of "''Unary''"]] c(2) v(1), of False "[]"]
  have "call_back ?C ?t (Inr (ended (snd talk))) ''Unary'' ?v = Some (Inr (?v, (out_frames ?C [ACallHeader ''Unary'', ?v] (ended []))\<lparr>c_closed := True\<rparr>))"
    by (simp add: unary(2) unary_talk_def out_frames_def ended_def)
  from Interop_Unary_ok [OF v(1) c(2) carries_encodes [OF v(1)] nil v(2) this] obtain r1 where
    "Interop_Unary ?C ?t (Inr (ended (snd talk))) (fresh_responder (ended (frame_bytes ?C ?v))) = Some r1"
    "respond_finish ?C r1 = (out_frames ?C [AResponseHeader None False, ?v] (ended []))\<lparr>c_closed := True\<rparr>" by auto
  with unary c(1) [of "''Unary''"] show ?thesis
    by (auto simp: unary_talk_def InteropService_handlers clean_names no_more_def intro!: answers_withI)
qed

lemma interop_answers:
  assumes "suits K" and "str (fl_value K (JStr ''test'')) = ''test''" and "talk \<in> set (talks K rand)"
  shows "answers_with (fl_codec K) (InteropService (fl_codec K) (fl_any K) str (Inr (ended (snd talk)))) talk"
proof -
  let ?C = "fl_codec K" and ?t = "fl_any K"
  note c = suitsD [OF assms(1)]
  consider (err) "talk = error_talk K (''Error'', ''test'')" | (bad) "talk = error_talk K (''BadSelector'', not_found)"
    | (unary) v where "v \<in> set vals" "talk = unary_talk K v" | (stream) "talk = stream_talk K"
    | (raw) n where "talk = bytes_talk K (rand n)"
    using assms(3) by (auto simp: talks_def)
  then show ?thesis
  proof cases
    case err
    with assms(1,2) show ?thesis by (rule interop_answers_error)
  next
    case bad
    with assms(1) show ?thesis by (rule interop_answers_unknown)
  next
    case unary
    with assms(1) show ?thesis by (rule interop_answers_unary)
  next
    case stream
    have vs: "list_all (carries ?C (TVar ?t)) (ANil # map (fl_value K) vals)" using c(4,5) by (auto simp: list_all_iff)
    from Interop_Stream_ok [OF carries_encodes [OF c(1)] c(2) vs _ refl] c(1) [of "''Stream''"] stream show ?thesis
      by (fastforce simp: stream_talk_def InteropService_handlers clean_names intro!: answers_withI)
  next
    case raw
    from Interop_Bytes_ok [OF carries_encodes [OF c(1)] c(2,4) _ refl, of "rand n"] c(1) [of "''Bytes''"] raw show ?thesis
      by (fastforce simp: bytes_talk_def InteropService_handlers clean_names intro!: answers_withI)
  qed
qed

lemma callback_answers:
  assumes "suits K" and "talk \<in> set (drop 2 (talks K rand))"
  shows "answers_with (fl_codec K) (CallbackService (fl_codec K) (fl_any K)) talk"
proof -
  let ?C = "fl_codec K" and ?t = "fl_any K"
  note c = suitsD [OF assms(1)]
  consider (unary) v where "v \<in> set vals" "talk = unary_talk K v" | (stream) "talk = stream_talk K" | (raw) n where "talk = bytes_talk K (rand n)"
    using assms(2) by (auto simp: talks_def)
  then show ?thesis
  proof cases
    case unary
    let ?v = "fl_value K v"
    have v: "carries ?C (TVar ?t) ?v" "single_error [?v] = None" using c(5) [of v] unary(1) by auto
    from Callback_Unary_ok [OF v(1) c(2) v(2)] obtain r1 where
      "Callback_Unary ?C ?t (fresh_responder (ended (frame_bytes ?C ?v))) = Some r1"
      "respond_finish ?C r1 = (out_frames ?C [AResponseHeader None False, ?v] (ended []))\<lparr>c_closed := True\<rparr>" by auto
    with unary c(1) [of "''Unary''"] show ?thesis
      by (auto simp: unary_talk_def CallbackService_handlers clean_names no_more_def intro!: answers_withI)
  next
    case stream
    have vs: "list_all (carries ?C (TVar ?t)) (ANil # map (fl_value K) vals)" using c(4,5) by (auto simp: list_all_iff)
    from Callback_Stream_ok [OF carries_encodes [OF c(2)] vs] c(1) [of "''Stream''"] stream show ?thesis
      by (fastforce simp: stream_talk_def CallbackService_handlers clean_names no_more_def intro!: answers_withI)
  next
    case raw
    from Callback_Bytes_ok [OF carries_encodes [OF c(2)] c(4), of "rand n"] c(1) [of "''Bytes''"] raw show ?thesis
      by (fastforce simp: bytes_talk_def CallbackService_handlers clean_names no_more_def intro!: answers_withI)
  qed
qed

section \<open>The JSON codec suits the check\<close>

lemma ascii_utf8: "list_all (\<lambda>c. code c < 0x80) s \<Longrightarrow> valid_utf8 s"
  by (induction s) (simp_all add: valid_utf8_Cons rune_len_ascii valid_utf8.simps [of "[]"])

lemma vals_carried: "v \<in> insert (JStr ''test'') (set vals) \<Longrightarrow> carried L (AData v)"
  using json_text_string [of "''foo''"] json_text_string [of "''bar''"] json_text_string [of "''hello''"] json_text_string [of "''test''"]
  by (auto simp: vals_def carried_def json_text_def ascii_utf8 maxNestingDepth_def show_int_def show_nat.simps)

lemma json_suits: "suits (json_flavour L F)"
proof -
  have "list_all (\<lambda>sel. carries (JSONCodec L) TCall (ACallHeader sel)) [''Error'', ''BadSelector'', ''Unary'', ''Stream'', ''Bytes'']"
    by (simp add: json_carries_call sendable_def ascii_utf8)
  moreover have "list_all (\<lambda>(e, c). carries (JSONCodec L) TResponse (AResponseHeader e c))
      [(None, False), (None, True), (Some ''test'', False), (Some not_found, False)]"
    by (simp add: json_carries_response sendable_def ascii_utf8 not_found_def)
  moreover have "carries (JSONCodec L) (TVar ()) (fl_value (json_flavour L F) v) \<and> single_error [fl_value (json_flavour L F) v] = None"
    if "v \<in> insert (JStr ''test'') (set vals)" for v
    using json_carries_data [OF vals_carried [OF that]] that by (auto simp: json_flavour_def json_carries_nil)
  moreover have "fl_codec (json_flavour L F) = JSONCodec L" "fl_any (json_flavour L F) = ()" by (simp_all add: json_flavour_def)
  ultimately show ?thesis by (auto simp: suits_def list_all_iff json_carries_nil)
qed

lemma json_check_lines:
  "check_lines (json_flavour L F) =
     [''Error: test'', ''Error: not found: /BadSelector'',
      ''Unary: 100 100'', ''Unary: true true'', ''Unary: hello hello'', ''Unary: map[foo:bar] map[foo:bar]'', ''Unary: [1 2 3] [1 2 3]'',
      ''Stream: 100'', ''Stream: true'', ''Stream: hello'', ''Stream: map[foo:bar]'', ''Stream: [1 2 3]'',
      ''Bytes: 1'', ''Bytes: 1024'', ''Bytes: 1048576'']"
  by (simp add: check_lines_def json_flavour_def vals_def not_found_def check_sizes_def show_int_def show_nat.simps digit_char_def char_of_def bit_0)

section \<open>Properties\<close>


text \<open>An environment in which the service answers, for a given source of random bytes.\<close>

definition self_env :: "(json, unit) flavour \<Rightarrow> (nat \<Rightarrow> bytes) \<Rightarrow> unit os_env" where
  "self_env K rand =
     \<lparr>Getenv = (\<lambda>_. ''json''), Executable = Inr ''qtalk'', LookPath = (\<lambda>_. Inl EOF), StdinPipe = (\<lambda>_. Inr \<lparr>wr_buf = [], wr_fail = None\<rparr>),
      StdoutPipe = (\<lambda>_. Inr \<lparr>rd_buf = [], rd_end = None\<rparr>), Start = (\<lambda>_. None), quic_DialAddr = (\<lambda>_. Inl EOF),
      sess_opens = (\<lambda>_. map (Inr \<circ> ended \<circ> snd) (talks K rand))\<rparr>"


text \<open>
  C37: \<^verbatim>\<open>qtalk call\<close>. The URL is parsed, the arguments too, the transport is known and dials, and the server there has a handler that receives one value and returns one. When JSON carries
  both values, the tool prints one indented JSON text, which parses back to exactly the value that the handler returned for the arguments, and closes the session; the request it sent is one that the server answers with that response.
\<close>

theorem call_prints_result:
  assumes "url_Parse (hd args) = Inr u" and "if length args > 1 then clon_Parse (tl args) = Inr arg else arg = ANil"
    and "dialers (Scheme u) = Some d" and "d (Host u) = Inr sess" and "sess_Open sess = Inr (ended response)"
    and "sendable (Path u)" and "carried L arg" and "carried L v"
    and "hn (cleanSelector (Path u)) = unary () f" and "f (Inr arg) = [v]"
    and "response = frames_of (JSONCodec L) [AResponseHeader None False, v]"
  shows "\<exists>s text sv1. callCmd_Run L url_Parse clon_Parse dialers sess_Open args = Next () s \<and> printed s = [text]
    \<and> json_Decode (TVar ()) (map char_byte text) = Inr v \<and> ran_calls s = [CloseSession]
    \<and> Server_respond (JSONCodec L) hn (ended (concat (map (wr_buf \<circ> c_out) (used s)))) = Some sv1 \<and> wr_buf (c_out sv1) = response"
proof -
  let ?C = "JSONCodec L" and ?K = "json_flavour L (formatFloat L)"
  have K: "fl_codec ?K = ?C" by (simp add: json_flavour_def)
  have c: "carries ?C TCall (ACallHeader (Path u))" "carries ?C (TVar ()) arg" "carries ?C (TVar ()) v" "carries ?C TResponse (AResponseHeader None False)"
    using json_carries_call [OF assms(6)] json_carries_data assms(7,8) json_carries_response [of None] by auto
  have e: "single_error [v] = None" using assms(8) by (auto simp: carried_def)
  let ?s = "new_tool\<lparr>deferred := [CloseSession], opens := [Inr (ended response)]\<rparr>"
  let ?io = "out_frames ?C [ACallHeader (Path u), arg] (ended response)"
  from call_recv_values [OF c(4), of "[()]" "[v]" ?io "[]" "Some EOF"] c(3) assms(11)
  obtain io where "call_recv ?C [()] ?io = Some (Some \<lparr>resp_error = None, resp_continue = False, resp_values = [v]\<rparr>, None, io)"
    by auto
  from tool_Call_response [where K = ?K and s = ?s and os = "[]", unfolded K, OF carries_encodes [OF c(1)] carries_encodes [OF c(2)] _ this]
  have call: "tool_Call ?K [()] (Path u) arg ?s = Next (None, [v]) (?s\<lparr>opens := [], used := [io]\<rparr>)"
    and out: "wr_buf (c_out io) = frames_of ?C [ACallHeader (Path u), arg]" by (simp_all add: new_tool_def)
  let ?text = "MarshalIndent (formatFloat L) (any_json L v)"
  have arg: "(if length args > 1 then or_fatal (clon_Parse (tl args)) s else Next ANil s) = Next arg s" for s
    using assms(2) by (simp add: or_fatal_def split: if_splits)
  have "callCmd_Run L url_Parse clon_Parse dialers sess_Open args = returns (Next () (?s\<lparr>opens := [], used := [io], printed := [?text]\<rparr>))"
    using assms(1,3-5) call unfolding callCmd_Run_def arg
    by (simp add: or_fatal_def Dial_def NewPeer_def NewClient_def fatal_def Println_goes ret_of_def defer_calls_def new_tool_def)
  then have run: "callCmd_Run L url_Parse clon_Parse dialers sess_Open args
      = Next () (?s\<lparr>opens := [], used := [io], printed := [?text], deferred := [], ran_calls := [CloseSession]\<rparr>)" by (simp add: returns_def new_tool_def)
  have r: "response_error [v] None = None" "response_values [v] = [v]" using e by (simp_all add: response_error_def response_values_def)
  have "list_all (encodes ?C) [v]" using carries_encodes [OF c(3)] by simp
  from unary_call(2) [where C = ?C and vs = "[v]" and hn = hn and sv = "ended []" and e = "Some EOF" and cl = idle_io, unfolded r,
      OF c(1,2) assms(9) c(4) this _ _ assms(10) [symmetric]]
  obtain sv1 where "Server_respond ?C hn (ended (frames_of ?C [ACallHeader (Path u), arg])) = Some sv1" "wr_buf (c_out sv1) = response"
    using assms(11) by (auto simp: idle_io_def)
  moreover have "json_Decode (TVar ()) (map char_byte ?text) = Inr v"
    using assms(8) json_indented [of "any_json L v" "formatFloat L"] by (auto simp: carried_def)
  ultimately show ?thesis using run out by simp
qed

theorem call_prints_result_witness:
  "\<exists>s text. callCmd_Run plain_json (\<lambda>_. Inr \<lparr>Scheme = ''tcp'', Host = ''localhost'', Path = ''/count''\<rparr>) (\<lambda>_. Inl EOF) [''tcp'' \<mapsto> (\<lambda>_. Inr ())]
       (\<lambda>_. Inr (ended (frames_of (JSONCodec plain_json) [AResponseHeader None False, AData (JNum 8)]))) [''tcp://localhost/count''] = Next () s
     \<and> printed s = [text] \<and> json_Decode (TVar ()) (map char_byte text) = Inr (AData (JNum 8)) \<and> ran_calls s = [CloseSession]"
proof -
  have "sendable ''/count''" by (simp add: sendable_def ascii_utf8)
  moreover have "carried plain_json ANil" "carried plain_json (AData (JNum 8))"
    by (simp_all add: carried_def json_text_def show_int_def show_nat.simps plain_json_def)
  ultimately show ?thesis
    using call_prints_result [of "\<lambda>_. Inr \<lparr>Scheme = ''tcp'', Host = ''localhost'', Path = ''/count''\<rparr>" "[''tcp://localhost/count'']"
        "\<lparr>Scheme = ''tcp'', Host = ''localhost'', Path = ''/count''\<rparr>" "\<lambda>_. Inl EOF" ANil "[''tcp'' \<mapsto> (\<lambda>_. Inr ())]" "\<lambda>_. Inr ()" "()"
        "\<lambda>_. Inr (ended (frames_of (JSONCodec plain_json) [AResponseHeader None False, AData (JNum 8)]))"
        "frames_of (JSONCodec plain_json) [AResponseHeader None False, AData (JNum 8)]" plain_json "AData (JNum 8)"
        "\<lambda>_. unary () (\<lambda>_. [AData (JNum 8)])" "\<lambda>_. [AData (JNum 8)]"] by auto
qed

text \<open>
  The byte check compares lengths. Whatever bytes come back on the channel, the check goes on if there are as many as it sent, and ends the tool with the message that
  the buffer does not match otherwise.
\<close>

theorem bytes_check_counts:
  assumes "suits K" and "doom s = None"
    and "opens s = Inr (ended (frames_of (fl_codec K) [AResponseHeader None True, ANil] @ answered)) # os"
  shows "\<exists>s1. bytes_check K data s =
    (if length answered = length data then Next (length data) s1 else Fatal ''byte stream buffer does not match'' s1)"
  using bytes_check_any [OF assms(1,3,2), of data] by (auto simp: Let_def)

section \<open>Deferred calls\<close>

text \<open>The calls that are deferred and those that were run, which no check changes.\<close>

abbreviation calls :: "tool \<Rightarrow> deferred_call list \<times> deferred_call list" where
  "calls s \<equiv> (deferred s, ran_calls s)"

fun calls_of :: "'a progress \<Rightarrow> deferred_call list \<times> deferred_call list" where
  "calls_of (Next _ s) = calls s"
| "calls_of (Fatal _ s) = calls s"
| "calls_of (Waits s) = calls s"

lemma ran_and_then: "calls_of p = r \<Longrightarrow> (\<And>x s. calls s = r \<Longrightarrow> calls_of (k x s) = r) \<Longrightarrow> calls_of (and_then p k) = r"
  by (cases p) auto

lemma ran_steps:
  "calls_of (waits s) = calls s" "calls_of (fatal err s) = calls s" "calls_of (Println words s) = calls s" "calls_of (or_fatal x s) = calls s"
  "calls_of (tool_Call K ts sel v s) = calls s"
  by (auto simp: waits_def fatal_def Println_def or_fatal_def tool_Call_def Let_def split: option.splits prod.splits nat.splits sum.splits list.splits)

lemma ran_stream_receive: "calls_of (stream_receive K s) = calls s"
proof (induction K s rule: stream_receive.induct)
  case (1 K s)
  show ?case
  proof (cases "frame_Decode (fl_codec K) (TVar (fl_any K)) (c_in (last (used s)))")
    case (RdOk v rd)
    let ?s = "on_channel (\<lambda>io. io\<lparr>c_in := rd\<rparr>) s" and ?ws = "[''Stream:'', fl_Sprint K v]"
    have p: "calls_of (Println ?ws ?s) = calls s" by (simp only: ran_steps on_channel_simps)
    show ?thesis
    proof (cases "Println ?ws ?s")
      case (Next x s1)
      then show ?thesis using 1 [OF RdOk] p RdOk by (subst stream_receive.simps) simp
    qed (use p RdOk in \<open>subst stream_receive.simps, simp\<close>)+
  qed (subst stream_receive.simps, simp add: ran_steps)+
qed

lemma ran_each: "(\<And>x s. calls_of (f x s) = calls s) \<Longrightarrow> calls_of (each f xs s) = calls s"
  by (induction xs arbitrary: s) (auto intro: ran_and_then)

lemma ran_checks:
  "calls_of (bytes_check K data s) = calls s" "calls_of (checks K rand close_err race s) = calls s" "calls_of (benchmark K rand diff thru s) = calls s"
proof -
  have b: "calls_of (bytes_check K data s) = calls s" for data s
    unfolding bytes_check_def by (intro ran_and_then ran_steps) (auto simp: Let_def ran_steps intro!: ran_and_then)
  show "calls_of (bytes_check K data s) = calls s" by (rule b)
  have e: "calls_of (error_check K sel s) = calls s" for sel s
    unfolding error_check_def by (intro ran_and_then ran_steps) (auto simp: ran_steps split: option.splits)
  have u: "calls_of (unary_check K v s) = calls s" for v s
    unfolding unary_check_def by (intro ran_and_then ran_steps) (auto simp: ran_steps intro!: ran_and_then)
  have st: "calls_of (stream_check K close_err race s) = calls s" for s
    unfolding stream_check_def by (intro ran_and_then ran_steps) (auto simp: ran_steps ran_stream_receive split: prod.splits intro!: ran_and_then)
  have eu: "calls_of (each (unary_check K) vals s) = calls s" for s by (rule ran_each) (rule u)
  have eb: "calls_of (each (\<lambda>n s. and_then (bytes_check K (rand n) s) (\<lambda>len. Println (line n len))) ns s) = calls s" for line ns s
    by (rule ran_each) (auto simp: b ran_steps intro!: ran_and_then)
  show "calls_of (checks K rand close_err race s) = calls s" "calls_of (benchmark K rand diff thru s) = calls s"
    unfolding checks_def benchmark_def
    by (auto simp: e eu st eb intro!: ran_and_then)
qed

text \<open>
  C39: the deferred calls of \<^verbatim>\<open>check\<close> and \<^verbatim>\<open>bench\<close>. A command that comes to its end closes its session and then, when it started a process, interrupts it and waits for it. A command that
  ends in \<^verbatim>\<open>log.Fatal\<close>, in whatever check and for whatever reason, runs none of them: the session is not closed and a process that was started is left running.
\<close>

theorem deferred_calls_run:
  "(case checkCmd_Run E J B rand close_err race args of
      Next _ s \<Rightarrow> ran_calls s = CloseSession # (if args \<noteq> [] \<and> prefix udp (hd args) then [] else [Interrupt, WaitProcess])
    | Fatal _ s \<Rightarrow> ran_calls s = []
    | Waits s \<Rightarrow> ran_calls s = [])
   \<and> (case benchCmd_Run E J B rand diff thru args of
      Next _ s \<Rightarrow> ran_calls s = CloseSession # (if args \<noteq> [] \<and> prefix udp (hd args) then [] else [Interrupt, WaitProcess])
    | Fatal _ s \<Rightarrow> ran_calls s = []
    | Waits s \<Rightarrow> ran_calls s = [])"
proof -
  let ?d = "CloseSession # (if args \<noteq> [] \<and> prefix udp (hd args) then [] else [Interrupt, WaitProcess])"
  have c: "(\<exists>s. connect E args new_tool = Next () s \<and> calls s = (?d, [])) \<or> (\<exists>e s. connect E args new_tool = Fatal e s \<and> ran_calls s = [])"
    by (auto simp: connect_def start_process_def or_fatal_def fatal_def defer_calls_def new_tool_def DialIO_def split: sum.splits option.splits)
  have r: "case returns (and_then (connect E args new_tool) (\<lambda>_. body)) of
      Next _ s \<Rightarrow> ran_calls s = ?d | Fatal _ s \<Rightarrow> ran_calls s = [] | Waits s \<Rightarrow> ran_calls s = []"
    if body: "\<And>s. calls_of (body s) = calls s" for body :: "tool \<Rightarrow> unit progress"
    using c
  proof
    assume "\<exists>s. connect E args new_tool = Next () s \<and> calls s = (?d, [])"
    then obtain s where s: "connect E args new_tool = Next () s" "calls s = (?d, [])" by blast
    with body [of s] show ?thesis by (cases "body s") (simp_all add: returns_def)
  qed (auto simp: returns_def)
  show ?thesis unfolding checkCmd_Run_def benchCmd_Run_def
    by (intro conjI r) (simp_all add: ran_checks)
qed

end
