(* ===== verification/Spec2Isabelle.thy ===== *)
theory Spec2Isabelle
  imports Mux_Connect Mux_Listen Rpc_Concurrent Rpc_Cancel Cbor_Mux X_Transports Qtalk_Tool
begin

text \<open>
  A verification development for qtalk-go, a library for RPC over multiplexed byte streams.

  \<^bold>\<open>The program.\<close> A transport (a socket, a pipe) carries one qmux session (\<^verbatim>\<open>src/mux\<close>): frames of seven types
  (\<^verbatim>\<open>src/mux/frame\<close>) that open, confirm, feed, adjust and close numbered channels. A session has a goroutine that
  reads frames and dispatches them to the channels of its table; each channel has a receive buffer, a window
  for what it may send and a window for what it may receive. On one channel per call, the RPC layer (\<^verbatim>\<open>src/rpc\<close>) sends
  length-prefixed values of some codec: a call header and arguments one way, a response header and values back. The
  server finds the handler by a selector in a tree of muxes; handlers can be made from Go functions (\<^verbatim>\<open>src/fn\<close>), functions can be passed as
  pointers that the other side calls (\<^verbatim>\<open>src/exp\<close>), and a handler can pass its call on to another session (\<^verbatim>\<open>src/rpc/proxy.go\<close>). A peer
  (\<^verbatim>\<open>src/talk\<close>) is a client and a server on one session. \<^verbatim>\<open>src/x\<close> has a second, simpler multiplexer and sessions over QUIC and WebRTC, \<^verbatim>\<open>src/interop\<close> the
  services that the tool (\<^verbatim>\<open>src/cmd/qtalk\<close>) checks other implementations with.

  \<^bold>\<open>The theories.\<close>
  \<^item> \<open>Qtalk_Prelude\<close>: bytes and 32-bit words, Go's errors as values, readers and writers as explicit state
    with their end and their failure, and the locale \<open>byte_framing\<close> of self-delimiting encodings.
  \<^item> \<open>Mux_Frame\<close>: the messages, \<^verbatim>\<open>Encode\<close>, \<^verbatim>\<open>Decode\<close> (\<^verbatim>\<open>src/mux/frame\<close>). Decoding inverts encoding, accepts nothing
    else, and its errors on cut and foreign streams; interprets \<open>byte_framing\<close>.
  \<^item> \<open>Mux_Buffer\<close>: the linked list of \<^verbatim>\<open>util_buffer.go\<close> in a store, as a refinement of a byte queue (locale
    \<open>byte_queue\<close>), and readers waiting on its condition variable as a step relation.
  \<^item> \<open>Mux_Window\<close>: \<^verbatim>\<open>util_window.go\<close> with waiting writers (locale \<open>send_credit\<close>): credit is conserved.
  \<^item> \<open>Mux_ChanList\<close>: \<^verbatim>\<open>util_chanlist.go\<close>; the locales \<open>chan_table\<close>, \<open>least_table\<close> and \<open>registry\<close>, the contract between a
    table of channels and a session.
  \<^item> \<open>Mux_Channel\<close>: every method of \<^verbatim>\<open>channel.go\<close> on a record with the fields of the struct. What \<^verbatim>\<open>Write\<close>
    and \<^verbatim>\<open>Read\<close> do and that \<^verbatim>\<open>handle\<close> keeps the receive-window invariant.
  \<^item> \<open>Mux_Session\<close>: \<^verbatim>\<open>session.go\<close> with a heap of channels, its methods split where they block, and the step relation
    \<open>sstep\<close> of all their interleavings: no panic, what the end of the loop does, and callers left waiting.
  \<^item> \<open>Mux_Flow\<close>: two peers and the wire between them: the flow control of the two ends is sound and
    live, and the handshake sets such a pair up.
  \<^item> \<open>Mux_Pipe\<close>: the abstract channel, a bounded queue of bytes, and a generic locale \<open>simulation\<close> for labelled steps; the two peers of \<open>Mux_Flow\<close> refine the queue. This is
    the channel that the RPC layer uses.
  \<^item> \<open>Mux_Duplex\<close>: both directions of a channel at once, with one wire each way. Each direction moves like the system of \<open>Mux_Flow\<close>, so the channel refines two pipes (a second instance of \<open>simulation\<close>).
  \<^item> \<open>Mux_Demux\<close>: the packet loop against the reference of a channel that is alone with its frames.
  \<^item> \<open>Mux_Peers\<close>: two sessions over one byte transport with any number of channels; each channel moves like the pair of \<open>Mux_Duplex\<close>, and what is under way can always be finished.
  \<^item> \<open>Mux_Connect\<close>: how these channels come about: one exchange of \<^verbatim>\<open>Open\<close> and \<^verbatim>\<open>Accept\<close> after the other, from two new sessions.
  \<^item> \<open>Mux_Teardown\<close>: the two ends of a channel from the first close to the end: no frame reaches a channel that is gone, and the teardown can always complete.
  \<^item> \<open>Mux_Listen\<close>: dialers and listeners (\<^verbatim>\<open>dial_*.go\<close>, \<^verbatim>\<open>listen_*.go\<close>); the WebSocket listener with its handlers as a step
    relation neither leaks a session nor leaves a caller waiting after \<^verbatim>\<open>Close\<close>.
  \<^item> \<open>Mux_Proxy\<close>: a channel as its users see it, \<^verbatim>\<open>io.Copy\<close>, and \<^verbatim>\<open>proxy.go\<close>: a proxied pair of channels is transparent in every
    interleaving of its two copies, and ends.
  \<^item> \<open>Rpc_Frame\<close>, \<open>Rpc_Handler\<close>, \<open>Rpc_Call\<close>: \<^verbatim>\<open>frame.go\<close>; \<^verbatim>\<open>handler.go\<close> (locale \<open>longest_prefix\<close>); \<^verbatim>\<open>rpc.go\<close>, \<^verbatim>\<open>client.go\<close> and \<^verbatim>\<open>server.go\<close> with
    handlers as programs. What a handler returns is what the caller gets.
  \<^item> \<open>Rpc_Cancel\<close>: the goroutine of \<^verbatim>\<open>Client.Call\<close> that closes the channel when the context ends, on the qmux channel of \<open>Mux_Teardown\<close>.
  \<^item> \<open>Rpc_Concurrent\<close>: any number of calls at once on the channels of \<open>Mux_Peers\<close>, with handlers that run on the input that has arrived: every call gives the result it gives alone, and all of them can complete. This is
    the whole stack, from the values of a call down to the bytes on the transport.
  \<^item> \<open>Json_Text\<close>, \<open>Json_Codec\<close>: \<^verbatim>\<open>src/codec/json.go\<close> with the encoder and the decoder of the standard library: texts are read back, so the codec carries what the
    RPC layer assumes of a codec.
  \<^item> \<open>Rpc_Server\<close>: the accept loops of \<^verbatim>\<open>server.go\<close>, \<^verbatim>\<open>src/talk\<close> and \<^verbatim>\<open>src/rpc/proxy.go\<close>: a peer answers the calls for what it has registered, and a
    call through \<^verbatim>\<open>ProxyHandler\<close> is the same call.
  \<^item> \<open>Go_Value\<close>, \<open>Fn_Call\<close>, \<open>Exp_Ptr\<close>: the values and types of the package \<^verbatim>\<open>reflect\<close>; \<^verbatim>\<open>src/fn\<close>, from the arguments of a call to a well-typed
    call of a Go function and back; \<^verbatim>\<open>src/exp/ptr.go\<close>, the walk over a value, against the pointers that can be reached in it.
  \<^item> \<open>Interop\<close>: \<^verbatim>\<open>src/interop\<close>: values, streams and bytes return to the caller through both services.
  \<^item> \<open>Cbor_Mux\<close>: \<^verbatim>\<open>src/x/cbor/mux\<close> over a CBOR library that is a parameter; its map of channels interprets the
    same locales.
  \<^item> \<open>X_Transports\<close>: \<^verbatim>\<open>src/x/quic\<close> and \<^verbatim>\<open>src/x/webrtc\<close> over transports that are parameters.
  \<^item> \<open>Cli_Command\<close>, \<open>Cli_Help\<close>, \<open>Cli_Framework\<close>: \<^verbatim>\<open>src/cmd/qtalk/cli\<close> and the command tree of the tool: which command runs, what its help
    lists, and how an exported function is called.
  \<^item> \<open>Qtalk_Tool\<close>: the bodies of the commands \<^verbatim>\<open>call\<close>, \<^verbatim>\<open>interop\<close>, \<^verbatim>\<open>check\<close> and \<^verbatim>\<open>bench\<close>, and \<^verbatim>\<open>src/rpc/rpctest\<close>: what the tool prints when it is run against its own service, and what its
    failures leave behind.
  \<^item> This theory: properties that span components.

  \<^bold>\<open>Conventions.\<close> Machine integers that can wrap are words of their width. A panic, a
  blocked call and an error are values of the result types. Functions that may run for ever (\<^verbatim>\<open>Write\<close>, \<^verbatim>\<open>Read\<close>, \<^verbatim>\<open>Match\<close>,
  \<^verbatim>\<open>CommandPath\<close>, \<^verbatim>\<open>Available\<close>, \<^verbatim>\<open>walk\<close>) are \<open>partial_function (option)\<close> and their return is proved where it holds, under the
  conditions where it does; no fuel is used. Code between lock and unlock is atomic. The heap references of
  channels, muxes, commands and Go values are natural numbers. The number of channels of a session is assumed to stay below
  2^32 - 1 (\<open>has_room\<close>, \<open>cbor_room\<close>), beyond which ids repeat. A codec is a parameter of the RPC layer, with JSON as the instance; the CBOR library, the flag parser, \<^verbatim>\<open>mapstructure\<close>, the bodies of Go functions,
  connections, QUIC streams and WebRTC data channels are parameters.

  \<^bold>\<open>Not modelled.\<close> Memory (the decoder allocates the stated length of a data frame before any check), data races
  on unguarded fields (\<^verbatim>\<open>sentEOF\<close>, \<^verbatim>\<open>remoteId\<close>, and \<^verbatim>\<open>localId\<close>, which is set after the channel is in the table), timers
  (a timeout is a step that can always happen), the \<^verbatim>\<open>Debug\<close> trace and logging; the CBOR codec, which is an external library; decoding JSON into types of the user, which is reflection of the
  standard library; the example programs, which are not part of any package.

  \<^bold>\<open>Composition.\<close> From the bottom up: \<open>Mux_Frame\<close> (bytes), \<open>Mux_Flow\<close>, \<open>Mux_Duplex\<close> (one channel), \<open>Mux_Peers\<close> (many channels, one transport), \<open>Mux_Connect\<close> (how they start), \<open>Mux_Teardown\<close> (how they end),
  \<open>Rpc_Concurrent\<close> (calls), with the codec of \<open>Json_Codec\<close> and the handlers of \<open>Rpc_Handler\<close> and \<open>Fn_Call\<close> as instances of its parameters. Channels are opened and closed outside of the runs of \<open>Mux_Peers\<close>: its channels are established before and not closed
  during a run.
\<close>

section \<open>Properties that span components\<close>

text \<open>
  C28: \<^verbatim>\<open>Close\<close> and then \<^verbatim>\<open>Write\<close> on a channel (from two goroutines, say). The \<^verbatim>\<open>Write\<close> succeeds, and when the
  peer's packet loop has read what was sent, it has ended with the error \<^verbatim>\<open>invalid channel\<close>: a late write on one
  channel takes the peer's whole session down.
\<close>

theorem write_after_close_ends_peer_session:
  assumes "Close cA w = (err, ch1, w1)" and "chan_Write data ch1 w1 = Some (WDone n e ch2 w2)"
    and "wr_fail w = None" and "\<not> sentClose cA" and "\<not> sentEOF cA" and "\<not> w_closed (remoteWin cA)" and "maxRemotePayload cA \<noteq> 0"
    and "length data \<le> unat (maxRemotePayload cA)" and "data \<noteq> []" and "length data \<le> unat (win (remoteWin cA))"
    and "sess_inv s" and "chanList_getChan (remoteId cA) (chans s) = Some r"
    and "wr_buf w2 = wr_buf w @ out" and "dec s = \<lparr>rd_buf = out @ rest, rd_end = x\<rparr>"
  shows "n = length data \<and> e = None \<and> (\<exists>s1 s2. onePacket s = PRet None s1
    \<and> onePacket s1 = PRet (Some (ErrorString (''qmux: invalid channel '' @ show_word (remoteId cA)))) s2)"
proof -
  note c = Close_spec [OF assms(1,3,4)]
  have len: "length data < 2 ^ 32" using le_less_trans [OF assms(8) unat_lt_u32] by simp
  from chan_Write_one_frame [of w1 ch1 data] c assms(3,5-10) obtain rw where
    "chan_Write data ch1 w1 = Some (WDone (length data) None (ch1\<lparr>remoteWin := rw\<rparr>)
       (w1\<lparr>wr_buf := wr_buf w1 @ Bytes (data_frame (remoteId cA) data)\<rparr>))" by auto
  with assms(2) have n: "n = length data" "e = None"
    and w2: "w2 = w1\<lparr>wr_buf := wr_buf w1 @ Bytes (data_frame (remoteId cA) data)\<rparr>" by simp_all
  let ?i = "remoteId cA"
  have "out = Bytes (CloseMessage ?i) @ Bytes (DataMessage ?i (of_nat (length data)) data)"
    using assms(13) w2 c(3) by (simp add: data_frame_def)
  then have "dec s = \<lparr>rd_buf = Bytes (CloseMessage ?i) @ Bytes (DataMessage ?i (of_nat (length data)) data) @ rest, rd_end = x\<rparr>"
    using assms(14) by simp
  from onePacket_data_after_close [OF assms(11,12) _ this] n show ?thesis by (simp add: unat_of_nat_u32 [OF len])
qed

theorem write_after_close_ends_peer_session_witness:
  "\<exists>ch1 w1 ch2 w2 s1 s2. Close (sample_channel\<lparr>remoteId := 0\<rparr>) idle_writer = (None, ch1, w1)
     \<and> chan_Write [7] ch1 w1 = Some (WDone 1 None ch2 w2)
     \<and> onePacket (one_channel\<lparr>dec := \<lparr>rd_buf = wr_buf w2, rd_end = None\<rparr>\<rparr>) = PRet None s1
     \<and> onePacket s1 = PRet (Some (ErrorString ''qmux: invalid channel 0'')) s2"
proof -
  let ?cA = "sample_channel\<lparr>remoteId := 0\<rparr>"
  obtain ch1 w1 where c: "Close ?cA idle_writer = (None, ch1, w1)"
    by (simp add: Close_def send_open sample_channel_def idle_writer_def)
  have p: "wr_fail idle_writer = None" "\<not> sentClose ?cA" "\<not> sentEOF ?cA" "\<not> w_closed (remoteWin ?cA)" "maxRemotePayload ?cA \<noteq> 0"
    "length [7 :: u8] \<le> unat (maxRemotePayload ?cA)" "[7 :: u8] \<noteq> []" "length [7 :: u8] \<le> unat (win (remoteWin ?cA))"
    by (simp_all add: sample_channel_def idle_writer_def)
  from chan_Write_one_frame [of w1 ch1 "[7]"] Close_spec [OF c p(1,2)] p obtain ch2 w2 where
    w: "chan_Write [7] ch1 w1 = Some (WDone 1 None ch2 w2)" by auto
  let ?s = "one_channel\<lparr>dec := \<lparr>rd_buf = wr_buf w2, rd_end = None\<rparr>\<rparr>"
  have "sess_inv ?s" "chanList_getChan (remoteId ?cA) (chans ?s) = Some 0"
    by (simp_all add: one_channel_inv one_channel_chans chanList_getChan_def)
  moreover have "wr_buf w2 = wr_buf idle_writer @ wr_buf w2" by (simp add: idle_writer_def)
  moreover have "dec ?s = \<lparr>rd_buf = wr_buf w2 @ [], rd_end = None\<rparr>" by simp
  moreover have "''qmux: invalid channel '' @ show_word (0 :: u32) = ''qmux: invalid channel 0''" by code_simp
  ultimately show ?thesis
    using write_after_close_ends_peer_session [OF c w p, of ?s 0 "wr_buf w2" "[]" None] c w by auto
qed

end
